(* ===== verification/Hmq_Prelude.thy ===== *)
theory Hmq_Prelude
  imports Main "HOL-Library.Word" "HOL-Library.AList" "HOL-Library.Multiset"
begin

text \<open>
  What every component of the broker shares: the machine types, the functions of Go's standard
  library the source calls on strings and byte slices (\<^verbatim>\<open>strings\<close>, \<^verbatim>\<open>bytes\<close>,
  \<^verbatim>\<open>unicode/utf8\<close>), Go maps as association lists, and the generic lemmas about them.

  A Go string and a \<^verbatim>\<open>[]byte\<close> are both a list of bytes, an Isabelle \<^typ>\<open>string\<close>.
  A Go map is an association list with distinct keys (\<open>distinct_keys\<close>): its list order stands
  for the order in which one \<^verbatim>\<open>range\<close> over the map visits the entries. Go leaves that order
  open, so the lemmas about a \<^verbatim>\<open>range\<close> speak of multisets, sets or look-ups, never of the
  order.
\<close>

section \<open>Types and lemma collections\<close>

type_synonym byte = "8 word"
type_synonym uint16 = "16 word"
type_synonym uint64 = "64 word"

text \<open>
  \<open>go_map\<close> collects look-up laws, \<open>keys_intro\<close> what keeps the keys of a map distinct,
  \<open>str_simps\<close> the evaluation rules of the string functions.
\<close>

named_theorems go_map
named_theorems keys_intro
named_theorems str_simps

section \<open>Strings and byte slices\<close>

definition hasPrefix :: "string \<Rightarrow> string \<Rightarrow> bool" where
  "hasPrefix s p = (take (length p) s = p)"

lemma hasPrefix_iff: "hasPrefix s p \<longleftrightarrow> (\<exists>r. s = p @ r)"
  by (metis append_eq_conv_conj append_take_drop_id hasPrefix_def)

lemma hasPrefix_append [simp]: "hasPrefix (p @ r) p"
  by (simp add: hasPrefix_def)

text \<open>\<^verbatim>\<open>strings.Split\<close> with a separator of one byte.\<close>

fun splitc :: "char \<Rightarrow> string \<Rightarrow> string list" where
  "splitc c [] = [[]]"
| "splitc c (x # xs) =
     (if x = c then [] # splitc c xs
      else (case splitc c xs of [] \<Rightarrow> [[x]] | y # ys \<Rightarrow> (x # y) # ys))"

fun joinc :: "char \<Rightarrow> string list \<Rightarrow> string" where
  "joinc c [] = []"
| "joinc c [x] = x"
| "joinc c (x # y # ys) = x @ c # joinc c (y # ys)"

lemma splitc_not_Nil [simp]: "splitc c s \<noteq> []"
  by (induction s) (auto split: list.splits)

lemma splitc_append_sep: "c \<notin> set x \<Longrightarrow> splitc c (x @ c # r) = x # splitc c r"
  by (induction x) auto

lemma splitc_no_sep: "c \<notin> set x \<Longrightarrow> splitc c x = [x]"
  by (induction x) auto

lemma splitc_pieces: "p \<in> set (splitc c s) \<Longrightarrow> c \<notin> set p"
  by (induction s arbitrary: p) (auto split: list.splits if_splits)

lemma joinc_splitc: "joinc c (splitc c s) = s"
proof (induction s)
  case Nil
  then show ?case by simp
next
  case (Cons x xs)
  obtain y ys where ys: "splitc c xs = y # ys" using splitc_not_Nil [of c xs] by (cases "splitc c xs") auto
  with Cons show ?case by (cases ys) auto
qed

lemma splitc_joinc:
  assumes "ps \<noteq> []" and "\<forall>p \<in> set ps. c \<notin> set p"
  shows "splitc c (joinc c ps) = ps"
  using assms by (induction c ps rule: joinc.induct) (auto simp: splitc_append_sep splitc_no_sep)

lemma split_sep_cases:
  obtains (none) "c \<notin> set s" "splitc c s = [s]"
  | (some) x r where "s = x @ c # r" "c \<notin> set x" "splitc c s = x # splitc c r"
proof (cases "c \<in> set s")
  case True
  then obtain x r where "s = x @ c # r" "c \<notin> set x" by (meson split_list_first)
  then show thesis by (intro some) (auto simp: splitc_append_sep)
next
  case False
  then show thesis by (intro none) (auto simp: splitc_no_sep)
qed

text \<open>
  \<^verbatim>\<open>strings.Replace(s, old, new, -1)\<close> for a non-empty \<open>old\<close>: the occurrences from the
  left, without overlap.
\<close>

function replaceAll :: "string \<Rightarrow> string \<Rightarrow> string \<Rightarrow> string" where
  "replaceAll old new [] = []"
| "replaceAll old new (x # xs) =
     (if old \<noteq> [] \<and> hasPrefix (x # xs) old then new @ replaceAll old new (drop (length old) (x # xs))
      else x # replaceAll old new xs)"
  by pat_completeness auto
termination
  by (relation "measure (\<lambda>(old, new, s). length s)") auto

lemma replaceAll_absent:
  assumes "\<And>a b. s \<noteq> a @ old @ b"
  shows "replaceAll old new s = s"
  using assms
proof (induction s)
  case Nil
  then show ?case by simp
next
  case (Cons x xs)
  have "\<not> hasPrefix (x # xs) old"
    using Cons.prems [of "[]"] by (auto simp: hasPrefix_iff)
  moreover have "\<And>a b. xs \<noteq> a @ old @ b"
    using Cons.prems by (metis append_Cons)
  ultimately show ?case using Cons.IH by simp
qed

text \<open>
  The white space of \<^verbatim>\<open>unicode.IsSpace\<close>, read off the front of a UTF-8 string: the number of
  bytes of a leading white-space rune, 0 when there is none. A white-space rune starts with a
  byte that is no continuation byte, so a scan that steps byte by byte finds the same runes as
  one that steps rune by rune.
\<close>

definition byteval :: "char \<Rightarrow> nat" where
  "byteval c = of_char c"

fun space_len :: "string \<Rightarrow> nat" where
  "space_len (a # rest) =
     (let x = byteval a in
      if x = 9 \<or> x = 10 \<or> x = 11 \<or> x = 12 \<or> x = 13 \<or> x = 32 then 1
      else (case rest of
        [] \<Rightarrow> 0
      | b # rest2 \<Rightarrow>
          (let y = byteval b in
           if x = 0xC2 \<and> (y = 0x85 \<or> y = 0xA0) then 2
           else (case rest2 of
             [] \<Rightarrow> 0
           | d # _ \<Rightarrow>
               (let z = byteval d in
                if (x = 0xE1 \<and> y = 0x9A \<and> z = 0x80)
                 \<or> (x = 0xE2 \<and> y = 0x80 \<and> (0x80 \<le> z \<and> z \<le> 0x8A \<or> z = 0xA8 \<or> z = 0xA9 \<or> z = 0xAF))
                 \<or> (x = 0xE2 \<and> y = 0x81 \<and> z = 0x9F)
                 \<or> (x = 0xE3 \<and> y = 0x80 \<and> z = 0x80)
                then 3 else 0)))))"
| "space_len [] = 0"

text \<open>\<^verbatim>\<open>strings.TrimSpace\<close>: white space off the front, then off the back.\<close>

function trim_left :: "string \<Rightarrow> string" where
  "trim_left s = (if 0 < space_len s \<and> s \<noteq> [] then trim_left (drop (space_len s) s) else s)"
  by pat_completeness auto
termination
  by (relation "measure length") auto

declare trim_left.simps [simp del]

function trim_right :: "string \<Rightarrow> string" where
  "trim_right s =
     (if s = [] then s
      else if space_len (drop (length s - 1) s) = 1 then trim_right (take (length s - 1) s)
      else if 2 \<le> length s \<and> space_len (drop (length s - 2) s) = 2 then trim_right (take (length s - 2) s)
      else if 3 \<le> length s \<and> space_len (drop (length s - 3) s) = 3 then trim_right (take (length s - 3) s)
      else s)"
  by pat_completeness auto
termination
  by (relation "measure length") auto

declare trim_right.simps [simp del]

definition trimSpace :: "string \<Rightarrow> string" where
  "trimSpace s = trim_right (trim_left s)"

text \<open>\<^verbatim>\<open>strings.Fields\<close>: the maximal runs without white space. \<open>cur\<close> is the field being read.\<close>

function fieldsFrom :: "string \<Rightarrow> string \<Rightarrow> string list" where
  "fieldsFrom cur [] = (if cur = [] then [] else [cur])"
| "fieldsFrom cur (x # xs) =
     (if 0 < space_len (x # xs)
      then (if cur = [] then [] else [cur]) @ fieldsFrom [] (drop (space_len (x # xs)) (x # xs))
      else fieldsFrom (cur @ [x]) xs)"
  by pat_completeness auto
termination
  by (relation "measure (\<lambda>(cur, s). length s)") (auto simp del: space_len.simps)

definition stringFields :: "string \<Rightarrow> string list" where
  "stringFields s = fieldsFrom [] s"

text \<open>
  \<^verbatim>\<open>utf8.ValidString\<close>: the well-formed byte sequences of the Unicode standard, table 3-7, as
  the standard library accepts them (no overlong forms, no surrogates, nothing past U+10FFFF).
\<close>

definition cont_byte :: "char \<Rightarrow> bool" where
  "cont_byte c = (0x80 \<le> byteval c \<and> byteval c \<le> 0xBF)"

fun valid_utf8 :: "string \<Rightarrow> bool" where
  "valid_utf8 [] = True"
| "valid_utf8 (a # rest) =
     (if byteval a < 0x80 then valid_utf8 rest
      else (case rest of
        [] \<Rightarrow> False
      | b # rest2 \<Rightarrow>
          if 0xC2 \<le> byteval a \<and> byteval a \<le> 0xDF then cont_byte b \<and> valid_utf8 rest2
          else (case rest2 of
            [] \<Rightarrow> False
          | d # rest3 \<Rightarrow>
              if 0xE0 \<le> byteval a \<and> byteval a \<le> 0xEF
              then (if byteval a = 0xE0 then 0xA0 \<le> byteval b \<and> byteval b \<le> 0xBF
                    else if byteval a = 0xED then 0x80 \<le> byteval b \<and> byteval b \<le> 0x9F
                    else cont_byte b)
                   \<and> cont_byte d \<and> valid_utf8 rest3
              else (case rest3 of
                [] \<Rightarrow> False
              | e # rest4 \<Rightarrow>
                  0xF0 \<le> byteval a \<and> byteval a \<le> 0xF4
                  \<and> (if byteval a = 0xF0 then 0x90 \<le> byteval b \<and> byteval b \<le> 0xBF
                     else if byteval a = 0xF4 then 0x80 \<le> byteval b \<and> byteval b \<le> 0x8F
                     else cont_byte b)
                  \<and> cont_byte d \<and> cont_byte e \<and> valid_utf8 rest4))))"

lemma valid_utf8_ascii: "\<forall>c \<in> set s. byteval c < 0x80 \<Longrightarrow> valid_utf8 s"
  by (induction s) auto

section \<open>Go maps\<close>

definition distinct_keys :: "('k \<times> 'v) list \<Rightarrow> bool" where
  "distinct_keys m = distinct (map fst m)"

lemma distinct_keys_Nil [simp, keys_intro]: "distinct_keys []"
  by (simp add: distinct_keys_def)

lemma distinct_keys_update [keys_intro]: "distinct_keys m \<Longrightarrow> distinct_keys (AList.update k v m)"
  by (simp add: distinct_keys_def distinct_update)

lemma distinct_keys_delete [keys_intro]: "distinct_keys m \<Longrightarrow> distinct_keys (AList.delete k m)"
  by (simp add: distinct_keys_def distinct_delete)

lemma distinct_keys_filter [keys_intro]: "distinct_keys m \<Longrightarrow> distinct_keys (filter P m)"
  by (induction m) (auto simp: distinct_keys_def)

lemma map_of_update [go_map]: "map_of (AList.update k v m) = (map_of m)(k \<mapsto> v)"
  by (rule update_conv')

lemma map_of_delete [go_map]: "map_of (AList.delete k m) = (map_of m)(k := None)"
  by (rule delete_conv')

lemma map_of_in_set [go_map]: "distinct_keys m \<Longrightarrow> (k, v) \<in> set m \<longleftrightarrow> map_of m k = Some v"
  by (auto simp: distinct_keys_def)

lemma map_of_filter_keys:
  "distinct_keys m \<Longrightarrow>
   map_of (filter (\<lambda>(k, v). P k v) m) k =
     (case map_of m k of None \<Rightarrow> None | Some v \<Rightarrow> if P k v then Some v else None)"
  by (induction m) (auto simp: distinct_keys_def map_of_eq_None_iff split: option.splits)

lemma set_delete_subset: "set (AList.delete k m) \<subseteq> set m"
  by (induction m) auto

text \<open>An entry of a map, read out of the map's multiset of entries.\<close>

lemma update_new: "map_of m k = None \<Longrightarrow> AList.update k v m = m @ [(k, v)]"
  by (induction m) auto

lemma update_existing:
  "map_of m k = Some v \<Longrightarrow> \<exists>a b. m = a @ (k, v) # b \<and> map_of a k = None \<and> AList.update k v' m = a @ (k, v') # b"
proof (induction m)
  case Nil
  then show ?case by simp
next
  case (Cons p m)
  show ?case
  proof (cases "fst p = k")
    case True
    with Cons.prems have "p # m = [] @ (k, v) # m \<and> map_of [] k = None
      \<and> AList.update k v' (p # m) = [] @ (k, v') # m"
      by (cases p) auto
    then show ?thesis by blast
  next
    case False
    with Cons obtain a b where "m = a @ (k, v) # b" "map_of a k = None"
      "AList.update k v' m = a @ (k, v') # b" by (cases p) auto
    with False have "p # m = (p # a) @ (k, v) # b \<and> map_of (p # a) k = None
      \<and> AList.update k v' (p # m) = (p # a) @ (k, v') # b"
      by (cases p) auto
    then show ?thesis by blast
  qed
qed

lemma set_update_subset: "set (AList.update k v m) \<subseteq> insert (k, v) (set m)"
  by (induction m) auto

lemma set_update_other: "(k', v') \<in> set (AList.update k v m) \<Longrightarrow> (k', v') = (k, v) \<or> (k', v') \<in> set m"
  using set_update_subset by fastforce

section \<open>Lists\<close>

text \<open>
  The index at which a \<^verbatim>\<open>for i := range xs\<close> loop stops when it returns at the first element
  that satisfies \<open>P\<close>, and the list without that element.
\<close>

fun indexOf :: "('a \<Rightarrow> bool) \<Rightarrow> 'a list \<Rightarrow> nat option" where
  "indexOf P [] = None"
| "indexOf P (x # xs) = (if P x then Some 0 else map_option Suc (indexOf P xs))"

definition cutAt :: "nat \<Rightarrow> 'a list \<Rightarrow> 'a list" where
  "cutAt i xs = take i xs @ drop (i + 1) xs"

lemma cutAt_simps [simp]: "cutAt 0 (x # xs) = xs" "cutAt (Suc i) (x # xs) = x # cutAt i xs"
  by (auto simp: cutAt_def)

lemma indexOf_None: "indexOf P xs = None \<longleftrightarrow> (\<forall>x \<in> set xs. \<not> P x)"
  by (induction xs) auto

lemma indexOf_Some: "indexOf P xs = Some i \<Longrightarrow> i < length xs \<and> P (xs ! i)"
  by (induction xs arbitrary: i) (auto split: if_splits)

lemma length_cutAt: "i < length xs \<Longrightarrow> length (cutAt i xs) = length xs - 1"
  by (simp add: cutAt_def)

lemma set_cutAt: "set (cutAt i xs) \<subseteq> set xs"
  by (auto simp: cutAt_def dest: in_set_takeD in_set_dropD)

lemma mset_cutAt: "i < length xs \<Longrightarrow> mset xs = add_mset (xs ! i) (mset (cutAt i xs))"
  by (induction xs arbitrary: i) (auto simp: less_Suc_eq_0_disj)

lemma foldl_invariant:
  "P s \<Longrightarrow> (\<And>s x. x \<in> set xs \<Longrightarrow> P s \<Longrightarrow> P (f s x)) \<Longrightarrow> P (foldl f s xs)"
  by (induction xs arbitrary: s) auto

end
