(* ===== verification/Topic_Levels.thy ===== *)
theory Topic_Levels
  imports Hmq_Prelude
begin

text \<open>
  Topic names and filters (\<^verbatim>\<open>broker/lib/topics/topics.go\<close>, the function
  \<^verbatim>\<open>nextTopicLevel\<close> of \<^verbatim>\<open>broker/lib/topics/memtopics.go\<close>): the level scanner, the list
  of levels a whole topic is cut into when the scanner is called again and again, an independent
  description of that list by splitting at \<^verbatim>\<open>/\<close>, and the matching relation between the levels
  of a filter and the levels of a topic, against which both topic trees are verified.
\<close>

section \<open>The scanner\<close>

definition MWC :: string where "MWC = ''#''"
definition SWC :: string where "SWC = ''+''"

text \<open>The errors of the package, one constructor per message.\<close>

datatype topic_error =
    ErrInvalidQos byte          \<comment> \<open>invalid QoS\<close>
  | ErrNilSubscriber            \<comment> \<open>subscriber cannot be nil\<close>
  | ErrMWCNotLast               \<comment> \<open>multi-level wildcard not at the last level\<close>
  | ErrHashLevel                \<comment> \<open>\<^verbatim>\<open>#\<close> must occupy the entire level\<close>
  | ErrPlusLevel                \<comment> \<open>\<^verbatim>\<open>+\<close> must occupy the entire level\<close>
  | ErrMixedLevel               \<comment> \<open>a wildcard followed by something else\<close>
  | ErrNoTopicForSubscriber     \<comment> \<open>no topic found for subscriber\<close>
  | ErrNoTopic                  \<comment> \<open>no topic found\<close>

datatype scan_state = StateCHR | StateMWC | StateSWC

text \<open>The body of the \<^verbatim>\<open>for i, c := range topic\<close> loop, with the state \<open>s\<close> and the index.\<close>

fun scanLevel :: "string \<Rightarrow> scan_state \<Rightarrow> nat \<Rightarrow> string \<Rightarrow> topic_error + (string \<times> string)" where
  "scanLevel topic s i [] = Inr (topic, [])"
| "scanLevel topic s i (c # cs) =
     (if c = CHR ''/'' then
        (if s = StateMWC then Inl ErrMWCNotLast
         else if i = 0 then Inr (SWC, drop (i + 1) topic)
         else Inr (take i topic, drop (i + 1) topic))
      else if c = CHR ''#'' then
        (if i \<noteq> 0 then Inl ErrHashLevel else scanLevel topic StateMWC (i + 1) cs)
      else if c = CHR ''+'' then
        (if i \<noteq> 0 then Inl ErrPlusLevel else scanLevel topic StateSWC (i + 1) cs)
      else
        (if s = StateMWC \<or> s = StateSWC then Inl ErrMixedLevel
         else scanLevel topic StateCHR (i + 1) cs))"

definition nextTopicLevel :: "string \<Rightarrow> topic_error + (string \<times> string)" where
  "nextTopicLevel topic = scanLevel topic StateCHR 0 topic"

section \<open>What the scanner returns\<close>

definition valid_level :: "string \<Rightarrow> bool" where
  "valid_level l = (l = MWC \<or> l = SWC \<or> CHR ''#'' \<notin> set l \<and> CHR ''+'' \<notin> set l)"

lemma valid_level_consts [simp]: "valid_level []" "valid_level MWC" "valid_level SWC"
  by (auto simp: valid_level_def)

lemma wildcards_distinct [simp]: "MWC \<noteq> SWC" "SWC \<noteq> MWC" "MWC \<noteq> []" "SWC \<noteq> []" "[] \<noteq> MWC" "[] \<noteq> SWC"
  "CHR ''/'' \<notin> set MWC" "CHR ''/'' \<notin> set SWC"
  by (auto simp: MWC_def SWC_def)

text \<open>After the first byte, a scan in the regular state runs to the next separator.\<close>

lemma scan_plain:
  assumes "CHR ''/'' \<notin> set x" "CHR ''#'' \<notin> set x" "CHR ''+'' \<notin> set x"
  shows "scanLevel t StateCHR i (x @ r) = scanLevel t StateCHR (i + length x) r"
  using assms by (induction x arbitrary: i) auto

lemma scan_wild:
  assumes "CHR ''/'' \<notin> set x" "CHR ''#'' \<in> set x \<or> CHR ''+'' \<in> set x" "0 < i"
  shows "\<exists>e. scanLevel t StateCHR i (x @ r) = Inl e"
  using assms by (induction x arbitrary: i) auto

lemma scan_after_wild:
  assumes "CHR ''/'' \<notin> set x" "x \<noteq> []" "0 < i" "s = StateMWC \<or> s = StateSWC"
  shows "\<exists>e. scanLevel t s i (x @ r) = Inl e"
  using assms by (cases x) auto

lemma next_last:
  assumes "CHR ''/'' \<notin> set x" "valid_level x"
  shows "nextTopicLevel x = Inr (x, [])"
proof (cases "x = MWC \<or> x = SWC")
  case True
  then show ?thesis by (auto simp: nextTopicLevel_def MWC_def SWC_def)
next
  case False
  then show ?thesis
    using assms scan_plain [of x x 0 "[]"] by (auto simp: nextTopicLevel_def valid_level_def)
qed

lemma next_sep:
  assumes "CHR ''/'' \<notin> set x" "valid_level x" "x \<noteq> MWC"
  shows "nextTopicLevel (x @ CHR ''/'' # r) = Inr (if x = [] then SWC else x, r)"
proof (cases "x = SWC")
  case True
  then show ?thesis by (auto simp: nextTopicLevel_def SWC_def)
next
  case False
  then show ?thesis
    using assms scan_plain [of x "x @ CHR ''/'' # r" 0 "CHR ''/'' # r"]
    by (auto simp: nextTopicLevel_def valid_level_def)
qed

lemma next_mwc_sep: "nextTopicLevel (MWC @ CHR ''/'' # r) = Inl ErrMWCNotLast"
  by (simp add: nextTopicLevel_def MWC_def)

lemma next_invalid:
  assumes "CHR ''/'' \<notin> set x" "\<not> valid_level x" "r = [] \<or> hd r = CHR ''/''"
  shows "\<exists>e. nextTopicLevel (x @ r) = Inl e"
proof -
  obtain a y where x: "x = a # y" using assms(2) by (cases x) auto
  have noslash: "CHR ''/'' \<notin> set y" "a \<noteq> CHR ''/''" using assms(1) x by auto
  consider "a = CHR ''#''" | "a = CHR ''+''" | "a \<noteq> CHR ''#''" "a \<noteq> CHR ''+''" by blast
  then show ?thesis
  proof cases
    case 1
    then have "y \<noteq> []" using assms(2) x by (auto simp: MWC_def valid_level_def)
    with 1 show ?thesis using scan_after_wild noslash by (simp add: nextTopicLevel_def x)
  next
    case 2
    then have "y \<noteq> []" using assms(2) x by (auto simp: SWC_def valid_level_def)
    with 2 show ?thesis using scan_after_wild noslash by (simp add: nextTopicLevel_def x)
  next
    case 3
    then have "CHR ''#'' \<in> set y \<or> CHR ''+'' \<in> set y" using assms(2) x by (auto simp: valid_level_def)
    with 3 noslash show ?thesis
      using scan_wild [of y 1 "a # y @ r" r] by (simp add: nextTopicLevel_def x)
  qed
qed

text \<open>The remaining topic is shorter, which makes the recursions over a topic terminate.\<close>

lemma scan_rem_shorter:
  "scanLevel t s i cs = Inr (l, r) \<Longrightarrow> t \<noteq> [] \<Longrightarrow> length r < length t"
  by (induction t s i cs rule: scanLevel.induct) (auto split: if_splits)

lemma next_shorter [termination_simp]:
  "nextTopicLevel t = Inr (l, r) \<Longrightarrow> t \<noteq> [] \<Longrightarrow> length r < length t"
  unfolding nextTopicLevel_def by (drule scan_rem_shorter) auto

section \<open>All levels of a topic\<close>

function topicLevels :: "string \<Rightarrow> topic_error + string list" where
  "topicLevels t =
     (if t = [] then Inr []
      else (case nextTopicLevel t of
        Inl e \<Rightarrow> Inl e
      | Inr (l, r) \<Rightarrow> (case topicLevels r of Inl e \<Rightarrow> Inl e | Inr ls \<Rightarrow> Inr (l # ls))))"
  by pat_completeness auto
termination
  by (relation "measure length") (auto simp: next_shorter)

declare topicLevels.simps [simp del]

lemma topicLevels_Nil [simp]: "topicLevels [] = Inr []"
  by (simp add: topicLevels.simps)

definition norm_level :: "string \<Rightarrow> string" where
  "norm_level p = (if p = [] then SWC else p)"

text \<open>The pieces between separators; a separator at the end opens no further level.\<close>

definition topic_pieces :: "string \<Rightarrow> string list" where
  "topic_pieces t = (let ps = splitc (CHR ''/'') t in if last ps = [] then butlast ps else ps)"

definition well_formed_topic :: "string \<Rightarrow> bool" where
  "well_formed_topic t =
     (list_all valid_level (splitc (CHR ''/'') t)
      \<and> list_all (\<lambda>p. p \<noteq> MWC) (butlast (splitc (CHR ''/'') t)))"

lemma topicLevels_split:
  "topicLevels t = Inr ls \<longleftrightarrow> well_formed_topic t \<and> ls = map norm_level (topic_pieces t)"
proof (induction t arbitrary: ls rule: topicLevels.induct)
  case (1 t)
  show ?case
  proof (cases rule: split_sep_cases [of "CHR ''/''" t])
    case none
    show ?thesis
    proof (cases "valid_level t")
      case True
      with none show ?thesis
        by (subst topicLevels.simps)
          (auto simp: next_last well_formed_topic_def topic_pieces_def norm_level_def)
    next
      case False
      then have "t \<noteq> []" by auto
      obtain e where "nextTopicLevel t = Inl e" using next_invalid [of t "[]"] none False by auto
      with \<open>t \<noteq> []\<close> False none show ?thesis
        by (subst topicLevels.simps) (auto simp: well_formed_topic_def)
    qed
  next
    case (some x r)
    then have t: "t \<noteq> []" by auto
    have wf: "well_formed_topic t \<longleftrightarrow> valid_level x \<and> x \<noteq> MWC \<and> well_formed_topic r"
      using some by (auto simp: well_formed_topic_def)
    have pieces: "topic_pieces t = x # topic_pieces r"
      using some by (auto simp: topic_pieces_def Let_def)
    consider "\<not> valid_level x" | "x = MWC" | "valid_level x" "x \<noteq> MWC" by blast
    then show ?thesis
    proof cases
      case 1
      then obtain e where "nextTopicLevel t = Inl e"
        using next_invalid [of x "CHR ''/'' # r"] some by auto
      with 1 t wf show ?thesis by (subst topicLevels.simps) auto
    next
      case 2
      then have "nextTopicLevel t = Inl ErrMWCNotLast" using next_mwc_sep some by simp
      with 2 t wf show ?thesis by (subst topicLevels.simps) auto
    next
      case 3
      then have nx: "nextTopicLevel t = Inr (norm_level x, r)"
        using next_sep some by (simp add: norm_level_def)
      have "topicLevels r = Inr ks \<longleftrightarrow> well_formed_topic r \<and> ks = map norm_level (topic_pieces r)" for ks
        using "1.IH" [OF t nx refl] by blast
      with 3 t nx wf pieces show ?thesis
        by (subst topicLevels.simps) (cases "topicLevels r", auto)
    qed
  qed
qed

text \<open>The levels of a topic that scans without an error.\<close>

definition wf_levels :: "string list \<Rightarrow> bool" where
  "wf_levels ls =
     (list_all (\<lambda>l. l \<noteq> [] \<and> CHR ''/'' \<notin> set l \<and> valid_level l) ls \<and> list_all (\<lambda>l. l \<noteq> MWC) (butlast ls))"

lemma wf_levels_Nil [simp]: "wf_levels []"
  by (simp add: wf_levels_def)

lemma wf_levels_Cons:
  "wf_levels (l # ls) \<longleftrightarrow>
     l \<noteq> [] \<and> CHR ''/'' \<notin> set l \<and> valid_level l \<and> (l = MWC \<longrightarrow> ls = []) \<and> wf_levels ls"
  by (auto simp: wf_levels_def)

lemma norm_level_neq [simp]: "norm_level p \<noteq> []" "(norm_level p = MWC) = (p = MWC)"
  by (auto simp: norm_level_def)

lemma topicLevels_wf: "topicLevels t = Inr ls \<Longrightarrow> wf_levels ls"
proof -
  assume "topicLevels t = Inr ls"
  then have wf: "well_formed_topic t" and ls: "ls = map norm_level (topic_pieces t)"
    by (auto simp: topicLevels_split)
  have sub: "p \<in> set (splitc (CHR ''/'') t)" if "p \<in> set (topic_pieces t)" for p
    using that by (auto simp: topic_pieces_def Let_def split: if_splits dest: in_set_butlastD)
  have but: "p \<in> set (butlast (splitc (CHR ''/'') t))" if "p \<in> set (butlast (topic_pieces t))" for p
    using that by (auto simp: topic_pieces_def Let_def split: if_splits dest: in_set_butlastD)
  have "norm_level p \<noteq> [] \<and> CHR ''/'' \<notin> set (norm_level p) \<and> valid_level (norm_level p)"
    if "p \<in> set (topic_pieces t)" for p
    using sub [OF that] wf splitc_pieces [of p "CHR ''/''" t]
    by (auto simp: norm_level_def well_formed_topic_def list_all_iff)
  moreover have "p \<noteq> MWC" if "p \<in> set (butlast (topic_pieces t))" for p
    using but [OF that] wf by (auto simp: well_formed_topic_def list_all_iff)
  ultimately show ?thesis
    by (auto simp: ls wf_levels_def list_all_iff map_butlast [symmetric])
qed

lemma topicLevels_Cons:
  assumes "t \<noteq> []"
  shows "topicLevels t = Inr ls \<longleftrightarrow>
    (\<exists>l r ks. nextTopicLevel t = Inr (l, r) \<and> topicLevels r = Inr ks \<and> ls = l # ks)"
  using assms by (subst topicLevels.simps) (auto split: sum.splits)

text \<open>
  Induction over the levels of a topic that scans, and over the scanned part of one that does
  not: the induction rules of every operation that walks down a tree along a topic.
\<close>

lemma topic_induct [consumes 1, case_names Nil Cons]:
  assumes "topicLevels t = Inr ls"
    and "P [] []"
    and "\<And>t l r ks. t \<noteq> [] \<Longrightarrow> nextTopicLevel t = Inr (l, r) \<Longrightarrow> topicLevels r = Inr ks \<Longrightarrow>
           wf_levels (l # ks) \<Longrightarrow> P r ks \<Longrightarrow> P t (l # ks)"
  shows "P t ls"
  using assms(1)
proof (induction ls arbitrary: t)
  case Nil
  then have "t = []" using topicLevels_Cons by blast
  then show ?case using assms(2) by simp
next
  case (Cons l ks)
  then have "t \<noteq> []" by auto
  with Cons.prems obtain r where "nextTopicLevel t = Inr (l, r)" "topicLevels r = Inr ks"
    by (auto simp: topicLevels_Cons)
  with \<open>t \<noteq> []\<close> Cons show ?case by (blast intro: assms(3) topicLevels_wf)
qed

lemma topic_error_induct [consumes 1, case_names Here Below]:
  assumes "topicLevels t = Inl e"
    and "\<And>t. t \<noteq> [] \<Longrightarrow> nextTopicLevel t = Inl e \<Longrightarrow> P t"
    and "\<And>t l r. t \<noteq> [] \<Longrightarrow> nextTopicLevel t = Inr (l, r) \<Longrightarrow> topicLevels r = Inl e \<Longrightarrow> P r \<Longrightarrow> P t"
  shows "P t"
  using assms(1)
proof (induction t rule: topicLevels.induct)
  case (1 t)
  then have ne: "t \<noteq> []" by auto
  show ?case
  proof (cases "nextTopicLevel t")
    case (Inl e1)
    with "1.prems" ne have "e1 = e" by (subst (asm) topicLevels.simps) auto
    with Inl ne show ?thesis by (blast intro: assms(2))
  next
    case (Inr lr)
    obtain l r where nx: "nextTopicLevel t = Inr (l, r)" using Inr by (cases lr) auto
    with "1.prems" ne have "topicLevels r = Inl e"
      by (subst (asm) topicLevels.simps) (auto split: sum.splits)
    with 1 ne nx show ?thesis by (blast intro: assms(3))
  qed
qed

lemma topicLevels_Inr_Nil: "topicLevels t = Inr [] \<longleftrightarrow> t = []"
  using topicLevels_Cons [of t "[]"] by (cases "t = []") auto

lemma next_mwc_last: "nextTopicLevel t = Inr (MWC, r) \<Longrightarrow> r = []"
proof -
  assume nx: "nextTopicLevel t = Inr (MWC, r)"
  show "r = []"
  proof (cases rule: split_sep_cases [of "CHR ''/''" t])
    case none
    then show ?thesis using nx next_last [of t] next_invalid [of t "[]"] by (cases "valid_level t") auto
  next
    case (some x u)
    then show ?thesis
      using nx next_sep [of x u] next_invalid [of x "CHR ''/'' # u"] next_mwc_sep [of u]
      by (cases "valid_level x"; cases "x = MWC") (auto split: if_splits)
  qed
qed

section \<open>Which topics a filter matches\<close>

fun matches :: "string list \<Rightarrow> string list \<Rightarrow> bool" where
  "matches [] ts = (ts = [])"
| "matches (f # fs) ts =
     (if f = MWC then fs = []
      else (case ts of [] \<Rightarrow> False | t # ts' \<Rightarrow> (f = SWC \<or> f = t) \<and> matches fs ts'))"

definition plain_levels :: "string list \<Rightarrow> bool" where
  "plain_levels ls = list_all (\<lambda>l. l \<noteq> MWC \<and> l \<noteq> SWC) ls"

lemma matches_self: "wf_levels fs \<Longrightarrow> matches fs fs"
  by (induction fs) (auto simp: wf_levels_Cons)

lemma matches_plain: "plain_levels fs \<Longrightarrow> matches fs ts \<longleftrightarrow> fs = ts"
  by (induction fs arbitrary: ts) (auto simp: plain_levels_def split: list.splits)

lemma matches_mwc_extends: "matches (fs @ [MWC]) ts \<longleftrightarrow> (\<exists>a b. ts = a @ b \<and> matches fs a)" if "MWC \<notin> set fs"
  using that
proof (induction fs arbitrary: ts)
  case Nil
  then show ?case by auto
next
  case (Cons f fs)
  show ?case
  proof (cases ts)
    case Nil
    with Cons.prems show ?thesis by auto
  next
    case (Cons t ts')
    have "matches ((f # fs) @ [MWC]) ts \<longleftrightarrow> (f = SWC \<or> f = t) \<and> (\<exists>a b. ts' = a @ b \<and> matches fs a)"
      using Cons Cons.IH Cons.prems by auto
    also have "\<dots> \<longleftrightarrow> (\<exists>a b. ts = a @ b \<and> matches (f # fs) a)"
    proof
      assume "(f = SWC \<or> f = t) \<and> (\<exists>a b. ts' = a @ b \<and> matches fs a)"
      then obtain a b where "f = SWC \<or> f = t" "ts' = a @ b" "matches fs a" by blast
      then have "ts = (t # a) @ b \<and> matches (f # fs) (t # a)" using Cons Cons.prems by auto
      then show "\<exists>a b. ts = a @ b \<and> matches (f # fs) a" by blast
    next
      assume "\<exists>a b. ts = a @ b \<and> matches (f # fs) a"
      then obtain a b where ab: "ts = a @ b" "matches (f # fs) a" by blast
      with Cons.prems obtain t1 a1 where "a = t1 # a1" "f = SWC \<or> f = t1" "matches fs a1"
        by (cases a) auto
      with ab Cons show "(f = SWC \<or> f = t) \<and> (\<exists>a b. ts' = a @ b \<and> matches fs a)" by auto
    qed
    finally show ?thesis .
  qed
qed

end
