(* ===== verification/Go_Values.thy ===== *)
theory Go_Values
  imports Hmq_Prelude
begin

text \<open>
  The values a Go \<^verbatim>\<open>interface{}\<close> can hold as far as \<^verbatim>\<open>equal\<close> of
  \<^verbatim>\<open>broker/lib/topics/memtopics.go\<close> tells them apart, and that function. Values of
  uncomparable types (slices, maps), whose comparison panics, and structs are left out: the broker
  stores pointers to subscriptions only.
\<close>

unbundle bit_operations_syntax

text \<open>
  A pointer carries its element type and its address. A function value carries its type and an
  identity that no Go expression can observe. A float is its IEEE 754 bit pattern.
\<close>

datatype gtype = TSubscription | TNamed string

datatype gval =
    GNil
  | GPtr gtype nat
  | GFunc gtype nat
  | GString string
  | GInt "64 word" | GInt64 "64 word" | GInt32 "32 word" | GInt16 "16 word" | GInt8 "8 word"
  | GUint "64 word" | GUint64 "64 word" | GUint32 "32 word" | GUint16 "16 word" | GUint8 "8 word"
  | GUintptr "64 word"
  | GFloat64 "64 word" | GFloat32 "32 word"

definition f64_nan :: "64 word \<Rightarrow> bool" where
  "f64_nan x = (0x7FF0000000000000 < x AND 0x7FFFFFFFFFFFFFFF)"

definition f64_eq :: "64 word \<Rightarrow> 64 word \<Rightarrow> bool" where
  "f64_eq x y =
     (\<not> f64_nan x \<and> \<not> f64_nan y
      \<and> (x = y \<or> (x AND 0x7FFFFFFFFFFFFFFF = 0 \<and> y AND 0x7FFFFFFFFFFFFFFF = 0)))"

definition f32_nan :: "32 word \<Rightarrow> bool" where
  "f32_nan x = (0x7F800000 < x AND 0x7FFFFFFF)"

definition f32_eq :: "32 word \<Rightarrow> 32 word \<Rightarrow> bool" where
  "f32_eq x y =
     (\<not> f32_nan x \<and> \<not> f32_nan y \<and> (x = y \<or> (x AND 0x7FFFFFFF = 0 \<and> y AND 0x7FFFFFFF = 0)))"

text \<open>\<^verbatim>\<open>reflect.TypeOf\<close>\<close>

datatype rtype =
    RNil | RPtr gtype | RFunc gtype | RString
  | RInt | RInt64 | RInt32 | RInt16 | RInt8
  | RUint | RUint64 | RUint32 | RUint16 | RUint8 | RUintptr
  | RFloat64 | RFloat32

primrec typeOf :: "gval \<Rightarrow> rtype" where
  "typeOf GNil = RNil"
| "typeOf (GPtr t _) = RPtr t"
| "typeOf (GFunc t _) = RFunc t"
| "typeOf (GString _) = RString"
| "typeOf (GInt _) = RInt"
| "typeOf (GInt64 _) = RInt64"
| "typeOf (GInt32 _) = RInt32"
| "typeOf (GInt16 _) = RInt16"
| "typeOf (GInt8 _) = RInt8"
| "typeOf (GUint _) = RUint"
| "typeOf (GUint64 _) = RUint64"
| "typeOf (GUint32 _) = RUint32"
| "typeOf (GUint16 _) = RUint16"
| "typeOf (GUint8 _) = RUint8"
| "typeOf (GUintptr _) = RUintptr"
| "typeOf (GFloat64 _) = RFloat64"
| "typeOf (GFloat32 _) = RFloat32"

fun is_func :: "gval \<Rightarrow> bool" where
  "is_func (GFunc _ _) = True"
| "is_func _ = False"

text \<open>The language's \<^verbatim>\<open>==\<close> on two interface values of the same dynamic type.\<close>

definition go_eq :: "gval \<Rightarrow> gval \<Rightarrow> bool" where
  "go_eq k1 k2 =
     (case k1 of
        GFloat64 x \<Rightarrow> (case k2 of GFloat64 y \<Rightarrow> f64_eq x y | _ \<Rightarrow> False)
      | GFloat32 x \<Rightarrow> (case k2 of GFloat32 y \<Rightarrow> f32_eq x y | _ \<Rightarrow> False)
      | _ \<Rightarrow> k1 = k2)"

text \<open>The type switch at the end of the function, one case per type it names.\<close>

definition switch_eq :: "gval \<Rightarrow> gval \<Rightarrow> bool" where
  "switch_eq k1 k2 =
     (case k1 of
        GString x \<Rightarrow> (case k2 of GString y \<Rightarrow> x = y | _ \<Rightarrow> False)
      | GInt64 x \<Rightarrow> (case k2 of GInt64 y \<Rightarrow> x = y | _ \<Rightarrow> False)
      | GInt32 x \<Rightarrow> (case k2 of GInt32 y \<Rightarrow> x = y | _ \<Rightarrow> False)
      | GInt16 x \<Rightarrow> (case k2 of GInt16 y \<Rightarrow> x = y | _ \<Rightarrow> False)
      | GInt8 x \<Rightarrow> (case k2 of GInt8 y \<Rightarrow> x = y | _ \<Rightarrow> False)
      | GInt x \<Rightarrow> (case k2 of GInt y \<Rightarrow> x = y | _ \<Rightarrow> False)
      | GFloat32 x \<Rightarrow> (case k2 of GFloat32 y \<Rightarrow> f32_eq x y | _ \<Rightarrow> False)
      | GFloat64 x \<Rightarrow> (case k2 of GFloat64 y \<Rightarrow> f64_eq x y | _ \<Rightarrow> False)
      | GUint x \<Rightarrow> (case k2 of GUint y \<Rightarrow> x = y | _ \<Rightarrow> False)
      | GUint8 x \<Rightarrow> (case k2 of GUint8 y \<Rightarrow> x = y | _ \<Rightarrow> False)
      | GUint16 x \<Rightarrow> (case k2 of GUint16 y \<Rightarrow> x = y | _ \<Rightarrow> False)
      | GUint32 x \<Rightarrow> (case k2 of GUint32 y \<Rightarrow> x = y | _ \<Rightarrow> False)
      | GUint64 x \<Rightarrow> (case k2 of GUint64 y \<Rightarrow> x = y | _ \<Rightarrow> False)
      | GUintptr x \<Rightarrow> (case k2 of GUintptr y \<Rightarrow> x = y | _ \<Rightarrow> False)
      | _ \<Rightarrow> False)"

text \<open>
  \<^verbatim>\<open>equal\<close>. For functions the source compares \<^verbatim>\<open>&k1 == &k2\<close>, the addresses of two
  different parameters, which is never true.
\<close>

definition equal_iface :: "gval \<Rightarrow> gval \<Rightarrow> bool" where
  "equal_iface k1 k2 =
     (if typeOf k1 \<noteq> typeOf k2 then False
      else if is_func k1 then False
      else if go_eq k1 k2 then True
      else switch_eq k1 k2)"

text \<open>
  The copy in \<^verbatim>\<open>broker/comm.go\<close>, which nothing calls: the same statements in the same order.
\<close>

definition equal_comm :: "gval \<Rightarrow> gval \<Rightarrow> bool" where
  "equal_comm k1 k2 =
     (if typeOf k1 \<noteq> typeOf k2 then False
      else if is_func k1 then False
      else if go_eq k1 k2 then True
      else switch_eq k1 k2)"

lemma equal_comm_iface: "equal_comm = equal_iface"
  by (intro ext) (simp add: equal_comm_def equal_iface_def)

text \<open>The type switch never changes the answer: it repeats the comparison that just failed.\<close>

lemma switch_eq_go_eq: "switch_eq k1 k2 \<Longrightarrow> go_eq k1 k2"
  by (auto simp: switch_eq_def go_eq_def split: gval.splits)

lemma equal_iface_eq: "equal_iface k1 k2 \<longleftrightarrow> typeOf k1 = typeOf k2 \<and> \<not> is_func k1 \<and> go_eq k1 k2"
  using switch_eq_go_eq by (auto simp: equal_iface_def)

lemma f64_eq_sym: "f64_eq x y = f64_eq y x"
  by (auto simp: f64_eq_def)

lemma f64_eq_trans: "f64_eq x y \<Longrightarrow> f64_eq y z \<Longrightarrow> f64_eq x z"
  by (auto simp: f64_eq_def)

lemma f32_eq_sym: "f32_eq x y = f32_eq y x"
  by (auto simp: f32_eq_def)

lemma f32_eq_trans: "f32_eq x y \<Longrightarrow> f32_eq y z \<Longrightarrow> f32_eq x z"
  by (auto simp: f32_eq_def)

lemma equal_iface_sym: "equal_iface k1 k2 \<Longrightarrow> equal_iface k2 k1"
  by (cases k1) (auto simp: equal_iface_eq go_eq_def f64_eq_sym f32_eq_sym split: gval.splits)

lemma equal_iface_trans: "equal_iface k1 k2 \<Longrightarrow> equal_iface k2 k3 \<Longrightarrow> equal_iface k1 k3"
  by (cases k1)
    (auto simp: equal_iface_eq go_eq_def intro: f64_eq_trans f32_eq_trans split: gval.splits)

lemma equal_iface_ptr [simp]: "equal_iface (GPtr t a) k = (k = GPtr t a)" "equal_iface k (GPtr t a) = (k = GPtr t a)"
  by (auto simp: equal_iface_eq go_eq_def split: gval.splits)

text \<open>A value that equals itself: anything but a function and a NaN.\<close>

definition comparable :: "gval \<Rightarrow> bool" where
  "comparable k = equal_iface k k"

lemma comparable_ptr [simp]: "comparable (GPtr t a)"
  by (simp add: comparable_def)

lemma comparable_iff:
  "comparable k \<longleftrightarrow> \<not> is_func k \<and> (\<forall>x. k = GFloat64 x \<longrightarrow> \<not> f64_nan x) \<and> (\<forall>x. k = GFloat32 x \<longrightarrow> \<not> f32_nan x)"
  by (cases k) (auto simp: comparable_def equal_iface_eq go_eq_def f64_eq_def f32_eq_def)

end
