(* ===== verification/Sub_Tree.thy ===== *)
theory Sub_Tree
  imports Topic_Levels Go_Values
begin

text \<open>
  The subscription tree of \<^verbatim>\<open>broker/lib/topics/memtopics.go\<close>: the type \<^verbatim>\<open>snode\<close> and its
  methods \<^verbatim>\<open>sinsert\<close>, \<^verbatim>\<open>sremove\<close>, \<^verbatim>\<open>smatch\<close> and \<^verbatim>\<open>matchQos\<close>. A method that mutates
  its receiver returns the new node, also when it fails, since a failing \<^verbatim>\<open>sinsert\<close> has already
  created nodes. The abstract view of a tree is the function from a list of levels to the
  subscribers stored there; each method is shown to implement an operation on that view.
\<close>

section \<open>Nodes and operations\<close>

text \<open>\<open>ssubs\<close> and \<open>sqos\<close> are the parallel slices \<^verbatim>\<open>subs\<close> and \<^verbatim>\<open>qos\<close>, \<open>snodes\<close> the map.\<close>

datatype snode = SNode (ssubs: "gval list") (sqos: "byte list") (snodes: "(string \<times> snode) list")

definition newSNode :: snode where
  "newSNode = SNode [] [] []"

function sinsert :: "string \<Rightarrow> byte \<Rightarrow> gval \<Rightarrow> snode \<Rightarrow> snode \<times> topic_error option" where
  "sinsert topic qos sub (SNode subs qoss kids) =
     (if topic = [] then
        (case indexOf (\<lambda>x. equal_iface x sub) subs of
           Some i \<Rightarrow> (SNode subs (qoss[i := qos]) kids, None)
         | None \<Rightarrow> (SNode (subs @ [sub]) (qoss @ [qos]) kids, None))
      else
        (case nextTopicLevel topic of
           Inl e \<Rightarrow> (SNode subs qoss kids, Some e)
         | Inr (level, rem) \<Rightarrow>
             (let n = (case map_of kids level of None \<Rightarrow> newSNode | Some n \<Rightarrow> n);
                  r = sinsert rem qos sub n
              in (SNode subs qoss (AList.update level (fst r) kids), snd r))))"
  by pat_completeness auto
termination
  by (relation "measure (\<lambda>(topic, qos, sub, n). length topic)") (auto simp: next_shorter)

function sremove :: "string \<Rightarrow> gval \<Rightarrow> snode \<Rightarrow> snode \<times> topic_error option" where
  "sremove topic sub (SNode subs qoss kids) =
     (if topic = [] then
        (if sub = GNil then (SNode [] [] kids, None)
         else
           (case indexOf (\<lambda>x. equal_iface x sub) subs of
              Some i \<Rightarrow> (SNode (cutAt i subs) (cutAt i qoss) kids, None)
            | None \<Rightarrow> (SNode subs qoss kids, Some ErrNoTopicForSubscriber)))
      else
        (case nextTopicLevel topic of
           Inl e \<Rightarrow> (SNode subs qoss kids, Some e)
         | Inr (level, rem) \<Rightarrow>
             (case map_of kids level of
                None \<Rightarrow> (SNode subs qoss kids, Some ErrNoTopic)
              | Some n \<Rightarrow>
                  (let r = sremove rem sub n in
                   case snd r of
                     Some e \<Rightarrow> (SNode subs qoss (AList.update level (fst r) kids), Some e)
                   | None \<Rightarrow>
                       if ssubs (fst r) = [] \<and> snodes (fst r) = []
                       then (SNode subs qoss (AList.delete level kids), None)
                       else (SNode subs qoss (AList.update level (fst r) kids), None)))))"
  by pat_completeness auto
termination
  by (relation "measure (\<lambda>(topic, sub, n). length topic)") (auto simp: next_shorter)

declare sinsert.simps [simp del] sremove.simps [simp del]

text \<open>The two result slices \<^verbatim>\<open>*subs\<close> and \<^verbatim>\<open>*qoss\<close> are passed along as a pair.\<close>

type_synonym found = "gval list \<times> byte list"

definition matchQos :: "byte \<Rightarrow> snode \<Rightarrow> found \<Rightarrow> found" where
  "matchQos qos n out = foldl (\<lambda>(subs, qoss) sub. (subs @ [sub], qoss @ [qos])) out (ssubs n)"

fun smatch :: "string \<Rightarrow> byte \<Rightarrow> snode \<Rightarrow> found \<Rightarrow> found \<times> topic_error option"
  and smatch_range :: "string \<Rightarrow> string \<Rightarrow> byte \<Rightarrow> (string \<times> snode) list \<Rightarrow> found \<Rightarrow> found \<times> topic_error option"
where
  "smatch topic qos (SNode subs qoss kids) out =
     (if topic = [] then
        (let out1 = matchQos qos (SNode subs qoss kids) out in
         case map_of kids MWC of None \<Rightarrow> (out1, None) | Some mwcn \<Rightarrow> (matchQos qos mwcn out1, None))
      else
        (case nextTopicLevel topic of
           Inl e \<Rightarrow> (out, Some e)
         | Inr (level, rem) \<Rightarrow> smatch_range level rem qos kids out))"
| "smatch_range level rem qos [] out = (out, None)"
| "smatch_range level rem qos ((k, n) # kids) out =
     (if k = MWC then smatch_range level rem qos kids (matchQos qos n out)
      else if k = SWC \<or> k = level then
        (case smatch rem qos n out of
           (out1, Some e) \<Rightarrow> (out1, Some e)
         | (out1, None) \<Rightarrow> smatch_range level rem qos kids out1)
      else smatch_range level rem qos kids out)"

declare smatch.simps [simp del]

section \<open>The abstract view and the invariant\<close>

fun snode_at :: "string list \<Rightarrow> snode \<Rightarrow> snode option" where
  "snode_at [] n = Some n"
| "snode_at (l # ls) n = (case map_of (snodes n) l of None \<Rightarrow> None | Some m \<Rightarrow> snode_at ls m)"

definition subs_at :: "snode \<Rightarrow> string list \<Rightarrow> (gval \<times> byte) list" where
  "subs_at n ls = (case snode_at ls n of None \<Rightarrow> [] | Some m \<Rightarrow> zip (ssubs m) (sqos m))"

definition distinct_subs :: "gval list \<Rightarrow> bool" where
  "distinct_subs = sorted_wrt (\<lambda>x y. \<not> equal_iface x y)"

text \<open>
  Parallel slices, no subscriber twice at one node, distinct keys, and nothing below a
  multi-level wildcard.
\<close>

fun swf :: "snode \<Rightarrow> bool" where
  "swf (SNode subs qoss kids) =
     (length subs = length qoss \<and> distinct_subs subs \<and> distinct_keys kids
      \<and> (\<forall>(k, n) \<in> set kids. swf n \<and> (k = MWC \<longrightarrow> snodes n = [])))"

lemma swf_new [simp]: "swf newSNode"
  by (simp add: newSNode_def distinct_subs_def)

lemma swf_kid: "swf (SNode s q kids) \<Longrightarrow> map_of kids k = Some n \<Longrightarrow> swf n \<and> (k = MWC \<longrightarrow> snodes n = [])"
  by (auto dest!: map_of_SomeD)

lemma subs_at_Nil: "subs_at (SNode s q kids) [] = zip s q"
  by (simp add: subs_at_def)

lemma subs_at_Cons:
  "subs_at (SNode s q kids) (l # ls) = (case map_of kids l of None \<Rightarrow> [] | Some m \<Rightarrow> subs_at m ls)"
  by (auto simp: subs_at_def split: option.splits)

lemma subs_at_new [simp]: "subs_at newSNode ls = []"
  by (cases ls) (auto simp: newSNode_def subs_at_Nil subs_at_Cons)

lemmas subs_at_simps = subs_at_Nil subs_at_Cons

text \<open>What an insertion and a removal do to the list at the place they reach.\<close>

fun upsert :: "gval \<Rightarrow> byte \<Rightarrow> (gval \<times> byte) list \<Rightarrow> (gval \<times> byte) list" where
  "upsert sub q [] = [(sub, q)]"
| "upsert sub q ((s, p) # xs) = (if equal_iface s sub then (s, q) # xs else (s, p) # upsert sub q xs)"

fun remove_sub :: "gval \<Rightarrow> (gval \<times> byte) list \<Rightarrow> (gval \<times> byte) list" where
  "remove_sub sub [] = []"
| "remove_sub sub ((s, p) # xs) = (if equal_iface s sub then xs else (s, p) # remove_sub sub xs)"

lemma upsert_zip_found:
  "length subs = length qoss \<Longrightarrow> indexOf (\<lambda>x. equal_iface x sub) subs = Some i \<Longrightarrow>
   zip subs (qoss[i := q]) = upsert sub q (zip subs qoss)"
  by (induction subs qoss arbitrary: i rule: list_induct2) (auto split: if_splits)

lemma upsert_zip_new:
  "length subs = length qoss \<Longrightarrow> indexOf (\<lambda>x. equal_iface x sub) subs = None \<Longrightarrow>
   upsert sub q (zip subs qoss) = zip subs qoss @ [(sub, q)]"
  by (induction subs qoss rule: list_induct2) (auto simp: indexOf_None)

lemma remove_zip_found:
  "length subs = length qoss \<Longrightarrow> indexOf (\<lambda>x. equal_iface x sub) subs = Some i \<Longrightarrow>
   zip (cutAt i subs) (cutAt i qoss) = remove_sub sub (zip subs qoss)"
  by (induction subs qoss arbitrary: i rule: list_induct2) (auto split: if_splits)

lemma set_remove_sub: "set (remove_sub sub xs) \<subseteq> set xs"
  by (induction sub xs rule: remove_sub.induct) auto

lemma fst_upsert: "fst ` set (upsert sub q xs) \<subseteq> insert sub (fst ` set xs)"
  by (induction sub q xs rule: upsert.induct) auto

lemma upsert_member: "comparable sub \<Longrightarrow> \<exists>s p. (s, p) \<in> set (upsert sub q xs) \<and> equal_iface s sub"
  by (induction sub q xs rule: upsert.induct) (auto simp: comparable_def)

lemma remove_upsert:
  "comparable sub \<Longrightarrow> \<forall>(s, p) \<in> set xs. \<not> equal_iface s sub \<Longrightarrow> remove_sub sub (upsert sub q xs) = xs"
  by (induction sub q xs rule: upsert.induct) (auto simp: comparable_def)

lemma distinct_subs_snoc:
  "distinct_subs (xs @ [x]) \<longleftrightarrow> distinct_subs xs \<and> (\<forall>y \<in> set xs. \<not> equal_iface y x)"
  by (auto simp: distinct_subs_def sorted_wrt_append)

lemma distinct_subs_cutAt:
  assumes "distinct_subs xs"
  shows "distinct_subs (cutAt i xs)"
proof -
  let ?P = "\<lambda>x y. \<not> equal_iface x y"
  have "sorted_wrt ?P (take i xs @ drop i xs)" using assms by (simp add: distinct_subs_def)
  then have "sorted_wrt ?P (take i xs)" "sorted_wrt ?P (drop i xs)"
    and cross: "\<forall>x \<in> set (take i xs). \<forall>y \<in> set (drop i xs). ?P x y"
    by (auto simp only: sorted_wrt_append)
  moreover have "drop (i + 1) xs = drop 1 (drop i xs)" by simp
  moreover have "set (drop 1 (drop i xs)) \<subseteq> set (drop i xs)" by (rule set_drop_subset)
  ultimately show ?thesis
    by (auto simp: distinct_subs_def cutAt_def sorted_wrt_append sorted_wrt_drop
        simp del: drop_drop)
qed

lemma remove_sub_absent:
  "distinct_subs (map fst xs) \<Longrightarrow> (s, p) \<in> set (remove_sub sub xs) \<Longrightarrow> \<not> equal_iface s sub"
proof (induction sub xs rule: remove_sub.induct)
  case (1 sub)
  then show ?case by simp
next
  case (2 sub s1 p1 xs)
  show ?case
  proof (cases "equal_iface s1 sub")
    case True
    with "2.prems" have "\<not> equal_iface s1 s" by (force simp: distinct_subs_def)
    with True show ?thesis by (meson equal_iface_sym equal_iface_trans)
  next
    case False
    with 2 show ?thesis by (auto simp: distinct_subs_def)
  qed
qed

end
