(* ===== verification/Sub_Tree_Laws.thy ===== *)
theory Sub_Tree_Laws
  imports Sub_Tree
begin

text \<open>
  The laws of the subscription tree: what an insertion, a removal and a search do to the abstract
  view \<open>subs_at\<close>, on every branch including the errors, and the invariants \<open>swf\<close> (shape) and
  \<open>spruned\<close> (no childless node without subscribers).
\<close>

section \<open>One step of each operation\<close>

lemma sinsert_here:
  "sinsert [] qos sub (SNode subs qoss kids) =
     (case indexOf (\<lambda>x. equal_iface x sub) subs of
        Some i \<Rightarrow> (SNode subs (qoss[i := qos]) kids, None)
      | None \<Rightarrow> (SNode (subs @ [sub]) (qoss @ [qos]) kids, None))"
  by (simp add: sinsert.simps)

lemma sinsert_down:
  assumes "t \<noteq> []" "nextTopicLevel t = Inr (l, r)"
  shows "sinsert t qos sub (SNode subs qoss kids) =
    (let x = sinsert r qos sub (case map_of kids l of None \<Rightarrow> newSNode | Some n \<Rightarrow> n)
     in (SNode subs qoss (AList.update l (fst x) kids), snd x))"
  using assms by (simp add: sinsert.simps Let_def)

lemma sinsert_fail:
  "t \<noteq> [] \<Longrightarrow> nextTopicLevel t = Inl e \<Longrightarrow> sinsert t qos sub n = (n, Some e)"
  by (cases n) (simp add: sinsert.simps)

lemma sremove_down:
  assumes "t \<noteq> []" "nextTopicLevel t = Inr (l, r)"
  shows "sremove t sub (SNode subs qoss kids) =
    (case map_of kids l of
       None \<Rightarrow> (SNode subs qoss kids, Some ErrNoTopic)
     | Some n \<Rightarrow>
         (let x = sremove r sub n in
          case snd x of
            Some e \<Rightarrow> (SNode subs qoss (AList.update l (fst x) kids), Some e)
          | None \<Rightarrow>
              if ssubs (fst x) = [] \<and> snodes (fst x) = []
              then (SNode subs qoss (AList.delete l kids), None)
              else (SNode subs qoss (AList.update l (fst x) kids), None)))"
  using assms by (simp add: sremove.simps)

lemma sremove_fail:
  "t \<noteq> [] \<Longrightarrow> nextTopicLevel t = Inl e \<Longrightarrow> sremove t sub n = (n, Some e)"
  by (cases n) (simp add: sremove.simps)

lemma swf_upd:
  assumes "swf (SNode s q kids)" "swf n" "l = MWC \<longrightarrow> snodes n = []"
  shows "swf (SNode s q (AList.update l n kids))"
proof -
  have "swf m \<and> (k = MWC \<longrightarrow> snodes m = [])" if "(k, m) \<in> set (AList.update l n kids)" for k m
    using set_update_other [OF that] assms by auto
  then show ?thesis using assms(1) by (auto intro: keys_intro)
qed

lemma swf_del: "swf (SNode s q kids) \<Longrightarrow> swf (SNode s q (AList.delete l kids))"
  using set_delete_subset [of l kids] by (auto intro: keys_intro)

lemma subs_at_upd:
  "subs_at (SNode s q (AList.update l n kids)) (k # ks) =
     (if k = l then subs_at n ks else subs_at (SNode s q kids) (k # ks))"
  by (simp add: subs_at_Cons go_map)

lemma subs_at_del:
  "subs_at (SNode s q (AList.delete l kids)) (k # ks) = (if k = l then [] else subs_at (SNode s q kids) (k # ks))"
  by (simp add: subs_at_Cons go_map)

section \<open>Insertion\<close>

text \<open>
  The node an insertion continues with: the child of that level or a fresh node. Either way its
  view is the part of the tree below the level.
\<close>

definition kid_or_new :: "(string \<times> snode) list \<Rightarrow> string \<Rightarrow> snode" where
  "kid_or_new kids l = (case map_of kids l of None \<Rightarrow> newSNode | Some n \<Rightarrow> n)"

lemma kid_or_new_view: "subs_at (kid_or_new kids l) ks = subs_at (SNode s q kids) (l # ks)"
  by (auto simp: kid_or_new_def subs_at_Cons split: option.splits)

lemma kid_or_new_wf:
  "swf (SNode s q kids) \<Longrightarrow> swf (kid_or_new kids l) \<and> (l = MWC \<longrightarrow> snodes (kid_or_new kids l) = [])"
  using swf_kid [of s q kids l] by (auto simp: kid_or_new_def newSNode_def distinct_subs_def split: option.splits)

lemma sinsert_snodes_here: "snodes (fst (sinsert [] q s n)) = snodes n"
  by (cases n) (auto simp: sinsert_here split: option.splits)

lemma sinsert_here_swf: "swf n \<Longrightarrow> swf (fst (sinsert [] q s n))"
  by (cases n) (auto simp: sinsert_here distinct_subs_snoc indexOf_None split: option.splits)

lemma sinsert_here_view:
  "swf n \<Longrightarrow> subs_at (fst (sinsert [] q s n)) fs = (if fs = [] then upsert s q (subs_at n []) else subs_at n fs)"
  by (cases n; cases fs)
    (auto simp: sinsert_here subs_at_simps upsert_zip_found upsert_zip_new split: option.splits)

lemma sinsert_ok:
  "topicLevels t = Inr ls \<Longrightarrow> swf n \<Longrightarrow>
     snd (sinsert t q s n) = None \<and> swf (fst (sinsert t q s n))
     \<and> (\<forall>fs. subs_at (fst (sinsert t q s n)) fs = (if fs = ls then upsert s q (subs_at n ls) else subs_at n fs))"
proof (induction t ls arbitrary: n rule: topic_induct)
  case Nil
  have "snd (sinsert [] q s n) = None"
    by (cases n) (auto simp: sinsert_here split: option.splits)
  with Nil show ?case by (simp add: sinsert_here_swf sinsert_here_view)
next
  case (Cons t l r ks)
  obtain ss qs kids where n: "n = SNode ss qs kids" by (cases n)
  let ?x = "sinsert r q s (kid_or_new kids l)"
  have step: "sinsert t q s (SNode ss qs kids) = (SNode ss qs (AList.update l (fst ?x) kids), snd ?x)"
    using Cons by (simp add: n sinsert_down kid_or_new_def Let_def)
  note kid = kid_or_new_wf [of ss qs kids l]
  have ih: "snd ?x = None" "swf (fst ?x)"
    "\<And>fs. subs_at (fst ?x) fs = (if fs = ks then upsert s q (subs_at n (l # ks)) else subs_at n (l # fs))"
    using Cons.IH [of "kid_or_new kids l"] kid Cons.prems
    by (auto simp: n kid_or_new_view [of kids l _ ss qs])
  have "snodes (fst ?x) = []" if "l = MWC"
    using that Cons.hyps kid Cons.prems sinsert_snodes_here
    by (auto simp: n wf_levels_Cons topicLevels_Inr_Nil)
  then have "swf (SNode ss qs (AList.update l (fst ?x) kids))"
    using Cons.prems ih(2) by (intro swf_upd) (auto simp: n)
  moreover have "subs_at (fst (sinsert t q s n)) fs = (if fs = l # ks then upsert s q (subs_at n (l # ks)) else subs_at n fs)" for fs
    using ih(3) by (cases fs) (auto simp: step n subs_at_upd subs_at_Nil)
  ultimately show ?case using ih(1) step by (simp add: n)
qed

lemma sinsert_err:
  "topicLevels t = Inl e \<Longrightarrow> swf n \<Longrightarrow>
     snd (sinsert t q s n) = Some e \<and> swf (fst (sinsert t q s n))
     \<and> (\<forall>fs. subs_at (fst (sinsert t q s n)) fs = subs_at n fs)"
proof (induction t arbitrary: n rule: topic_error_induct)
  case (Here t)
  then show ?case by (simp add: sinsert_fail)
next
  case (Below t l r)
  obtain ss qs kids where n: "n = SNode ss qs kids" by (cases n)
  let ?x = "sinsert r q s (kid_or_new kids l)"
  have step: "sinsert t q s (SNode ss qs kids) = (SNode ss qs (AList.update l (fst ?x) kids), snd ?x)"
    using Below by (simp add: n sinsert_down kid_or_new_def Let_def)
  have ih: "snd ?x = Some e" "swf (fst ?x)" "\<And>fs. subs_at (fst ?x) fs = subs_at n (l # fs)"
    using Below.IH [of "kid_or_new kids l"] kid_or_new_wf [of ss qs kids l] Below.prems
    by (auto simp: n kid_or_new_view [of kids l _ ss qs])
  have "l \<noteq> MWC" using Below.hyps next_mwc_last by fastforce
  then have "swf (SNode ss qs (AList.update l (fst ?x) kids))"
    using Below.prems ih(2) by (intro swf_upd) (auto simp: n)
  moreover have "subs_at (fst (sinsert t q s n)) fs = subs_at n fs" for fs
    using ih(3) by (cases fs) (auto simp: step n subs_at_upd subs_at_Nil)
  ultimately show ?case using ih(1) step by (simp add: n)
qed

section \<open>Removal\<close>

lemma update_same: "map_of m k = Some v \<Longrightarrow> AList.update k v m = m"
  by (induction m) auto

lemma remove_sub_absent_id: "\<forall>x \<in> fst ` set xs. \<not> equal_iface x s \<Longrightarrow> remove_sub s xs = xs"
  by (induction s xs rule: remove_sub.induct) auto

definition subscribed :: "snode \<Rightarrow> string list \<Rightarrow> gval \<Rightarrow> bool" where
  "subscribed n ls s = (\<exists>x \<in> fst ` set (subs_at n ls). equal_iface x s)"

lemma empty_node_view: "ssubs n = [] \<Longrightarrow> snodes n = [] \<Longrightarrow> subs_at n fs = []"
  by (cases n; cases fs) (auto simp: subs_at_simps)

lemma fst_zip_set: "length xs = length ys \<Longrightarrow> fst ` set (zip xs ys) = set xs"
  by (metis list.set_map map_fst_zip)

lemma sremove_ok:
  "topicLevels t = Inr ls \<Longrightarrow> swf n \<Longrightarrow> s \<noteq> GNil \<Longrightarrow>
     (if subscribed n ls s
      then snd (sremove t s n) = None \<and> swf (fst (sremove t s n))
        \<and> (\<forall>fs. subs_at (fst (sremove t s n)) fs = (if fs = ls then remove_sub s (subs_at n ls) else subs_at n fs))
        \<and> (\<forall>p \<in> set (snodes (fst (sremove t s n))). ls = [] \<longrightarrow> p \<in> set (snodes n))
      else fst (sremove t s n) = n \<and> snd (sremove t s n) \<noteq> None)"
proof (induction t ls arbitrary: n rule: topic_induct)
  case Nil
  obtain ss qs kids where n: "n = SNode ss qs kids" by (cases n)
  have len: "length ss = length qs" using Nil by (simp add: n)
  have sub: "subscribed n [] s \<longleftrightarrow> indexOf (\<lambda>x. equal_iface x s) ss \<noteq> None"
    by (simp add: indexOf_None subscribed_def n subs_at_Nil fst_zip_set [OF len] del: not_None_eq)
  show ?case
  proof (cases "indexOf (\<lambda>x. equal_iface x s) ss")
    case None
    with Nil sub show ?thesis by (simp add: n sremove.simps)
  next
    case (Some i)
    then have i: "i < length ss" using indexOf_Some by fast
    have "subs_at (SNode (cutAt i ss) (cutAt i qs) kids) fs
        = (if fs = [] then remove_sub s (subs_at n []) else subs_at n fs)" for fs
      using remove_zip_found [OF len Some] by (cases fs) (auto simp: n subs_at_simps)
    moreover have "swf (SNode (cutAt i ss) (cutAt i qs) kids)"
      using Nil i len by (auto simp: n length_cutAt distinct_subs_cutAt)
    ultimately show ?thesis using Nil Some sub by (simp add: n sremove.simps)
  qed
next
  case (Cons t l r ks)
  obtain ss qs kids where n: "n = SNode ss qs kids" by (cases n)
  note step = sremove_down [OF Cons.hyps(1,2), of s ss qs kids]
  show ?case
  proof (cases "map_of kids l")
    case None
    then have "\<not> subscribed n (l # ks) s" by (simp add: subscribed_def n subs_at_Cons)
    with None show ?thesis by (simp add: n step)
  next
    case (Some m)
    let ?x = "sremove r s m"
    have view: "subs_at n (l # fs) = subs_at m fs" for fs by (simp add: n subs_at_Cons Some)
    have m: "swf m" "l = MWC \<longrightarrow> snodes m = []" using swf_kid [of ss qs kids l m] Cons.prems Some n by auto
    have sub: "subscribed n (l # ks) s = subscribed m ks s" by (simp add: subscribed_def view)
    note ih = Cons.IH [OF m(1) Cons.prems(2)]
    show ?thesis
    proof (cases "subscribed m ks s")
      case False
      with ih obtain e where "fst ?x = m" "snd ?x = Some e" by auto
      with False Some sub show ?thesis by (simp add: n step update_same)
    next
      case True
      with ih have x: "snd ?x = None" "swf (fst ?x)"
        "\<And>fs. subs_at (fst ?x) fs = (if fs = ks then remove_sub s (subs_at m ks) else subs_at m fs)"
        "\<forall>p \<in> set (snodes (fst ?x)). ks = [] \<longrightarrow> p \<in> set (snodes m)"
        by auto
      have mwc: "l = MWC \<longrightarrow> snodes (fst ?x) = []"
      proof
        assume "l = MWC"
        then have "ks = []" "snodes m = []" using Cons.hyps m by (auto simp: wf_levels_Cons)
        with x(4) show "snodes (fst ?x) = []" by (cases "snodes (fst ?x)") auto
      qed
      let ?n = "fst (sremove t s n)"
      have n': "?n = (if ssubs (fst ?x) = [] \<and> snodes (fst ?x) = [] then SNode ss qs (AList.delete l kids)
                      else SNode ss qs (AList.update l (fst ?x) kids))"
        and none: "snd (sremove t s n) = None"
        using Some x(1) by (auto simp: n step Let_def)
      have wf0: "swf (SNode ss qs kids)" using Cons.prems n by simp
      have "swf ?n" unfolding n' using swf_upd [OF wf0 x(2) mwc] swf_del [OF wf0] by (simp split: if_split)
      moreover have "subs_at ?n fs = (if fs = l # ks then remove_sub s (subs_at n (l # ks)) else subs_at n fs)" for fs
      proof (cases fs)
        case Nil
        then show ?thesis unfolding n' by (simp add: n subs_at_Nil)
      next
        case (Cons k ks1)
        have "subs_at ?n fs = (if k = l then subs_at (fst ?x) ks1 else subs_at n fs)"
          using empty_node_view [of "fst ?x" ks1] unfolding n' by (auto simp: Cons n subs_at_upd subs_at_del)
        then show ?thesis using x(3) by (auto simp: Cons view)
      qed
      ultimately show ?thesis using True none sub by simp
    qed
  qed
qed

lemma sremove_err:
  "topicLevels t = Inl e \<Longrightarrow> fst (sremove t s n) = n \<and> snd (sremove t s n) \<noteq> None"
proof (induction t arbitrary: n rule: topic_error_induct)
  case (Here t)
  then show ?case by (simp add: sremove_fail)
next
  case (Below t l r)
  obtain ss qs kids where n: "n = SNode ss qs kids" by (cases n)
  show ?case
  proof (cases "map_of kids l")
    case None
    then show ?thesis using Below.hyps by (simp add: n sremove_down)
  next
    case (Some m)
    obtain e1 where "fst (sremove r s m) = m" "snd (sremove r s m) = Some e1"
      using Below.IH [of m] by auto
    then show ?thesis using Below.hyps Some by (simp add: n sremove_down update_same)
  qed
qed

text \<open>A removal that reports an error has changed nothing.\<close>

lemma sremove_unchanged: "snd (sremove t s n) \<noteq> None \<Longrightarrow> fst (sremove t s n) = n"
proof (induction t s n rule: sremove.induct)
  case (1 t s ss qs kids)
  show ?case
  proof (cases "t = []")
    case True
    with "1.prems" show ?thesis by (auto simp: sremove.simps split: option.splits if_splits)
  next
    case False
    show ?thesis
    proof (cases "nextTopicLevel t")
      case (Inl e)
      with False show ?thesis by (simp add: sremove_fail)
    next
      case (Inr lr)
      then obtain l r where nx: "nextTopicLevel t = Inr (l, r)" by (cases lr) auto
      show ?thesis
        using "1.prems" "1.IH" [OF False nx refl]
        by (auto simp: sremove_down [OF False nx] Let_def update_same split: option.splits if_splits)
    qed
  qed
qed

end
