(* ===== verification/Sub_Match.thy ===== *)
theory Sub_Match
  imports Sub_Tree_Laws
begin

text \<open>
  The search \<^verbatim>\<open>smatch\<close> against the matching relation. \<open>sentries\<close> lists every subscription of a
  tree with its filter; a search for a topic that scans returns the subscribers of exactly the
  matching entries, each as often as it is entered, in an order that depends on the \<^verbatim>\<open>range\<close>
  over the maps; the statements are about the multiset of results for that reason. Also here: the
  garbage-freedom invariant \<open>spruned\<close>.
\<close>

section \<open>Every entry of a tree\<close>

fun sentries :: "snode \<Rightarrow> (string list \<times> gval) list" where
  "sentries (SNode subs qoss kids) =
     map (Pair []) subs @ concat (map (\<lambda>(k, n). map (map_prod ((#) k) id) (sentries n)) kids)"

definition kid_entries :: "(string \<times> snode) list \<Rightarrow> (string list \<times> gval) list" where
  "kid_entries kids = concat (map (\<lambda>(k, n). map (map_prod ((#) k) id) (sentries n)) kids)"

lemma kid_entries_simps [simp]:
  "kid_entries [] = []"
  "kid_entries ((k, n) # kids) = map (map_prod ((#) k) id) (sentries n) @ kid_entries kids"
  by (auto simp: kid_entries_def)

lemma sentries_node: "sentries (SNode subs qoss kids) = map (Pair []) subs @ kid_entries kids"
  by (simp add: kid_entries_def)

declare sentries.simps [simp del]

text \<open>The subscribers a search has to find.\<close>

definition matching :: "string list \<Rightarrow> (string list \<times> gval) list \<Rightarrow> gval list" where
  "matching ts es = map snd (filter (\<lambda>(fs, s). matches fs ts) es)"

lemma matching_append [simp]: "matching ts (xs @ ys) = matching ts xs @ matching ts ys"
  by (simp add: matching_def)

lemma matching_Nil [simp]: "matching ts [] = []"
  by (simp add: matching_def)

lemma matching_here: "matching ts (map (Pair []) subs) = (if ts = [] then subs else [])"
  by (auto simp: matching_def filter_map o_def)

lemma matching_below:
  "matching ts (map (map_prod ((#) k) id) es) =
     (if k = MWC then map snd (filter (\<lambda>(fs, s). fs = []) es)
      else (case ts of [] \<Rightarrow> [] | t # ts' \<Rightarrow> if k = SWC \<or> k = t then matching ts' es else []))"
proof (cases "k = MWC")
  case True
  then show ?thesis by (induction es) (auto simp: matching_def)
next
  case notmwc: False
  show ?thesis
  proof (cases ts)
    case Nil
    with notmwc show ?thesis by (induction es) (auto simp: matching_def)
  next
    case (Cons t ts')
    with notmwc show ?thesis
      by (cases "k = SWC \<or> k = t"; induction es) (auto simp: matching_def)
  qed
qed

lemma leaf_entries: "snodes n = [] \<Longrightarrow> map snd (filter (\<lambda>(fs, s). fs = []) (sentries n)) = ssubs n"
  by (cases n) (auto simp: sentries_node filter_map o_def)

section \<open>The search finds the matching entries\<close>

lemma matchQos_eq: "matchQos q n out = (fst out @ ssubs n, snd out @ replicate (length (ssubs n)) q)"
proof -
  have "foldl (\<lambda>(subs, qoss) sub. (subs @ [sub], qoss @ [q])) out xs = (fst out @ xs, snd out @ replicate (length xs) q)" for xs
    by (induction xs arbitrary: out) (auto simp: replicate_append_same split: prod.splits)
  then show ?thesis by (simp add: matchQos_def)
qed

text \<open>What a run of the search added to its two slices.\<close>

definition adds :: "byte \<Rightarrow> found \<Rightarrow> found \<Rightarrow> gval list \<Rightarrow> bool" where
  "adds q out out' ms = (\<exists>xs. out' = (fst out @ xs, snd out @ replicate (length xs) q) \<and> mset xs = mset ms)"

lemma adds_refl: "adds q out out []"
  by (simp add: adds_def)

lemma adds_matchQos: "adds q out (matchQos q n out) (ssubs n)"
  by (auto simp: adds_def matchQos_eq)

lemma adds_trans: "adds q a b xs \<Longrightarrow> adds q b c ys \<Longrightarrow> adds q a c (xs @ ys)"
proof -
  assume "adds q a b xs" "adds q b c ys"
  then obtain x y where xy: "b = (fst a @ x, snd a @ replicate (length x) q)" "mset x = mset xs"
    "c = (fst b @ y, snd b @ replicate (length y) q)" "mset y = mset ys"
    by (auto simp: adds_def)
  then have "c = (fst a @ (x @ y), snd a @ replicate (length (x @ y)) q)" "mset (x @ y) = mset (xs @ ys)"
    by (auto simp: replicate_add)
  then show "adds q a c (xs @ ys)" unfolding adds_def by blast
qed

lemma adds_mset: "adds q a b xs \<Longrightarrow> mset xs = mset ys \<Longrightarrow> adds q a b ys"
  by (simp add: adds_def)

text \<open>At the end of the topic: the node itself and its multi-level child.\<close>

lemma matching_end:
  assumes "swf (SNode s qs kids)"
  shows "matching [] (kid_entries kids) = (case map_of kids MWC of None \<Rightarrow> [] | Some m \<Rightarrow> ssubs m)"
proof -
  have leaf: "snodes n = []" if "(MWC, n) \<in> set kids" for n using assms that by auto
  have dist: "distinct_keys kids" using assms by simp
  have absent: "matching [] (kid_entries ks) = []" if "MWC \<notin> fst ` set ks" for ks
    using that by (induction ks) (auto simp: matching_below)
  show ?thesis using leaf dist
  proof (induction kids)
    case Nil
    then show ?case by simp
  next
    case (Cons p ks)
    obtain k n where p: "p = (k, n)" by (cases p)
    show ?case
    proof (cases "k = MWC")
      case True
      with Cons.prems absent [of ks] show ?thesis
        by (simp add: p matching_below leaf_entries distinct_keys_def)
    next
      case False
      with Cons show ?thesis by (simp add: p matching_below distinct_keys_def)
    qed
  qed
qed

lemma smatch_finds:
  "topicLevels t = Inr ts \<Longrightarrow> swf n \<Longrightarrow>
     \<exists>out'. smatch t q n out = (out', None) \<and> adds q out out' (matching ts (sentries n))"
  "topicLevels r = Inr ks \<Longrightarrow> \<forall>(k, n) \<in> set kids. swf n \<and> (k = MWC \<longrightarrow> snodes n = []) \<Longrightarrow>
     \<exists>out'. smatch_range l r q kids out = (out', None) \<and> adds q out out' (matching (l # ks) (kid_entries kids))"
proof (induction t q n out and l r q kids out arbitrary: ts and ks rule: smatch_smatch_range.induct)
  case (1 t q subs qoss kids out)
  show ?case
  proof (cases "t = []")
    case True
    with "1.prems" have ts: "ts = []" by simp
    let ?n = "SNode subs qoss kids"
    have here: "adds q out (matchQos q ?n out) subs" using adds_matchQos [of q out ?n] by simp
    show ?thesis
    proof (cases "map_of kids MWC")
      case None
      with True here show ?thesis
        by (simp add: smatch.simps Let_def ts sentries_node matching_here matching_end [OF "1.prems"(2)])
    next
      case (Some m)
      with True adds_trans [OF here adds_matchQos [of q _ m]] show ?thesis
        by (simp add: smatch.simps Let_def ts sentries_node matching_here matching_end [OF "1.prems"(2)])
    qed
  next
    case False
    with "1.prems" obtain l r ks where lr: "nextTopicLevel t = Inr (l, r)" "topicLevels r = Inr ks" "ts = l # ks"
      by (auto simp: topicLevels_Cons)
    then have "\<exists>out'. smatch_range l r q kids out = (out', None) \<and> adds q out out' (matching (l # ks) (kid_entries kids))"
      using "1.IH" [of "(l, r)" l r ks] False "1.prems"(2) by auto
    with False lr show ?thesis by (simp add: smatch.simps sentries_node matching_here)
  qed
next
  case (2 l r q out)
  then show ?case by (simp add: adds_refl)
next
  case (3 l r q k n kids out)
  show ?case
  proof (cases "k = MWC")
    case True
    with "3.prems" have "matching (l # ks) (map (map_prod ((#) k) id) (sentries n)) = ssubs n"
      by (simp add: matching_below leaf_entries)
    moreover obtain out' where "smatch_range l r q kids (matchQos q n out) = (out', None)"
      "adds q (matchQos q n out) out' (matching (l # ks) (kid_entries kids))"
      using "3.IH"(1) True "3.prems" by fastforce
    ultimately show ?thesis using True adds_trans [OF adds_matchQos] by auto
  next
    case notmwc: False
    show ?thesis
    proof (cases "k = SWC \<or> k = l")
      case True
      obtain out1 where out1: "smatch r q n out = (out1, None)" "adds q out out1 (matching ks (sentries n))"
        using "3.IH"(2) [OF notmwc True "3.prems"(1)] "3.prems"(2) by auto
      obtain out' where "smatch_range l r q kids out1 = (out', None)"
        "adds q out1 out' (matching (l # ks) (kid_entries kids))"
        using "3.IH"(3) [OF notmwc True out1(1) [symmetric] refl "3.prems"(1)] "3.prems"(2) by auto
      with notmwc True out1 show ?thesis by (auto simp: matching_below intro: adds_trans)
    next
      case False
      with notmwc "3.IH"(4) "3.prems" show ?thesis by (auto simp: matching_below)
    qed
  qed
qed

section \<open>Entries and the abstract view\<close>

definition at_path :: "string list \<Rightarrow> (string list \<times> gval) list \<Rightarrow> gval list" where
  "at_path ls es = map snd (filter (\<lambda>(fs, s). fs = ls) es)"

lemma at_path_append [simp]: "at_path ls (xs @ ys) = at_path ls xs @ at_path ls ys"
  by (simp add: at_path_def)

lemma at_path_Nil [simp]: "at_path ls [] = []"
  by (simp add: at_path_def)

lemma at_path_here: "at_path ls (map (Pair []) subs) = (if ls = [] then subs else [])"
  by (auto simp: at_path_def filter_map o_def)

lemma at_path_below:
  "at_path ls (map (map_prod ((#) k) id) es) =
     (case ls of [] \<Rightarrow> [] | l # ls' \<Rightarrow> if k = l then at_path ls' es else [])"
  by (induction es) (auto simp: at_path_def split: list.splits)

lemma at_path_kids:
  "distinct_keys kids \<Longrightarrow>
   at_path ls (kid_entries kids) =
     (case ls of [] \<Rightarrow> []
      | l # ls' \<Rightarrow> (case map_of kids l of None \<Rightarrow> [] | Some n \<Rightarrow> at_path ls' (sentries n)))"
proof (induction kids)
  case Nil
  then show ?case by (simp split: list.splits)
next
  case (Cons p ks)
  obtain k n where p: "p = (k, n)" by (cases p)
  have "map_of ks k = None" "distinct_keys ks"
    using Cons.prems by (auto simp: p distinct_keys_def map_of_eq_None_iff)
  with Cons.IH show ?case by (auto simp: p at_path_below split: list.splits)
qed

lemma entries_view: "swf n \<Longrightarrow> at_path ls (sentries n) = map fst (subs_at n ls)"
proof (induction ls arbitrary: n)
  case Nil
  then show ?case
    by (cases n) (simp add: sentries_node at_path_here at_path_kids subs_at_Nil)
next
  case (Cons l ls)
  obtain s q kids where n: "n = SNode s q kids" by (cases n)
  have "at_path (l # ls) (sentries n) = (case map_of kids l of None \<Rightarrow> [] | Some m \<Rightarrow> at_path ls (sentries m))"
    using Cons.prems by (simp add: n sentries_node at_path_here at_path_kids)
  then show ?case using Cons swf_kid [of s q kids l] by (auto simp: n subs_at_Cons split: option.splits)
qed

lemma entries_member: "swf n \<Longrightarrow> (ls, s) \<in> set (sentries n) \<longleftrightarrow> s \<in> fst ` set (subs_at n ls)"
proof -
  assume "swf n"
  have "(ls, s) \<in> set (sentries n) \<longleftrightarrow> s \<in> set (at_path ls (sentries n))"
    by (force simp: at_path_def)
  with entries_view [OF \<open>swf n\<close>, of ls] show ?thesis by simp
qed

lemma matching_member:
  "swf n \<Longrightarrow> s \<in> set (matching ts (sentries n)) \<longleftrightarrow> (\<exists>fs. matches fs ts \<and> s \<in> fst ` set (subs_at n fs))"
  by (force simp: matching_def entries_member [symmetric])

section \<open>No garbage\<close>

text \<open>
  Every node below the root has subscribers or children. Removals keep this up by deleting the
  nodes they leave empty, and so do successful insertions; then a tree without subscriptions is
  the empty tree.
\<close>

fun spruned :: "snode \<Rightarrow> bool" where
  "spruned (SNode subs qoss kids) =
     (\<forall>(k, n) \<in> set kids. (ssubs n \<noteq> [] \<or> snodes n \<noteq> []) \<and> spruned n)"

lemma spruned_new [simp]: "spruned newSNode"
  by (simp add: newSNode_def)

lemma spruned_upd:
  "spruned (SNode s q kids) \<Longrightarrow> spruned n \<Longrightarrow> ssubs n \<noteq> [] \<or> snodes n \<noteq> [] \<Longrightarrow>
   spruned (SNode s q (AList.update l n kids))"
  using set_update_other [of _ _ l n kids] by fastforce

lemma spruned_del: "spruned (SNode s q kids) \<Longrightarrow> spruned (SNode s q (AList.delete l kids))"
  using set_delete_subset [of l kids] by auto

lemma spruned_kid: "spruned (SNode s q kids) \<Longrightarrow> map_of kids l = Some n \<Longrightarrow> spruned n"
  by (auto dest!: map_of_SomeD)

lemma update_not_Nil [simp]: "AList.update k v m \<noteq> []"
  by (cases m) auto

lemma sinsert_pruned:
  "topicLevels t = Inr ls \<Longrightarrow> spruned n \<Longrightarrow>
     spruned (fst (sinsert t q s n)) \<and> (ssubs (fst (sinsert t q s n)) \<noteq> [] \<or> snodes (fst (sinsert t q s n)) \<noteq> [])"
proof (induction t ls arbitrary: n rule: topic_induct)
  case Nil
  then show ?case
    by (cases n) (auto simp: sinsert_here dest: indexOf_Some split: option.splits)
next
  case (Cons t l r ks)
  obtain ss qs kids where n: "n = SNode ss qs kids" by (cases n)
  have "spruned (kid_or_new kids l)"
    using Cons.prems spruned_kid [of ss qs kids l] by (auto simp: n kid_or_new_def split: option.splits)
  then have "spruned (SNode ss qs (AList.update l (fst (sinsert r q s (kid_or_new kids l))) kids))"
    using Cons.IH [of "kid_or_new kids l"] Cons.prems by (intro spruned_upd) (auto simp: n)
  then show ?case
    by (simp add: n sinsert_down [OF Cons.hyps(1,2)] kid_or_new_def [symmetric] Let_def)
qed

lemma sremove_pruned: "spruned n \<Longrightarrow> spruned (fst (sremove t s n))"
proof (induction t s n rule: sremove.induct)
  case (1 t s ss qs kids)
  show ?case
  proof (cases "t = []")
    case True
    with "1.prems" show ?thesis by (auto simp: sremove.simps split: option.splits)
  next
    case False
    show ?thesis
    proof (cases "nextTopicLevel t")
      case (Inl e)
      with False "1.prems" show ?thesis by (simp add: sremove_fail)
    next
      case (Inr lr)
      then obtain l r where nx: "nextTopicLevel t = Inr (l, r)" by (cases lr) auto
      show ?thesis
      proof (cases "map_of kids l")
        case None
        with "1.prems" show ?thesis by (simp add: sremove_down [OF False nx])
      next
        case (Some m)
        note m = spruned_kid [OF "1.prems" Some]
        have kid: "ssubs m \<noteq> [] \<or> snodes m \<noteq> []" using "1.prems" Some by (auto dest!: map_of_SomeD)
        have "spruned (fst (sremove r s m))" using "1.IH" [OF False nx refl Some m] .
        moreover have "snd (sremove r s m) \<noteq> None \<Longrightarrow> fst (sremove r s m) = m"
          by (rule sremove_unchanged)
        ultimately show ?thesis
          using spruned_upd [OF "1.prems"] spruned_del [OF "1.prems"] kid Some
          by (auto simp: sremove_down [OF False nx] Let_def split: option.splits)
      qed
    qed
  qed
qed

text \<open>A tree without a subscription and without garbage has no node but the root.\<close>

lemma spruned_empty:
  "swf n \<Longrightarrow> spruned n \<Longrightarrow> (\<And>ls. subs_at n ls = []) \<Longrightarrow> n = newSNode"
proof (induction n)
  case (SNode ss qs kids)
  have "zip ss qs = []" using SNode.prems(3) [of "[]"] by (simp add: subs_at_Nil)
  then have here: "ss = []" "qs = []" using SNode.prems(1) by auto
  have "kids = []"
  proof (rule ccontr)
    assume "kids \<noteq> []"
    then obtain k m where km: "(k, m) \<in> set kids" by (cases kids) auto
    with SNode.prems(1) have "map_of kids k = Some m" by (simp add: go_map)
    then have "subs_at m ls = []" for ls using SNode.prems(3) [of "k # ls"] by (simp add: subs_at_Cons)
    moreover have "swf m" "spruned m" using SNode.prems(1,2) km by auto
    ultimately have "m = newSNode" using SNode.IH [OF km] by simp
    with km SNode.prems(2) show False by (auto simp: newSNode_def)
  qed
  with here show ?case by (simp add: newSNode_def)
qed

end
