(* ===== verification/Packets.thy ===== *)
theory Packets
  imports Hmq_Prelude
begin

text \<open>
  The MQTT control packets as data: the fields of the packet structs of
  \<^verbatim>\<open>github.com/eclipse/paho.mqtt.golang/packets\<close> that the broker reads or writes, and the QoS
  constants. How packets are read from and written to a connection is the business of that package
  and not modelled. The broker never changes a packet it has handed on, but for the connect packet
  in \<^verbatim>\<open>getSession\<close>, so packets are values here.
\<close>

definition QosAtMostOnce :: byte where "QosAtMostOnce = 0"
definition QosAtLeastOnce :: byte where "QosAtLeastOnce = 1"
definition QosExactlyOnce :: byte where "QosExactlyOnce = 2"
definition QosFailure :: byte where "QosFailure = 0x80"

lemmas qos_defs = QosAtMostOnce_def QosAtLeastOnce_def QosExactlyOnce_def QosFailure_def

record publishPacket =
  TopicName :: string
  MessageID :: uint16
  Payload :: string
  Qos :: byte
  Retain :: bool
  Dup :: bool

record connectPacket =
  ProtocolName :: string
  ProtocolVersion :: byte
  ClientIdentifier :: string
  CleanSession :: bool
  WillFlag :: bool
  WillQos :: byte
  WillRetain :: bool
  WillTopic :: string
  WillMessage :: string
  Username :: string
  Password :: string
  Keepalive :: uint16
  HeaderQos :: byte   \<comment> \<open>the fields \<^verbatim>\<open>Qos\<close> and \<^verbatim>\<open>Dup\<close> of the packet's fixed header\<close>
  HeaderDup :: bool

datatype controlPacket =
    ConnectP connectPacket
  | ConnackP bool byte                          \<comment> \<open>session present, return code\<close>
  | PublishP publishPacket
  | PubackP uint16
  | PubrecP uint16
  | PubrelP uint16
  | PubcompP uint16
  | SubscribeP uint16 "string list" "byte list" \<comment> \<open>message id, topics, qoss\<close>
  | SubackP uint16 "byte list"
  | UnsubscribeP uint16 "string list"
  | UnsubackP uint16
  | PingreqP
  | PingrespP
  | DisconnectP

text \<open>\<^verbatim>\<open>packets.NewControlPacket(packets.Publish)\<close>: every field at its zero value.\<close>

definition newPublish :: publishPacket where
  "newPublish = \<lparr>TopicName = [], MessageID = 0, Payload = [], Qos = 0, Retain = False, Dup = False\<rparr>"

definition newConnect :: connectPacket where
  "newConnect = \<lparr>ProtocolName = [], ProtocolVersion = 0, ClientIdentifier = [], CleanSession = False,
     WillFlag = False, WillQos = 0, WillRetain = False, WillTopic = [], WillMessage = [],
     Username = [], Password = [], Keepalive = 0, HeaderQos = 0, HeaderDup = False\<rparr>"

end
