(* ===== verification/Ret_Tree.thy ===== *)
theory Ret_Tree
  imports Topic_Levels Packets
begin

text \<open>
  The tree of retained messages of \<^verbatim>\<open>broker/lib/topics/memtopics.go\<close>: the type \<^verbatim>\<open>rnode\<close>
  and its methods \<^verbatim>\<open>rinsertOrUpdate\<close>, \<^verbatim>\<open>rremove\<close>, \<^verbatim>\<open>rmatch\<close> and
  \<^verbatim>\<open>allRetained\<close>, with the abstract view \<open>ret_at\<close> from levels to the message kept there.
\<close>

section \<open>Nodes and operations\<close>

datatype rnode = RNode (rmsg: "publishPacket option") (rnodes: "(string \<times> rnode) list")

definition newRNode :: rnode where
  "newRNode = RNode None []"

function rinsertOrUpdate :: "string \<Rightarrow> publishPacket \<Rightarrow> rnode \<Rightarrow> rnode \<times> topic_error option" where
  "rinsertOrUpdate topic msg (RNode m kids) =
     (if topic = [] then (RNode (Some msg) kids, None)
      else
        (case nextTopicLevel topic of
           Inl e \<Rightarrow> (RNode m kids, Some e)
         | Inr (level, rem) \<Rightarrow>
             (let n = (case map_of kids level of None \<Rightarrow> newRNode | Some n \<Rightarrow> n);
                  r = rinsertOrUpdate rem msg n
              in (RNode m (AList.update level (fst r) kids), snd r))))"
  by pat_completeness auto
termination
  by (relation "measure (\<lambda>(topic, msg, n). length topic)") (auto simp: next_shorter)

function rremove :: "string \<Rightarrow> rnode \<Rightarrow> rnode \<times> topic_error option" where
  "rremove topic (RNode m kids) =
     (if topic = [] then (RNode None kids, None)
      else
        (case nextTopicLevel topic of
           Inl e \<Rightarrow> (RNode m kids, Some e)
         | Inr (level, rem) \<Rightarrow>
             (case map_of kids level of
                None \<Rightarrow> (RNode m kids, Some ErrNoTopic)
              | Some n \<Rightarrow>
                  (let r = rremove rem n in
                   case snd r of
                     Some e \<Rightarrow> (RNode m (AList.update level (fst r) kids), Some e)
                   | None \<Rightarrow>
                       if rnodes (fst r) = [] then (RNode m (AList.delete level kids), None)
                       else (RNode m (AList.update level (fst r) kids), None)))))"
  by pat_completeness auto
termination
  by (relation "measure (\<lambda>(topic, n). length topic)") (auto simp: next_shorter)

declare rinsertOrUpdate.simps [simp del] rremove.simps [simp del]

definition addMsg :: "publishPacket option \<Rightarrow> publishPacket list \<Rightarrow> publishPacket list" where
  "addMsg m msgs = (case m of None \<Rightarrow> msgs | Some p \<Rightarrow> msgs @ [p])"

fun allRetained :: "rnode \<Rightarrow> publishPacket list \<Rightarrow> publishPacket list"
  and allRetained_range :: "(string \<times> rnode) list \<Rightarrow> publishPacket list \<Rightarrow> publishPacket list"
where
  "allRetained (RNode m kids) msgs = allRetained_range kids (addMsg m msgs)"
| "allRetained_range [] msgs = msgs"
| "allRetained_range ((k, n) # kids) msgs = allRetained_range kids (allRetained n msgs)"

fun rmatch :: "string \<Rightarrow> rnode \<Rightarrow> publishPacket list \<Rightarrow> publishPacket list \<times> topic_error option"
  and rmatch_range :: "string \<Rightarrow> (string \<times> rnode) list \<Rightarrow> publishPacket list \<Rightarrow> publishPacket list \<times> topic_error option"
  and rmatch_level :: "string \<Rightarrow> string \<Rightarrow> (string \<times> rnode) list \<Rightarrow> publishPacket list \<Rightarrow> publishPacket list \<times> topic_error option"
where
  "rmatch topic (RNode m kids) msgs =
     (if topic = [] then (addMsg m msgs, None)
      else
        (case nextTopicLevel topic of
           Inl e \<Rightarrow> (msgs, Some e)
         | Inr (level, rem) \<Rightarrow>
             (if level = MWC then (allRetained (RNode m kids) msgs, None)
              else if level = SWC then rmatch_range rem kids msgs
              else rmatch_level level rem kids msgs)))"
| "rmatch_range rem [] msgs = (msgs, None)"
| "rmatch_range rem ((k, n) # kids) msgs =
     (case rmatch rem n msgs of
        (msgs1, Some e) \<Rightarrow> (msgs1, Some e)
      | (msgs1, None) \<Rightarrow> rmatch_range rem kids msgs1)"
| "rmatch_level level rem [] msgs = (msgs, None)"
| "rmatch_level level rem ((k, n) # kids) msgs =
     (if k = level then rmatch rem n msgs else rmatch_level level rem kids msgs)"

text \<open>\<open>rmatch_level\<close> is the look-up \<^verbatim>\<open>r.rnodes[level]\<close> followed by the recursive call.\<close>

lemma rmatch_level_lookup:
  "rmatch_level level rem kids msgs =
     (case map_of kids level of None \<Rightarrow> (msgs, None) | Some n \<Rightarrow> rmatch rem n msgs)"
  by (induction kids) auto

declare rmatch.simps [simp del]

section \<open>The abstract view and the invariant\<close>

fun rnode_at :: "string list \<Rightarrow> rnode \<Rightarrow> rnode option" where
  "rnode_at [] n = Some n"
| "rnode_at (l # ls) n = (case map_of (rnodes n) l of None \<Rightarrow> None | Some m \<Rightarrow> rnode_at ls m)"

definition ret_at :: "rnode \<Rightarrow> string list \<Rightarrow> publishPacket option" where
  "ret_at n ls = (case rnode_at ls n of None \<Rightarrow> None | Some m \<Rightarrow> rmsg m)"

fun rwf :: "rnode \<Rightarrow> bool" where
  "rwf (RNode m kids) = (distinct_keys kids \<and> (\<forall>(k, n) \<in> set kids. rwf n))"

lemma rwf_new [simp]: "rwf newRNode"
  by (simp add: newRNode_def)

lemma rwf_kid: "rwf (RNode m kids) \<Longrightarrow> map_of kids k = Some n \<Longrightarrow> rwf n"
  by (auto dest!: map_of_SomeD)

lemma ret_at_Nil [simp]: "ret_at n [] = rmsg n"
  by (simp add: ret_at_def)

lemma ret_at_Cons: "ret_at (RNode m kids) (l # ls) = (case map_of kids l of None \<Rightarrow> None | Some n \<Rightarrow> ret_at n ls)"
  by (auto simp: ret_at_def split: option.splits)

lemma ret_at_new [simp]: "ret_at newRNode ls = None"
  by (cases ls) (auto simp: newRNode_def ret_at_Cons)

lemma ret_at_upd:
  "ret_at (RNode m (AList.update l n kids)) (k # ks) = (if k = l then ret_at n ks else ret_at (RNode m kids) (k # ks))"
  by (simp add: ret_at_Cons go_map)

lemma ret_at_del:
  "ret_at (RNode m (AList.delete l kids)) (k # ks) = (if k = l then None else ret_at (RNode m kids) (k # ks))"
  by (simp add: ret_at_Cons go_map)

lemma rwf_upd: "rwf (RNode m kids) \<Longrightarrow> rwf n \<Longrightarrow> rwf (RNode m (AList.update l n kids))"
  using set_update_other [of _ _ l n kids] by (fastforce intro: keys_intro)

lemma rwf_del: "rwf (RNode m kids) \<Longrightarrow> rwf (RNode m (AList.delete l kids))"
  using set_delete_subset [of l kids] by (auto intro: keys_intro)

section \<open>Insertion\<close>

definition rkid_or_new :: "(string \<times> rnode) list \<Rightarrow> string \<Rightarrow> rnode" where
  "rkid_or_new kids l = (case map_of kids l of None \<Rightarrow> newRNode | Some n \<Rightarrow> n)"

lemma rkid_or_new_view: "ret_at (rkid_or_new kids l) ks = ret_at (RNode m kids) (l # ks)"
  by (auto simp: rkid_or_new_def ret_at_Cons split: option.splits)

lemma rkid_or_new_wf: "rwf (RNode m kids) \<Longrightarrow> rwf (rkid_or_new kids l)"
  using rwf_kid [of m kids l] by (auto simp: rkid_or_new_def split: option.splits)

lemma rinsert_down:
  assumes "t \<noteq> []" "nextTopicLevel t = Inr (l, r)"
  shows "rinsertOrUpdate t p (RNode m kids) =
    (RNode m (AList.update l (fst (rinsertOrUpdate r p (rkid_or_new kids l))) kids),
     snd (rinsertOrUpdate r p (rkid_or_new kids l)))"
  using assms by (simp add: rinsertOrUpdate.simps rkid_or_new_def Let_def)

lemma rinsert_ok:
  "topicLevels t = Inr ls \<Longrightarrow> rwf n \<Longrightarrow>
     snd (rinsertOrUpdate t p n) = None \<and> rwf (fst (rinsertOrUpdate t p n))
     \<and> (\<forall>ks. ret_at (fst (rinsertOrUpdate t p n)) ks = (if ks = ls then Some p else ret_at n ks))"
proof (induction t ls arbitrary: n rule: topic_induct)
  case Nil
  obtain m kids where n: "n = RNode m kids" by (cases n)
  have "ret_at (RNode (Some p) kids) ks = (if ks = [] then Some p else ret_at n ks)" for ks
    by (cases ks) (auto simp: n ret_at_Cons)
  with Nil show ?case by (simp add: n rinsertOrUpdate.simps)
next
  case (Cons t l r ls)
  obtain m kids where n: "n = RNode m kids" by (cases n)
  let ?x = "rinsertOrUpdate r p (rkid_or_new kids l)"
  have wf: "rwf (RNode m kids)" using Cons.prems n by simp
  have ih: "snd ?x = None" "rwf (fst ?x)"
    "\<And>ks. ret_at (fst ?x) ks = (if ks = ls then Some p else ret_at n (l # ks))"
    using Cons.IH [OF rkid_or_new_wf [OF wf]] by (auto simp: n rkid_or_new_view [of kids l _ m])
  have "ret_at (RNode m (AList.update l (fst ?x) kids)) ks = (if ks = l # ls then Some p else ret_at n ks)" for ks
    using ih(3) by (cases ks) (auto simp: n ret_at_upd)
  with ih(1) rwf_upd [OF wf ih(2)] show ?case by (simp add: n rinsert_down [OF Cons.hyps(1,2)])
qed

lemma rinsert_err:
  "topicLevels t = Inl e \<Longrightarrow> rwf n \<Longrightarrow>
     snd (rinsertOrUpdate t p n) = Some e \<and> rwf (fst (rinsertOrUpdate t p n))
     \<and> (\<forall>ks. ret_at (fst (rinsertOrUpdate t p n)) ks = ret_at n ks)"
proof (induction t arbitrary: n rule: topic_error_induct)
  case (Here t)
  then show ?case by (cases n) (simp add: rinsertOrUpdate.simps)
next
  case (Below t l r)
  obtain m kids where n: "n = RNode m kids" by (cases n)
  let ?x = "rinsertOrUpdate r p (rkid_or_new kids l)"
  have wf: "rwf (RNode m kids)" using Below.prems n by simp
  have ih: "snd ?x = Some e" "rwf (fst ?x)" "\<And>ks. ret_at (fst ?x) ks = ret_at n (l # ks)"
    using Below.IH [OF rkid_or_new_wf [OF wf]] by (auto simp: n rkid_or_new_view [of kids l _ m])
  have "ret_at (RNode m (AList.update l (fst ?x) kids)) ks = ret_at n ks" for ks
    using ih(3) by (cases ks) (auto simp: n ret_at_upd)
  with ih(1) rwf_upd [OF wf ih(2)] show ?case by (simp add: n rinsert_down [OF Below.hyps(1,2)])
qed

section \<open>Removal\<close>

lemma rremove_down:
  assumes "t \<noteq> []" "nextTopicLevel t = Inr (l, r)"
  shows "rremove t (RNode m kids) =
    (case map_of kids l of
       None \<Rightarrow> (RNode m kids, Some ErrNoTopic)
     | Some n \<Rightarrow>
         (case snd (rremove r n) of
            Some e \<Rightarrow> (RNode m (AList.update l (fst (rremove r n)) kids), Some e)
          | None \<Rightarrow>
              if rnodes (fst (rremove r n)) = [] then (RNode m (AList.delete l kids), None)
              else (RNode m (AList.update l (fst (rremove r n)) kids), None)))"
  using assms by (simp add: rremove.simps Let_def split: option.split)

text \<open>
  A removal empties its own place, and a place that is no prefix of it keeps its message. Between
  the two the code is not correct: a node on the way that loses its last child is deleted together
  with the message it holds itself (\<open>rremove_loses_parent\<close>).
\<close>

lemma rremove_ok:
  "topicLevels t = Inr ls \<Longrightarrow> rwf n \<Longrightarrow>
     rwf (fst (rremove t n)) \<and> ret_at (fst (rremove t n)) ls = None
     \<and> (\<forall>ks. (\<nexists>zs. ls = ks @ zs) \<longrightarrow> ret_at (fst (rremove t n)) ks = ret_at n ks)
     \<and> (\<forall>ks. ret_at (fst (rremove t n)) ks = ret_at n ks \<or> ret_at (fst (rremove t n)) ks = None)"
proof (induction t ls arbitrary: n rule: topic_induct)
  case Nil
  obtain m kids where n: "n = RNode m kids" by (cases n)
  have "ret_at (RNode None kids) ks = (if ks = [] then None else ret_at n ks)" for ks
    by (cases ks) (auto simp: n ret_at_Cons)
  with Nil show ?case by (simp add: n rremove.simps)
next
  case (Cons t l r ls)
  obtain m kids where n: "n = RNode m kids" by (cases n)
  note step = rremove_down [OF Cons.hyps(1,2), of m kids]
  have wf: "rwf (RNode m kids)" using Cons.prems n by simp
  show ?case
  proof (cases "map_of kids l")
    case None
    with wf show ?thesis by (simp add: n step ret_at_Cons)
  next
    case (Some k)
    have view: "ret_at n (l # ks) = ret_at k ks" for ks by (simp add: n ret_at_Cons Some)
    let ?x = "fst (rremove r k)"
    have ih: "rwf ?x" "ret_at ?x ls = None"
      "\<And>ks. (\<nexists>zs. ls = ks @ zs) \<Longrightarrow> ret_at ?x ks = ret_at k ks"
      "\<And>ks. ret_at ?x ks = ret_at k ks \<or> ret_at ?x ks = None"
      using Cons.IH [OF rwf_kid [OF wf Some]] by auto
    let ?n = "fst (rremove t (RNode m kids))"
    consider (upd) "?n = RNode m (AList.update l ?x kids)"
      | (del) "rnodes ?x = []" "?n = RNode m (AList.delete l kids)"
      by (cases "snd (rremove r k)"; cases "rnodes ?x = []") (auto simp: step Some)
    then show ?thesis
    proof cases
      case upd
      have "ret_at ?n ks = (case ks of [] \<Rightarrow> ret_at n ks | j # js \<Rightarrow> if j = l then ret_at ?x js else ret_at n ks)" for ks
        by (cases ks) (auto simp: upd n ret_at_upd)
      with ih rwf_upd [OF wf ih(1)] upd show ?thesis
        by (auto simp: n [symmetric] view split: list.splits)
    next
      case del
      have leaf: "ret_at ?x (j # js) = None" for j js
        using del(1) by (cases ?x) (simp add: ret_at_Cons)
      have "ret_at ?n ks = (case ks of [] \<Rightarrow> ret_at n ks | j # js \<Rightarrow> if j = l then None else ret_at n ks)" for ks
        by (cases ks) (auto simp: del n ret_at_del)
      moreover have "ret_at k ks = None" if "\<nexists>zs. ls = ks @ zs" for ks
        using that ih(3) [OF that] leaf by (cases ks) auto
      ultimately show ?thesis using rwf_del [OF wf] del(2)
        by (auto simp: n [symmetric] view split: list.splits)
    qed
  qed
qed

lemma rremove_err:
  "topicLevels t = Inl e \<Longrightarrow> fst (rremove t n) = n \<and> snd (rremove t n) \<noteq> None"
proof (induction t arbitrary: n rule: topic_error_induct)
  case (Here t)
  then show ?case by (cases n) (simp add: rremove.simps)
next
  case (Below t l r)
  obtain m kids where n: "n = RNode m kids" by (cases n)
  have same: "AList.update l k kids = kids" if "map_of kids l = Some k" for k
    using that by (induction kids) auto
  show ?case
  proof (cases "map_of kids l")
    case None
    then show ?thesis using Below.hyps by (simp add: n rremove_down)
  next
    case (Some k)
    obtain e1 where "fst (rremove r k) = k" "snd (rremove r k) = Some e1" using Below.IH [of k] by auto
    then show ?thesis using Below.hyps Some same [OF Some] by (simp add: n rremove_down)
  qed
qed

end
