(* ===== verification/Ret_Match.thy ===== *)
theory Ret_Match
  imports Ret_Tree
begin

text \<open>
  The search \<^verbatim>\<open>rmatch\<close> of the retained messages against the matching relation: the filter is
  on the searching side here, the stored topics are matched by it.
\<close>

fun rentries :: "rnode \<Rightarrow> (string list \<times> publishPacket) list" where
  "rentries (RNode m kids) =
     map (Pair []) (addMsg m []) @ concat (map (\<lambda>(k, n). map (map_prod ((#) k) id) (rentries n)) kids)"

definition rkid_entries :: "(string \<times> rnode) list \<Rightarrow> (string list \<times> publishPacket) list" where
  "rkid_entries kids = concat (map (\<lambda>(k, n). map (map_prod ((#) k) id) (rentries n)) kids)"

lemma rkid_entries_simps [simp]:
  "rkid_entries [] = []"
  "rkid_entries ((k, n) # kids) = map (map_prod ((#) k) id) (rentries n) @ rkid_entries kids"
  by (auto simp: rkid_entries_def)

lemma rentries_node: "rentries (RNode m kids) = map (Pair []) (addMsg m []) @ rkid_entries kids"
  by (simp add: rkid_entries_def)

declare rentries.simps [simp del]

definition matched_by :: "string list \<Rightarrow> (string list \<times> publishPacket) list \<Rightarrow> publishPacket list" where
  "matched_by fs es = map snd (filter (\<lambda>(ts, p). matches fs ts) es)"

lemma matched_by_append [simp]: "matched_by fs (xs @ ys) = matched_by fs xs @ matched_by fs ys"
  by (simp add: matched_by_def)

lemma matched_by_Nil [simp]: "matched_by fs [] = []"
  by (simp add: matched_by_def)

lemma matched_by_here: "matched_by fs (map (Pair []) ps) = (if fs = [] \<or> fs = [MWC] then ps else [])"
  by (cases fs) (auto simp: matched_by_def filter_map o_def)

lemma matched_by_mwc: "matched_by [MWC] es = map snd es"
  by (auto simp: matched_by_def intro!: filter_True)

lemma matched_by_below:
  "f \<noteq> MWC \<Longrightarrow>
   matched_by (f # fs) (map (map_prod ((#) k) id) es) = (if f = SWC \<or> f = k then matched_by fs es else [])"
  by (cases "f = SWC \<or> f = k"; induction es) (auto simp: matched_by_def)

lemma matched_by_end: "matched_by [] (map (map_prod ((#) k) id) es) = []"
  by (auto simp: matched_by_def filter_empty_conv)

lemma matched_by_end_kids: "matched_by [] (rkid_entries kids) = []"
  by (induction kids) (auto simp: matched_by_end)

lemma addMsg_eq: "addMsg m msgs = msgs @ addMsg m []"
  by (simp add: addMsg_def split: option.split)

lemma allRetained_eq:
  "allRetained n msgs = msgs @ map snd (rentries n)"
  "allRetained_range kids msgs = msgs @ map snd (rkid_entries kids)"
proof (induction n msgs and kids msgs rule: allRetained_allRetained_range.induct)
  case (1 m kids msgs)
  then show ?case using addMsg_eq [of m msgs] by (simp add: rentries_node o_def)
qed (auto simp: o_def)

lemma matched_by_level:
  assumes "distinct_keys kids" "f \<noteq> MWC" "f \<noteq> SWC"
  shows "matched_by (f # fs) (rkid_entries kids) = (case map_of kids f of None \<Rightarrow> [] | Some n \<Rightarrow> matched_by fs (rentries n))"
  using assms(1)
proof (induction kids)
  case Nil
  then show ?case by simp
next
  case (Cons p ks)
  obtain k n where p: "p = (k, n)" by (cases p)
  have "map_of ks k = None" "distinct_keys ks"
    using Cons.prems by (auto simp: p distinct_keys_def map_of_eq_None_iff)
  with Cons.IH assms(2,3) show ?case by (auto simp: p matched_by_below)
qed

lemma rmatch_finds:
  "topicLevels t = Inr fs \<Longrightarrow> rwf n \<Longrightarrow>
     \<exists>xs. rmatch t n msgs = (msgs @ xs, None) \<and> mset xs = mset (matched_by fs (rentries n))"
  "topicLevels r = Inr gs \<Longrightarrow> list_all (\<lambda>p. rwf (snd p)) kids \<Longrightarrow>
     \<exists>xs. rmatch_range r kids msgs = (msgs @ xs, None) \<and> mset xs = mset (matched_by (SWC # gs) (rkid_entries kids))"
  "topicLevels r = Inr gs \<Longrightarrow> list_all (\<lambda>p. rwf (snd p)) kids \<Longrightarrow> distinct_keys kids \<Longrightarrow> l \<noteq> MWC \<Longrightarrow> l \<noteq> SWC \<Longrightarrow>
     \<exists>xs. rmatch_level l r kids msgs = (msgs @ xs, None) \<and> mset xs = mset (matched_by (l # gs) (rkid_entries kids))"
proof (induction t n msgs and r kids msgs and l r kids msgs
    arbitrary: fs and gs and gs rule: rmatch_rmatch_range_rmatch_level.induct)
  case (1 t m kids msgs)
  show ?case
  proof (cases "t = []")
    case True
    with "1.prems" show ?thesis
      using addMsg_eq [of m msgs] by (simp add: rmatch.simps rentries_node matched_by_here matched_by_end_kids)
  next
    case False
    with "1.prems" obtain l r gs where lr: "nextTopicLevel t = Inr (l, r)" "topicLevels r = Inr gs" "fs = l # gs"
      by (auto simp: topicLevels_Cons)
    have kids: "list_all (\<lambda>p. rwf (snd p)) kids" "distinct_keys kids"
      using "1.prems"(2) by (auto simp: list_all_iff)
    consider "l = MWC" | "l = SWC" | "l \<noteq> MWC" "l \<noteq> SWC" by blast
    then show ?thesis
    proof cases
      case 1
      then have "gs = []" using lr next_mwc_last [of t r] by simp
      with 1 lr False show ?thesis
        by (simp add: rmatch.simps allRetained_eq(1) matched_by_mwc del: allRetained.simps)
    next
      case 2
      then have "\<exists>xs. rmatch_range r kids msgs = (msgs @ xs, None)
          \<and> mset xs = mset (matched_by (SWC # gs) (rkid_entries kids))"
        using "1.IH"(1) [of "(l, r)" l r gs] False lr kids by auto
      with 2 lr False show ?thesis
        by (auto simp: rmatch.simps rentries_node matched_by_here)
    next
      case 3
      then have "\<exists>xs. rmatch_level l r kids msgs = (msgs @ xs, None)
          \<and> mset xs = mset (matched_by (l # gs) (rkid_entries kids))"
        using "1.IH"(2) [of "(l, r)" l r gs] False lr kids by auto
      with 3 lr False show ?thesis
        by (auto simp: rmatch.simps rentries_node matched_by_here)
    qed
  qed
next
  case (2 r msgs)
  then show ?case by simp
next
  case (3 r k n kids msgs)
  obtain xs where xs: "rmatch r n msgs = (msgs @ xs, None)" "mset xs = mset (matched_by gs (rentries n))"
    using "3.IH"(1) "3.prems" by auto
  obtain ys where ys: "rmatch_range r kids (msgs @ xs) = ((msgs @ xs) @ ys, None)"
    "mset ys = mset (matched_by (SWC # gs) (rkid_entries kids))"
    using "3.IH"(2) [OF xs(1) [symmetric] refl "3.prems"(1)] "3.prems"(2) by auto
  show ?case using xs ys by (intro exI [of _ "xs @ ys"]) (simp add: matched_by_below)
next
  case (4 l r msgs)
  then show ?case by simp
next
  case (5 l r k n kids msgs)
  show ?case
  proof (cases "k = l")
    case True
    moreover have "map_of kids l = None"
      using True "5.prems" by (auto simp: distinct_keys_def map_of_eq_None_iff)
    ultimately show ?thesis
      using "5.IH"(1) [OF _ "5.prems"(1)] "5.prems" matched_by_level [of kids l gs]
      by (auto simp: matched_by_below distinct_keys_def)
  next
    case False
    with "5.IH"(2) [OF False "5.prems"(1)] "5.prems" show ?thesis
      by (auto simp: matched_by_below distinct_keys_def)
  qed
qed

section \<open>Entries and the abstract view\<close>

lemma rentries_member: "rwf n \<Longrightarrow> (ls, p) \<in> set (rentries n) \<longleftrightarrow> ret_at n ls = Some p"
proof (induction ls arbitrary: n)
  case Nil
  obtain m kids where n: "n = RNode m kids" by (cases n)
  have "([], p) \<notin> set (rkid_entries kids)" by (induction kids) auto
  then show ?case by (auto simp: n rentries_node addMsg_def split: option.splits)
next
  case (Cons l ls)
  obtain m kids where n: "n = RNode m kids" by (cases n)
  have "(l # ls, p) \<in> set (rkid_entries kids) \<longleftrightarrow> (\<exists>k. (l, k) \<in> set kids \<and> (ls, p) \<in> set (rentries k))"
    by (induction kids) force+
  moreover have "distinct_keys kids" "\<And>k. (l, k) \<in> set kids \<Longrightarrow> rwf k" using Cons.prems by (auto simp: n)
  ultimately show ?case
    using Cons.IH by (auto simp: n rentries_node ret_at_Cons go_map split: option.splits)
qed

lemma matched_by_member:
  "rwf n \<Longrightarrow> p \<in> set (matched_by fs (rentries n)) \<longleftrightarrow> (\<exists>ts. matches fs ts \<and> ret_at n ts = Some p)"
  by (force simp: matched_by_def rentries_member [symmetric])

text \<open>
  The defect of the removal: the message retained for a topic is lost when the last message below
  that topic is removed, although the removed topic is a different one.
\<close>

lemma rremove_loses_parent:
  fixes p q :: publishPacket
  defines "t \<equiv> fst (rinsertOrUpdate ''a/b'' q (fst (rinsertOrUpdate ''a'' p newRNode)))"
  shows "ret_at t [''a''] = Some p \<and> ret_at (fst (rremove ''a/b'' t)) [''a''] = None"
  by (simp add: t_def newRNode_def rinsertOrUpdate.simps rremove.simps nextTopicLevel_def ret_at_def)

end
