(* ===== verification/Topics_Interface.thy ===== *)
theory Topics_Interface
  imports Sub_Match Ret_Match
begin

text \<open>
  The interface \<^verbatim>\<open>TopicsProvider\<close> of \<^verbatim>\<open>broker/lib/topics/topics.go\<close> as locales: what the
  broker may rely on, whichever provider it is given. The abstract state of a provider is the finite
  set \<open>subs_of p\<close> of pairs of a filter (its levels) and a subscriber, and the partial function
  \<open>kept p\<close> from topics to retained messages. The lemmas the broker uses are proved here once; the
  in-memory provider interprets the locales in the theory \<open>Mem_Topics\<close>.
\<close>

definition ValidQos :: "byte \<Rightarrow> bool" where
  "ValidQos qos = (qos = QosAtMostOnce \<or> qos = QosAtLeastOnce \<or> qos = QosExactlyOnce)"

lemma ValidQos_consts [simp]: "ValidQos QosAtMostOnce" "ValidQos QosAtLeastOnce" "ValidQos QosExactlyOnce"
  by (auto simp: ValidQos_def)

text \<open>
  A subscriber the provider can find again: equal to itself and to nothing else. All pointers are;
  functions and NaNs are not.
\<close>

definition identity :: "gval \<Rightarrow> bool" where
  "identity s = (s \<noteq> GNil \<and> (\<forall>x. equal_iface x s \<longleftrightarrow> x = s))"

lemma identity_ptr [simp]: "identity (GPtr t a)"
  by (simp add: identity_def)

text \<open>The subscribers of a topic, as a multiset: one for every matching pair.\<close>

definition subscribers_spec :: "(string list \<times> gval) set \<Rightarrow> string list \<Rightarrow> gval multiset" where
  "subscribers_spec S ts = image_mset snd (mset_set {e \<in> S. matches (fst e) ts})"

section \<open>Subscriptions\<close>

locale subscription_provider =
  fixes subscribe :: "string \<Rightarrow> byte \<Rightarrow> gval \<Rightarrow> 'p \<Rightarrow> 'p \<times> byte \<times> 'e option"
    and unsubscribe :: "string \<Rightarrow> gval \<Rightarrow> 'p \<Rightarrow> 'p \<times> 'e option"
    and subscribers :: "string \<Rightarrow> byte \<Rightarrow> 'p \<Rightarrow> found \<Rightarrow> found \<times> 'e option"
    and inv :: "'p \<Rightarrow> bool"
    and subs_of :: "'p \<Rightarrow> (string list \<times> gval) set"
  assumes subs_finite: "inv p \<Longrightarrow> finite (subs_of p)"
    and subs_identity: "inv p \<Longrightarrow> (fs, s) \<in> subs_of p \<Longrightarrow> identity s"
    and subscribe_inv: "inv p \<Longrightarrow> identity s \<Longrightarrow> inv (fst (subscribe t q s p))"
    and subscribe_ok:
      "inv p \<Longrightarrow> identity s \<Longrightarrow> ValidQos q \<Longrightarrow> topicLevels t = Inr ls \<Longrightarrow>
       snd (subscribe t q s p) = (q, None) \<and> subs_of (fst (subscribe t q s p)) = insert (ls, s) (subs_of p)"
    and subscribe_refused:
      "inv p \<Longrightarrow> identity s \<Longrightarrow> \<not> ValidQos q \<or> topicLevels t = Inl e \<Longrightarrow>
       fst (snd (subscribe t q s p)) = QosFailure \<and> snd (snd (subscribe t q s p)) \<noteq> None
       \<and> subs_of (fst (subscribe t q s p)) = subs_of p"
    and unsubscribe_inv: "inv p \<Longrightarrow> identity s \<Longrightarrow> inv (fst (unsubscribe t s p))"
    and unsubscribe_ok:
      "inv p \<Longrightarrow> identity s \<Longrightarrow> topicLevels t = Inr ls \<Longrightarrow>
       subs_of (fst (unsubscribe t s p)) = subs_of p - {(ls, s)}
       \<and> (snd (unsubscribe t s p) = None \<longleftrightarrow> (ls, s) \<in> subs_of p)"
    and unsubscribe_refused:
      "inv p \<Longrightarrow> identity s \<Longrightarrow> topicLevels t = Inl e \<Longrightarrow>
       fst (unsubscribe t s p) = p \<and> snd (unsubscribe t s p) \<noteq> None"
    and subscribers_ok:
      "inv p \<Longrightarrow> ValidQos q \<Longrightarrow> topicLevels t = Inr ts \<Longrightarrow>
       \<exists>subs qoss. subscribers t q p out = ((subs, qoss), None)
         \<and> mset subs = subscribers_spec (subs_of p) ts \<and> qoss = replicate (length subs) q"
    and subscribers_bad_qos:
      "\<not> ValidQos q \<Longrightarrow> \<exists>e. subscribers t q p out = (out, Some e)"
begin

text \<open>Who is found: the subscribers with a matching filter, and nobody else.\<close>

lemma subscribers_set:
  assumes "inv p" "ValidQos q" "topicLevels t = Inr ts" "subscribers t q p out = ((subs, qoss), e)"
  shows "set subs = {s. \<exists>fs. matches fs ts \<and> (fs, s) \<in> subs_of p}"
proof -
  have "mset subs = subscribers_spec (subs_of p) ts"
    using subscribers_ok [OF assms(1-3), of out] assms(4) by auto
  then have "set_mset (mset subs) = snd ` {e \<in> subs_of p. matches (fst e) ts}"
    using subs_finite [OF assms(1)] by (simp add: subscribers_spec_def)
  then show ?thesis by force
qed

lemma subscribe_found:
  assumes "inv p" "identity s" "ValidQos q" "topicLevels f = Inr fs"
    and "ValidQos q'" "topicLevels t = Inr ts" "matches fs ts"
    and "subscribers t q' (fst (subscribe f q s p)) out = ((subs, qoss), e)"
  shows "s \<in> set subs"
proof -
  have "(fs, s) \<in> subs_of (fst (subscribe f q s p))" using subscribe_ok assms(1-4) by auto
  with subscribers_set [OF subscribe_inv [OF assms(1,2)] assms(5,6,8)] assms(7) show ?thesis by auto
qed

lemma unsubscribe_not_found:
  assumes "inv p" "identity s" "topicLevels f = Inr fs" "\<forall>gs. (gs, s) \<in> subs_of p \<longrightarrow> gs = fs"
    and "ValidQos q" "topicLevels t = Inr ts"
    and "subscribers t q (fst (unsubscribe f s p)) out = ((subs, qoss), e)"
  shows "s \<notin> set subs"
proof -
  have "subs_of (fst (unsubscribe f s p)) = subs_of p - {(fs, s)}" using unsubscribe_ok assms(1-3) by auto
  with subscribers_set [OF unsubscribe_inv [OF assms(1,2)] assms(5-7)] assms(4) show ?thesis by auto
qed

lemma subscribe_unsubscribe:
  assumes "inv p" "identity s" "ValidQos q" "topicLevels f = Inr fs" "(fs, s) \<notin> subs_of p"
  shows "subs_of (fst (unsubscribe f s (fst (subscribe f q s p)))) = subs_of p"
  using unsubscribe_ok [OF subscribe_inv [OF assms(1,2)] assms(2,4)] subscribe_ok [OF assms(1-4)] assms(5)
  by auto

end

text \<open>A run of subscriptions and cancellations, on a provider and on its abstract state.\<close>

datatype sub_op = OpSubscribe string byte gval | OpUnsubscribe string gval

fun op_subscriber :: "sub_op \<Rightarrow> gval" where
  "op_subscriber (OpSubscribe t q s) = s"
| "op_subscriber (OpUnsubscribe t s) = s"

fun run_op ::
  "(string \<Rightarrow> byte \<Rightarrow> gval \<Rightarrow> 'p \<Rightarrow> 'p \<times> byte \<times> 'e option) \<Rightarrow>
   (string \<Rightarrow> gval \<Rightarrow> 'p \<Rightarrow> 'p \<times> 'e option) \<Rightarrow> 'p \<Rightarrow> sub_op \<Rightarrow> 'p"
where
  "run_op sub unsub p (OpSubscribe t q s) = fst (sub t q s p)"
| "run_op sub unsub p (OpUnsubscribe t s) = fst (unsub t s p)"

fun spec_op :: "(string list \<times> gval) set \<Rightarrow> sub_op \<Rightarrow> (string list \<times> gval) set" where
  "spec_op S (OpSubscribe t q s) =
     (case topicLevels t of Inl e \<Rightarrow> S | Inr ls \<Rightarrow> if ValidQos q then insert (ls, s) S else S)"
| "spec_op S (OpUnsubscribe t s) = (case topicLevels t of Inl e \<Rightarrow> S | Inr ls \<Rightarrow> S - {(ls, s)})"

context subscription_provider
begin

lemma run_op_refines:
  assumes "inv p" "identity (op_subscriber x)"
  shows "inv (run_op subscribe unsubscribe p x) \<and> subs_of (run_op subscribe unsubscribe p x) = spec_op (subs_of p) x"
proof (cases x)
  case (OpSubscribe t q s)
  then show ?thesis
    using assms subscribe_inv [of p s t q] subscribe_ok [of p s q t] subscribe_refused [of p s q t]
    by (cases "ValidQos q"; cases "topicLevels t") auto
next
  case (OpUnsubscribe t s)
  then show ?thesis
    using assms unsubscribe_inv [of p s t] unsubscribe_ok [of p s t] unsubscribe_refused [of p s t]
    by (cases "topicLevels t") auto
qed

lemma run_refines:
  "inv p \<Longrightarrow> list_all (\<lambda>x. identity (op_subscriber x)) xs \<Longrightarrow>
   inv (foldl (run_op subscribe unsubscribe) p xs)
   \<and> subs_of (foldl (run_op subscribe unsubscribe) p xs) = foldl spec_op (subs_of p) xs"
  by (induction xs arbitrary: p) (auto simp: run_op_refines)

lemma run_subscribers:
  assumes "inv p" "list_all (\<lambda>x. identity (op_subscriber x)) xs" "ValidQos q" "topicLevels t = Inr ts"
  shows "\<exists>subs qoss. subscribers t q (foldl (run_op subscribe unsubscribe) p xs) out = ((subs, qoss), None)
    \<and> mset subs = subscribers_spec (foldl spec_op (subs_of p) xs) ts \<and> qoss = replicate (length subs) q"
proof -
  let ?p = "foldl (run_op subscribe unsubscribe) p xs"
  have "inv ?p" "subs_of ?p = foldl spec_op (subs_of p) xs" using run_refines [OF assms(1,2)] by auto
  with subscribers_ok [of ?p q t ts out] assms(3,4) show ?thesis by simp
qed

end

section \<open>Retained messages\<close>

locale retained_provider =
  fixes retain :: "publishPacket \<Rightarrow> 'p \<Rightarrow> 'p \<times> 'e option"
    and retained :: "string \<Rightarrow> 'p \<Rightarrow> publishPacket list \<Rightarrow> publishPacket list \<times> 'e option"
    and rinv :: "'p \<Rightarrow> bool"
    and kept :: "'p \<Rightarrow> string list \<Rightarrow> publishPacket option"
  assumes retain_inv: "rinv p \<Longrightarrow> rinv (fst (retain m p))"
    and retain_keep:
      "rinv p \<Longrightarrow> Payload m \<noteq> [] \<Longrightarrow> topicLevels (TopicName m) = Inr ls \<Longrightarrow>
       snd (retain m p) = None \<and> kept (fst (retain m p)) = (kept p)(ls \<mapsto> m)"
    and retain_clear:
      "rinv p \<Longrightarrow> Payload m = [] \<Longrightarrow> topicLevels (TopicName m) = Inr ls \<Longrightarrow>
       kept (fst (retain m p)) ls = None
       \<and> (\<forall>ks. (\<nexists>zs. ls = ks @ zs) \<longrightarrow> kept (fst (retain m p)) ks = kept p ks)
       \<and> kept (fst (retain m p)) \<subseteq>\<^sub>m kept p"
    and retain_refused:
      "rinv p \<Longrightarrow> topicLevels (TopicName m) = Inl e \<Longrightarrow>
       snd (retain m p) \<noteq> None \<and> kept (fst (retain m p)) = kept p"
    and retained_ok:
      "rinv p \<Longrightarrow> topicLevels f = Inr fs \<Longrightarrow>
       \<exists>xs. retained f p msgs = (msgs @ xs, None) \<and> set xs = {m. \<exists>ts. matches fs ts \<and> kept p ts = Some m}"
begin

text \<open>The last message retained for a topic is the one a later subscriber of the topic is sent.\<close>

lemma retain_retained:
  assumes "rinv p" "Payload m \<noteq> []" "topicLevels (TopicName m) = Inr ts" "topicLevels f = Inr fs" "matches fs ts"
    and "retained f (fst (retain m p)) msgs = (out, e)"
  shows "m \<in> set out"
proof -
  have "kept (fst (retain m p)) ts = Some m" using retain_keep assms(1-3) by auto
  with retained_ok [OF retain_inv [OF assms(1)] assms(4), of m msgs] assms(5,6) show ?thesis by auto
qed

lemma clear_not_retained:
  assumes "rinv p" "Payload m = []" "topicLevels (TopicName m) = Inr ts" "plain_levels ts"
    and "retained (TopicName m) (fst (retain m p)) msgs = (out, e)"
  shows "out = msgs"
proof -
  have none: "kept (fst (retain m p)) ts = None" using retain_clear assms(1-3) by auto
  obtain xs where "retained (TopicName m) (fst (retain m p)) msgs = (msgs @ xs, None)"
    "set xs = {x. \<exists>us. matches ts us \<and> kept (fst (retain m p)) us = Some x}"
    using retained_ok [OF retain_inv [OF assms(1)] assms(3), of m msgs] by auto
  with none assms(4,5) show ?thesis by (auto simp: matches_plain)
qed

end

text \<open>The whole interface: both halves on one state.\<close>

locale topics_provider =
  subscription_provider subscribe unsubscribe subscribers inv subs_of +
  retained_provider retain retained inv kept
  for subscribe :: "string \<Rightarrow> byte \<Rightarrow> gval \<Rightarrow> 'p \<Rightarrow> 'p \<times> byte \<times> 'e option"
    and unsubscribe :: "string \<Rightarrow> gval \<Rightarrow> 'p \<Rightarrow> 'p \<times> 'e option"
    and subscribers :: "string \<Rightarrow> byte \<Rightarrow> 'p \<Rightarrow> found \<Rightarrow> found \<times> 'e option"
    and inv :: "'p \<Rightarrow> bool"
    and subs_of :: "'p \<Rightarrow> (string list \<times> gval) set"
    and retain :: "publishPacket \<Rightarrow> 'p \<Rightarrow> 'p \<times> 'e option"
    and retained :: "string \<Rightarrow> 'p \<Rightarrow> publishPacket list \<Rightarrow> publishPacket list \<times> 'e option"
    and kept :: "'p \<Rightarrow> string list \<Rightarrow> publishPacket option" +
  assumes retain_subs: "subs_of (fst (retain m p)) = subs_of p"
    and subscribe_kept: "kept (fst (subscribe t q s p)) = kept p"
    and unsubscribe_kept: "kept (fst (unsubscribe t s p)) = kept p"

end
