(* ===== verification/Mem_Topics.thy ===== *)
theory Mem_Topics
  imports Topics_Interface
begin

text \<open>
  The in-memory provider (\<^verbatim>\<open>memTopics\<close> of \<^verbatim>\<open>broker/lib/topics/memtopics.go\<close>) and the
  provider registry with its \<^verbatim>\<open>Manager\<close> (\<^verbatim>\<open>broker/lib/topics/topics.go\<close>). The locks of
  the source make each method atomic, which is how they are modelled. The theory interprets the
  interface locales on the provider.
\<close>

section \<open>The provider\<close>

text \<open>
  A root is \<open>None\<close> after \<^verbatim>\<open>Close\<close> set the pointer to nil. A method called then dereferences a
  nil pointer unless the first level of the topic is refused before: \<open>nilReceiver\<close> is what the
  caller sees, an error or the panic.
\<close>

record memTopics =
  sroot :: "snode option"
  rroot :: "rnode option"

datatype provider_error = TopicError topic_error | PanicNilDeref

definition NewMemProvider :: memTopics where
  "NewMemProvider = \<lparr>sroot = Some newSNode, rroot = Some newRNode\<rparr>"

definition nilReceiver :: "string \<Rightarrow> provider_error" where
  "nilReceiver topic =
     (if topic = [] then PanicNilDeref
      else (case nextTopicLevel topic of Inl e \<Rightarrow> TopicError e | Inr _ \<Rightarrow> PanicNilDeref))"

definition mtSubscribe :: "string \<Rightarrow> byte \<Rightarrow> gval \<Rightarrow> memTopics \<Rightarrow> memTopics \<times> byte \<times> provider_error option" where
  "mtSubscribe topic qos sub t =
     (if \<not> ValidQos qos then (t, QosFailure, Some (TopicError (ErrInvalidQos qos)))
      else if sub = GNil then (t, QosFailure, Some (TopicError ErrNilSubscriber))
      else
        (let qos1 = (if QosExactlyOnce < qos then QosExactlyOnce else qos) in
         case sroot t of
           None \<Rightarrow> (t, QosFailure, Some (nilReceiver topic))
         | Some n \<Rightarrow>
             (case sinsert topic qos1 sub n of
                (n1, Some e) \<Rightarrow> (t\<lparr>sroot := Some n1\<rparr>, QosFailure, Some (TopicError e))
              | (n1, None) \<Rightarrow> (t\<lparr>sroot := Some n1\<rparr>, qos1, None))))"

definition mtUnsubscribe :: "string \<Rightarrow> gval \<Rightarrow> memTopics \<Rightarrow> memTopics \<times> provider_error option" where
  "mtUnsubscribe topic sub t =
     (case sroot t of
        None \<Rightarrow> (t, Some (nilReceiver topic))
      | Some n \<Rightarrow> (case sremove topic sub n of (n1, e) \<Rightarrow> (t\<lparr>sroot := Some n1\<rparr>, map_option TopicError e)))"

definition mtSubscribers :: "string \<Rightarrow> byte \<Rightarrow> memTopics \<Rightarrow> found \<Rightarrow> found \<times> provider_error option" where
  "mtSubscribers topic qos t out =
     (if \<not> ValidQos qos then (out, Some (TopicError (ErrInvalidQos qos)))
      else (case sroot t of
        None \<Rightarrow> (([], []), Some (nilReceiver topic))
      | Some n \<Rightarrow> (case smatch topic qos n ([], []) of (out1, e) \<Rightarrow> (out1, map_option TopicError e))))"

definition mtRetain :: "publishPacket \<Rightarrow> memTopics \<Rightarrow> memTopics \<times> provider_error option" where
  "mtRetain msg t =
     (case rroot t of
        None \<Rightarrow> (t, Some (nilReceiver (TopicName msg)))
      | Some n \<Rightarrow>
          (case (if length (Payload msg) = 0 then rremove (TopicName msg) n
                 else rinsertOrUpdate (TopicName msg) msg n) of
             (n1, e) \<Rightarrow> (t\<lparr>rroot := Some n1\<rparr>, map_option TopicError e)))"

definition mtRetained :: "string \<Rightarrow> memTopics \<Rightarrow> publishPacket list \<Rightarrow> publishPacket list \<times> provider_error option" where
  "mtRetained topic t msgs =
     (case rroot t of
        None \<Rightarrow> (msgs, Some (nilReceiver topic))
      | Some n \<Rightarrow> (case rmatch topic n msgs of (msgs1, e) \<Rightarrow> (msgs1, map_option TopicError e)))"

definition mtClose :: "memTopics \<Rightarrow> memTopics" where
  "mtClose t = t\<lparr>sroot := None, rroot := None\<rparr>"

section \<open>Registry and manager\<close>

datatype registry_error = PanicNilProvider | PanicDuplicate string | ErrUnknownProvider string

definition Register :: "string \<Rightarrow> 'p option \<Rightarrow> (string \<times> 'p) list \<Rightarrow> registry_error + (string \<times> 'p) list" where
  "Register name provider providers =
     (case provider of
        None \<Rightarrow> Inl PanicNilProvider
      | Some p \<Rightarrow>
          (case map_of providers name of
             Some _ \<Rightarrow> Inl (PanicDuplicate name)
           | None \<Rightarrow> Inr (AList.update name p providers)))"

definition Unregister :: "string \<Rightarrow> (string \<times> 'p) list \<Rightarrow> (string \<times> 'p) list" where
  "Unregister name providers = AList.delete name providers"

definition NewManager :: "string \<Rightarrow> (string \<times> 'p) list \<Rightarrow> registry_error + 'p" where
  "NewManager providerName providers =
     (case map_of providers providerName of
        None \<Rightarrow> Inl (ErrUnknownProvider providerName)
      | Some p \<Rightarrow> Inr p)"

text \<open>
  The interface \<^verbatim>\<open>TopicsProvider\<close> as the record of its methods, over the provider's state, and
  the methods of \<^verbatim>\<open>Manager\<close>, which call those of the provider it was made for.
\<close>

record 'p TopicsProvider =
  pSubscribe :: "string \<Rightarrow> byte \<Rightarrow> gval \<Rightarrow> 'p \<Rightarrow> 'p \<times> byte \<times> provider_error option"
  pUnsubscribe :: "string \<Rightarrow> gval \<Rightarrow> 'p \<Rightarrow> 'p \<times> provider_error option"
  pSubscribers :: "string \<Rightarrow> byte \<Rightarrow> 'p \<Rightarrow> found \<Rightarrow> found \<times> provider_error option"
  pRetain :: "publishPacket \<Rightarrow> 'p \<Rightarrow> 'p \<times> provider_error option"
  pRetained :: "string \<Rightarrow> 'p \<Rightarrow> publishPacket list \<Rightarrow> publishPacket list \<times> provider_error option"
  pClose :: "'p \<Rightarrow> 'p"

definition memMethods :: "memTopics TopicsProvider" where
  "memMethods =
     \<lparr>pSubscribe = mtSubscribe, pUnsubscribe = mtUnsubscribe, pSubscribers = mtSubscribers,
      pRetain = mtRetain, pRetained = mtRetained, pClose = mtClose\<rparr>"

definition managerSubscribe where "managerSubscribe m topic qos subscriber = pSubscribe m topic qos subscriber"
definition managerUnsubscribe where "managerUnsubscribe m topic subscriber = pUnsubscribe m topic subscriber"
definition managerSubscribers where "managerSubscribers m topic qos p subs = pSubscribers m topic qos p subs"
definition managerRetain where "managerRetain m msg = pRetain m msg"
definition managerRetained where "managerRetained m topic p msgs = pRetained m topic p msgs"
definition managerClose where "managerClose m = pClose m"

text \<open>So the broker's manager of the name \<^verbatim>\<open>mem\<close> is the in-memory provider itself.\<close>

lemma manager_mem:
  "managerSubscribe memMethods = mtSubscribe" "managerUnsubscribe memMethods = mtUnsubscribe"
  "managerSubscribers memMethods = mtSubscribers" "managerRetain memMethods = mtRetain"
  "managerRetained memMethods = mtRetained" "managerClose memMethods = mtClose"
  by (simp_all add: fun_eq_iff memMethods_def managerSubscribe_def managerUnsubscribe_def managerSubscribers_def
      managerRetain_def managerRetained_def managerClose_def)

text \<open>A name can be registered once; afterwards managers of that name share the one provider.\<close>

lemma register_manager:
  "Register name (Some p) ps = Inr ps' \<Longrightarrow>
   NewManager name ps' = Inr p \<and> Register name q ps' \<noteq> Inr ps''
   \<and> (\<forall>n. n \<noteq> name \<longrightarrow> NewManager n ps' = NewManager n ps)"
  by (auto simp: Register_def NewManager_def go_map split: option.splits if_splits)

lemma unregister_manager:
  "NewManager name (Unregister name ps) = Inl (ErrUnknownProvider name)"
  by (simp add: NewManager_def Unregister_def go_map)

section \<open>The abstract state\<close>

definition mt_inv :: "memTopics \<Rightarrow> bool" where
  "mt_inv t =
     (case (sroot t, rroot t) of
        (Some n, Some r) \<Rightarrow> swf n \<and> rwf r \<and> list_all (\<lambda>(fs, s). identity s) (sentries n)
      | _ \<Rightarrow> False)"

definition mt_subs :: "memTopics \<Rightarrow> (string list \<times> gval) set" where
  "mt_subs t = (case sroot t of None \<Rightarrow> {} | Some n \<Rightarrow> set (sentries n))"

definition mt_kept :: "memTopics \<Rightarrow> string list \<Rightarrow> publishPacket option" where
  "mt_kept t = (case rroot t of None \<Rightarrow> Map.empty | Some r \<Rightarrow> ret_at r)"

lemma mt_invE:
  assumes "mt_inv t"
  obtains n r where "sroot t = Some n" "rroot t = Some r" "swf n" "rwf r"
    "\<And>fs s. (fs, s) \<in> set (sentries n) \<Longrightarrow> identity s"
  using assms by (force simp: mt_inv_def list_all_iff split: option.splits)

lemma mt_invI:
  "sroot t = Some n \<Longrightarrow> rroot t = Some r \<Longrightarrow> swf n \<Longrightarrow> rwf r \<Longrightarrow>
   (\<And>fs s. (fs, s) \<in> set (sentries n) \<Longrightarrow> identity s) \<Longrightarrow> mt_inv t"
  by (auto simp: mt_inv_def list_all_iff)

lemma mt_inv_new: "mt_inv NewMemProvider" and mt_subs_new: "mt_subs NewMemProvider = {}"
  and mt_kept_new: "mt_kept NewMemProvider = Map.empty"
  by (auto simp: NewMemProvider_def mt_inv_def mt_subs_def mt_kept_def newSNode_def newRNode_def
      sentries_node rentries_node distinct_subs_def ret_at_new [unfolded newRNode_def])

text \<open>Identity turns \<open>equal_iface\<close> into equality, so the lists at the nodes are sets.\<close>

lemma set_upsert_identity: "identity s \<Longrightarrow> fst ` set (upsert s q xs) = insert s (fst ` set xs)"
  by (induction s q xs rule: upsert.induct) (auto simp: identity_def)

lemma set_remove_identity:
  assumes "identity s" "distinct_subs (map fst xs)" "list_all (\<lambda>x. identity (fst x)) xs"
  shows "fst ` set (remove_sub s xs) = fst ` set xs - {s}"
  using assms
proof (induction s xs rule: remove_sub.induct)
  case (1 s)
  then show ?case by simp
next
  case (2 s s1 p xs)
  have "s1 \<notin> fst ` set xs" if "s1 = s"
    using 2 that by (force simp: distinct_subs_def identity_def list_all_iff)
  moreover have "equal_iface s1 s \<longleftrightarrow> s1 = s" using "2.prems"(1) by (simp add: identity_def)
  ultimately show ?case using 2 by (auto simp: distinct_subs_def)
qed

lemma subs_at_distinct: "swf n \<Longrightarrow> distinct_subs (map fst (subs_at n ls))"
proof (induction ls arbitrary: n)
  case Nil
  then show ?case by (cases n) (simp add: subs_at_Nil)
next
  case (Cons l ls)
  obtain s q kids where n: "n = SNode s q kids" by (cases n)
  show ?case
    using Cons swf_kid [of s q kids l] by (auto simp: n subs_at_Cons distinct_subs_def split: option.splits)
qed

lemma distinct_from_paths:
  assumes "\<And>ls. distinct (at_path ls es)"
  shows "distinct es"
  using assms
proof (induction es)
  case Nil
  then show ?case by simp
next
  case (Cons e es)
  obtain ls s where e: "e = (ls, s)" by (cases e)
  have "distinct (at_path ks es)" for ks
    using Cons.prems [of ks] by (auto simp: at_path_def split: if_splits)
  moreover have "s \<notin> set (at_path ls es)" using Cons.prems [of ls] by (auto simp: e at_path_def)
  then have "e \<notin> set es" by (force simp: e at_path_def)
  ultimately show ?case using Cons.IH by simp
qed

lemma sentries_distinct:
  assumes "swf n" "\<And>fs s. (fs, s) \<in> set (sentries n) \<Longrightarrow> identity s"
  shows "distinct (sentries n)"
proof -
  have ident: "identity s" if "s \<in> fst ` set (subs_at n ls)" for s ls
    using assms entries_member that by blast
  have dist: "distinct (at_path ls (sentries n))" for ls
  proof -
    have "distinct xs" if "distinct_subs xs" "\<forall>x \<in> set xs. identity x" for xs
      using that by (induction xs) (auto simp: distinct_subs_def identity_def)
    then show ?thesis
      using subs_at_distinct [OF assms(1)] ident by (simp add: entries_view [OF assms(1)])
  qed
  show ?thesis by (rule distinct_from_paths) (rule dist)
qed

lemma matching_spec:
  assumes "swf n" "\<And>fs s. (fs, s) \<in> set (sentries n) \<Longrightarrow> identity s"
  shows "mset (matching ts (sentries n)) = subscribers_spec (set (sentries n)) ts"
proof -
  have "mset (matching ts (sentries n)) = image_mset snd (filter_mset (\<lambda>e. matches (fst e) ts) (mset (sentries n)))"
    by (simp add: matching_def case_prod_beta)
  also have "mset (sentries n) = mset_set (set (sentries n))"
    by (simp add: mset_set_set sentries_distinct [OF assms])
  also have "filter_mset (\<lambda>e. matches (fst e) ts) (mset_set (set (sentries n)))
      = mset_set {e \<in> set (sentries n). matches (fst e) ts}"
    by (simp add: filter_mset_mset_set)
  finally show ?thesis by (simp add: subscribers_spec_def)
qed

section \<open>The provider implements the interface\<close>

lemma qos_capped: "ValidQos q \<Longrightarrow> (if QosExactlyOnce < q then QosExactlyOnce else q) = q"
  by (auto simp: ValidQos_def qos_defs)

lemma swf_entries_eq:
  assumes "swf n" "swf n'" "\<And>fs. subs_at n' fs = subs_at n fs"
  shows "set (sentries n') = set (sentries n)"
  using assms by (auto simp: set_eq_iff entries_member)

lemma insert_entries:
  assumes "swf n" "identity s" "topicLevels t = Inr ls"
  shows "set (sentries (fst (sinsert t q s n))) = insert (ls, s) (set (sentries n))"
  using sinsert_ok [OF assms(3,1), of q s] assms(1)
  by (auto simp: set_eq_iff entries_member set_upsert_identity [OF assms(2)] split: if_splits)

lemma insert_entries_err:
  assumes "swf n" "topicLevels t = Inl e"
  shows "set (sentries (fst (sinsert t q s n))) = set (sentries n)"
proof -
  have "swf (fst (sinsert t q s n))" "\<And>fs. subs_at (fst (sinsert t q s n)) fs = subs_at n fs"
    using sinsert_err [OF assms(2,1), of q s] by blast+
  then show ?thesis by (rule swf_entries_eq [OF assms(1)])
qed

lemma remove_entries:
  assumes "swf n" "\<And>fs s. (fs, s) \<in> set (sentries n) \<Longrightarrow> identity s" "identity s" "topicLevels t = Inr ls"
  shows "swf (fst (sremove t s n)) \<and> set (sentries (fst (sremove t s n))) = set (sentries n) - {(ls, s)}
    \<and> (snd (sremove t s n) = None \<longleftrightarrow> (ls, s) \<in> set (sentries n))"
proof -
  have nil: "s \<noteq> GNil" using assms(3) by (simp add: identity_def)
  have sub: "subscribed n ls s \<longleftrightarrow> (ls, s) \<in> set (sentries n)"
    using assms(3) by (auto simp: subscribed_def entries_member [OF assms(1)] identity_def)
  have idents: "list_all (\<lambda>x. identity (fst x)) (subs_at n ls)"
    using assms(2) by (force simp: list_all_iff entries_member [OF assms(1)])
  have "set (sentries (fst (sremove t s n))) = set (sentries n) - {(ls, s)}" if "subscribed n ls s"
    using sremove_ok [OF assms(4,1) nil] that assms(1) set_remove_identity [OF assms(3) subs_at_distinct idents]
    by (auto simp: set_eq_iff entries_member split: if_splits)
  with sremove_ok [OF assms(4,1) nil] sub assms(1) show ?thesis by (auto split: if_splits)
qed

lemma mt_subscribe_eq:
  assumes "sroot p = Some n" "identity s"
  shows "mtSubscribe t q s p =
    (if \<not> ValidQos q then (p, QosFailure, Some (TopicError (ErrInvalidQos q)))
     else (case sinsert t q s n of
        (n1, Some e) \<Rightarrow> (p\<lparr>sroot := Some n1\<rparr>, QosFailure, Some (TopicError e))
      | (n1, None) \<Rightarrow> (p\<lparr>sroot := Some n1\<rparr>, q, None)))"
  using assms
  by (auto simp: mtSubscribe_def qos_capped identity_def Let_def split: prod.splits option.splits)

lemma mt_inv_sroot:
  assumes "mt_inv p" "swf n" "\<And>fs s. (fs, s) \<in> set (sentries n) \<Longrightarrow> identity s"
  shows "mt_inv (p\<lparr>sroot := Some n\<rparr>)"
  using assms by (force simp: mt_inv_def list_all_iff split: option.splits)

lemma mt_subscribe_inv: "mt_inv p \<Longrightarrow> identity s \<Longrightarrow> mt_inv (fst (mtSubscribe t q s p))"
proof -
  assume p: "mt_inv p" and s: "identity s"
  obtain n r where n: "sroot p = Some n" "swf n" "\<And>fs s. (fs, s) \<in> set (sentries n) \<Longrightarrow> identity s"
    using p by (rule mt_invE) blast
  note sub = mt_subscribe_eq [OF n(1) s]
  have "swf (fst (sinsert t q s n)) \<and> (\<forall>fs x. (fs, x) \<in> set (sentries (fst (sinsert t q s n))) \<longrightarrow> identity x)"
  proof (cases "topicLevels t")
    case (Inl e)
    with sinsert_err [OF Inl n(2), of q s] insert_entries_err [OF n(2) Inl, of q s] n(3) show ?thesis by simp
  next
    case (Inr ls)
    with sinsert_ok [OF Inr n(2), of q s] insert_entries [OF n(2) s Inr, of q] n(3) s show ?thesis by auto
  qed
  then have "mt_inv (p\<lparr>sroot := Some (fst (sinsert t q s n))\<rparr>)" by (intro mt_inv_sroot p) auto
  then show ?thesis using p by (auto simp: sub split: prod.splits option.splits)
qed

interpretation mem_subs: subscription_provider mtSubscribe mtUnsubscribe mtSubscribers mt_inv mt_subs
proof unfold_locales
  fix p assume "mt_inv p"
  then show "finite (mt_subs p)" by (simp add: mt_subs_def split: option.split)
next
  fix p fs s assume "mt_inv p" "(fs, s) \<in> mt_subs p"
  then show "identity s" by (auto simp: mt_subs_def elim!: mt_invE)
next
  fix p s t q assume "mt_inv p" "identity s"
  then show "mt_inv (fst (mtSubscribe t q s p))" by (rule mt_subscribe_inv)
next
  fix p s q t ls
  assume p: "mt_inv p" and s: "identity s" and q: "ValidQos q" and t: "topicLevels t = Inr ls"
  obtain n r where n: "sroot p = Some n" "swf n" using p by (rule mt_invE) blast
  show "snd (mtSubscribe t q s p) = (q, None) \<and> mt_subs (fst (mtSubscribe t q s p)) = insert (ls, s) (mt_subs p)"
    using n q sinsert_ok [OF t n(2), of q s] insert_entries [OF n(2) s t, of q]
    by (simp add: mt_subscribe_eq [OF n(1) s] mt_subs_def case_prod_beta)
next
  fix p s q t e
  assume p: "mt_inv p" and s: "identity s" and bad: "\<not> ValidQos q \<or> topicLevels t = Inl e"
  obtain n r where n: "sroot p = Some n" "swf n" using p by (rule mt_invE) blast
  note sub = mt_subscribe_eq [OF n(1) s]
  show "fst (snd (mtSubscribe t q s p)) = QosFailure \<and> snd (snd (mtSubscribe t q s p)) \<noteq> None
      \<and> mt_subs (fst (mtSubscribe t q s p)) = mt_subs p"
  proof (cases "ValidQos q")
    case True
    then have t: "topicLevels t = Inl e" using bad by simp
    then have "snd (sinsert t q s n) = Some e" using sinsert_err n(2) by blast
    then show ?thesis using n True insert_entries_err [OF n(2) t, of q s]
      by (simp add: sub mt_subs_def case_prod_beta)
  next
    case False
    then show ?thesis by (simp add: sub)
  qed
next
  fix p s t assume p: "mt_inv p" and s: "identity s"
  obtain n r where n: "sroot p = Some n" "swf n" "\<And>fs s. (fs, s) \<in> set (sentries n) \<Longrightarrow> identity s"
    using p by (rule mt_invE) blast
  have "swf (fst (sremove t s n)) \<and> set (sentries (fst (sremove t s n))) \<subseteq> set (sentries n)"
    using remove_entries [OF n(2,3) s] sremove_err [of t _ s n] n(2) by (cases "topicLevels t") auto
  then have "mt_inv (p\<lparr>sroot := Some (fst (sremove t s n))\<rparr>)" using n(3) by (intro mt_inv_sroot p) auto
  then show "mt_inv (fst (mtUnsubscribe t s p))"
    using n by (auto simp: mtUnsubscribe_def split: prod.splits)
next
  fix p s t ls assume p: "mt_inv p" and s: "identity s" and t: "topicLevels t = Inr ls"
  obtain n r where n: "sroot p = Some n" "swf n" "\<And>fs s. (fs, s) \<in> set (sentries n) \<Longrightarrow> identity s"
    using p by (rule mt_invE) blast
  show "mt_subs (fst (mtUnsubscribe t s p)) = mt_subs p - {(ls, s)}
      \<and> (snd (mtUnsubscribe t s p) = None \<longleftrightarrow> (ls, s) \<in> mt_subs p)"
    using remove_entries [OF n(2,3) s t] n
    by (auto simp: mtUnsubscribe_def mt_subs_def split: prod.splits)
next
  fix p s t e assume p: "mt_inv p" and "topicLevels t = Inl e"
  obtain n r where n: "sroot p = Some n" using p by (rule mt_invE) blast
  then show "fst (mtUnsubscribe t s p) = p \<and> snd (mtUnsubscribe t s p) \<noteq> None"
    using sremove_err [OF \<open>topicLevels t = Inl e\<close>, of s n]
    by (auto simp: mtUnsubscribe_def split: prod.splits)
next
  fix p q t ts and out :: found assume p: "mt_inv p" and q: "ValidQos q" and t: "topicLevels t = Inr ts"
  obtain n r where n: "sroot p = Some n" "swf n" "\<And>fs s. (fs, s) \<in> set (sentries n) \<Longrightarrow> identity s"
    using p by (rule mt_invE) blast
  obtain xs where xs: "smatch t q n ([], []) = ((xs, replicate (length xs) q), None)"
    "mset xs = mset (matching ts (sentries n))"
    using smatch_finds(1) [OF t n(2), of q "([], [])"] by (auto simp: adds_def)
  show "\<exists>subs qoss. mtSubscribers t q p out = ((subs, qoss), None)
      \<and> mset subs = subscribers_spec (mt_subs p) ts \<and> qoss = replicate (length subs) q"
    using n(1) q xs matching_spec [OF n(2,3)]
    by (auto simp: mtSubscribers_def mt_subs_def)
next
  fix q t p and out :: found assume "\<not> ValidQos q"
  then show "\<exists>e. mtSubscribers t q p out = (out, Some e)"
    by (simp add: mtSubscribers_def)
qed

lemma mt_inv_rroot:
  assumes "mt_inv p" "rwf r"
  shows "mt_inv (p\<lparr>rroot := Some r\<rparr>)"
  using assms by (auto simp: mt_inv_def split: option.splits)

lemma ret_at_submap:
  assumes "\<And>ks. ret_at r' ks = ret_at r ks \<or> ret_at r' ks = None"
  shows "ret_at r' \<subseteq>\<^sub>m ret_at r"
  using assms by (force simp: map_le_def)

interpretation mem_retained: retained_provider mtRetain mtRetained mt_inv mt_kept
proof unfold_locales
  fix p and m :: publishPacket assume p: "mt_inv p"
  obtain n r where r: "rroot p = Some r" "rwf r" using p by (rule mt_invE) blast
  let ?t = "TopicName m"
  have "rwf (fst (rinsertOrUpdate ?t m r))" "rwf (fst (rremove ?t r))"
    using rinsert_ok [of ?t _ r m] rinsert_err [of ?t _ r m] rremove_ok [of ?t _ r] rremove_err [of ?t _ r] r(2)
    by (cases "topicLevels ?t"; auto)+
  then have "mt_inv (p\<lparr>rroot := Some (fst (if length (Payload m) = 0 then rremove ?t r else rinsertOrUpdate ?t m r))\<rparr>)"
    by (intro mt_inv_rroot p) simp
  then show "mt_inv (fst (mtRetain m p))" using r by (simp add: mtRetain_def case_prod_beta)
next
  fix p and m :: publishPacket and ls assume p: "mt_inv p" and m: "Payload m \<noteq> []" and t: "topicLevels (TopicName m) = Inr ls"
  obtain n r where r: "rroot p = Some r" "rwf r" using p by (rule mt_invE) blast
  then show "snd (mtRetain m p) = None \<and> mt_kept (fst (mtRetain m p)) = (mt_kept p)(ls \<mapsto> m)"
    using rinsert_ok [OF t r(2), of m] m by (simp add: mtRetain_def case_prod_beta mt_kept_def fun_eq_iff)
next
  fix p and m :: publishPacket and ls assume p: "mt_inv p" and m: "Payload m = []" and t: "topicLevels (TopicName m) = Inr ls"
  obtain n r where r: "rroot p = Some r" "rwf r" using p by (rule mt_invE) blast
  let ?r = "fst (rremove (TopicName m) r)"
  note rem = rremove_ok [OF t r(2)]
  have "ret_at ?r \<subseteq>\<^sub>m ret_at r"
  proof (rule ret_at_submap)
    show "ret_at ?r ks = ret_at r ks \<or> ret_at ?r ks = None" for ks using rem by auto
  qed
  moreover have "mt_kept (fst (mtRetain m p)) = ret_at ?r" "mt_kept p = ret_at r"
    using r m by (auto simp: mtRetain_def case_prod_beta mt_kept_def)
  ultimately show "mt_kept (fst (mtRetain m p)) ls = None
      \<and> (\<forall>ks. (\<nexists>zs. ls = ks @ zs) \<longrightarrow> mt_kept (fst (mtRetain m p)) ks = mt_kept p ks)
      \<and> mt_kept (fst (mtRetain m p)) \<subseteq>\<^sub>m mt_kept p"
    using rem by simp
next
  fix p and m :: publishPacket and e assume p: "mt_inv p" and t: "topicLevels (TopicName m) = Inl e"
  obtain n r where r: "rroot p = Some r" "rwf r" using p by (rule mt_invE) blast
  then show "snd (mtRetain m p) \<noteq> None \<and> mt_kept (fst (mtRetain m p)) = mt_kept p"
    using rinsert_err [OF t r(2), of m] rremove_err [OF t, of r]
    by (auto simp: mtRetain_def case_prod_beta mt_kept_def fun_eq_iff)
next
  fix p f fs msgs assume p: "mt_inv p" and t: "topicLevels f = Inr fs"
  obtain n r where r: "rroot p = Some r" "rwf r" using p by (rule mt_invE) blast
  obtain xs where xs: "rmatch f r msgs = (msgs @ xs, None)" "mset xs = mset (matched_by fs (rentries r))"
    using rmatch_finds(1) [OF t r(2)] by blast
  then have "set xs = {m. \<exists>ts. matches fs ts \<and> ret_at r ts = Some m}"
    using matched_by_member [OF r(2), of _ fs] mset_eq_setD [OF xs(2)] by auto
  with xs(1) r(1) show "\<exists>xs. mtRetained f p msgs = (msgs @ xs, None)
      \<and> set xs = {m. \<exists>ts. matches fs ts \<and> mt_kept p ts = Some m}"
    by (simp add: mtRetained_def mt_kept_def)
qed

interpretation mem_topics: topics_provider mtSubscribe mtUnsubscribe mtSubscribers mt_inv mt_subs mtRetain mtRetained mt_kept
proof unfold_locales
  show "mt_subs (fst (mtRetain m p)) = mt_subs p" for m p
    by (simp add: mtRetain_def mt_subs_def split: option.split prod.split)
  show "mt_kept (fst (mtSubscribe t q s p)) = mt_kept p" for t q s p
    by (simp add: mtSubscribe_def mt_kept_def Let_def split: option.split prod.split)
  show "mt_kept (fst (mtUnsubscribe t s p)) = mt_kept p" for t s p
    by (simp add: mtUnsubscribe_def mt_kept_def split: option.split prod.split)
qed

end
