(* ===== verification/Topic_Properties.thy ===== *)
theory Topic_Properties
  imports Mem_Topics
begin

text \<open>
  The properties of the topic index: what a client of the in-memory provider observes after any
  history of calls. Each rests on the interface lemmas of \<open>Topics_Interface\<close>, instantiated by the
  interpretations of \<open>Mem_Topics\<close>.
\<close>

section \<open>Histories that leave no garbage\<close>

fun op_scans :: "sub_op \<Rightarrow> bool" where
  "op_scans (OpSubscribe t q s) = (\<exists>ls. topicLevels t = Inr ls)"
| "op_scans (OpUnsubscribe t s) = True"

definition mt_pruned :: "memTopics \<Rightarrow> bool" where
  "mt_pruned p = (case sroot p of None \<Rightarrow> True | Some n \<Rightarrow> spruned n)"

lemma run_op_pruned:
  assumes "mt_inv p" "mt_pruned p" "identity (op_subscriber x)" "op_scans x"
  shows "mt_pruned (run_op mtSubscribe mtUnsubscribe p x)"
proof -
  obtain n r where n: "sroot p = Some n" using assms(1) by (rule mt_invE)
  then have "spruned n" using assms(2) by (simp add: mt_pruned_def)
  then show ?thesis
    using assms n sinsert_pruned [of _ _ n] sremove_pruned [of n]
    by (cases x) (auto simp: mt_subscribe_eq mtUnsubscribe_def mt_pruned_def case_prod_beta split: option.splits)
qed

lemma run_op_rroot: "rroot (run_op mtSubscribe mtUnsubscribe p x) = rroot p"
  by (cases x) (auto simp: mtSubscribe_def mtUnsubscribe_def Let_def split: option.splits prod.splits)

lemma run_pruned:
  "mt_inv p \<Longrightarrow> mt_pruned p \<Longrightarrow> list_all (\<lambda>x. identity (op_subscriber x) \<and> op_scans x) xs \<Longrightarrow>
   mt_pruned (foldl (run_op mtSubscribe mtUnsubscribe) p xs)
   \<and> rroot (foldl (run_op mtSubscribe mtUnsubscribe) p xs) = rroot p"
  by (induction xs arbitrary: p) (auto simp: run_op_pruned run_op_rroot mem_subs.run_op_refines)

lemma run_new_refines:
  assumes "list_all (\<lambda>x. identity (op_subscriber x)) xs"
  shows "mt_inv (foldl (run_op mtSubscribe mtUnsubscribe) NewMemProvider xs)"
    and "mt_subs (foldl (run_op mtSubscribe mtUnsubscribe) NewMemProvider xs) = foldl spec_op {} xs"
  using mem_subs.run_refines [OF mt_inv_new assms] by (auto simp: mt_subs_new)

lemma pruned_no_subs:
  assumes "mt_inv p" "mt_pruned p" "mt_subs p = {}"
  shows "sroot p = Some newSNode"
proof -
  obtain n r where n: "sroot p = Some n" "swf n" using assms(1) by (rule mt_invE)
  have "subs_at n ls = []" for ls
  proof (rule ccontr)
    assume "subs_at n ls \<noteq> []"
    then obtain x where "x \<in> fst ` set (subs_at n ls)" by (cases "subs_at n ls") auto
    then have "(ls, x) \<in> mt_subs p" using n by (simp add: mt_subs_def entries_member)
    with assms(3) show False by simp
  qed
  with n assms(2) spruned_empty show ?thesis by (simp add: mt_pruned_def)
qed

section \<open>Histories of retained messages\<close>

text \<open>The message kept last for each topic, after a history of publications.\<close>

definition keep :: "(string list \<Rightarrow> publishPacket option) \<Rightarrow> publishPacket \<Rightarrow> string list \<Rightarrow> publishPacket option" where
  "keep M m = (case topicLevels (TopicName m) of Inl e \<Rightarrow> M | Inr ts \<Rightarrow> M(ts \<mapsto> m))"

lemma retain_run:
  "mt_inv p \<Longrightarrow> list_all (\<lambda>m. Payload m \<noteq> []) ms \<Longrightarrow>
   mt_inv (foldl (\<lambda>p m. fst (mtRetain m p)) p ms)
   \<and> mt_kept (foldl (\<lambda>p m. fst (mtRetain m p)) p ms) = foldl keep (mt_kept p) ms"
proof (induction ms arbitrary: p)
  case Nil
  then show ?case by simp
next
  case (Cons m ms)
  have "mt_kept (fst (mtRetain m p)) = keep (mt_kept p) m"
    using Cons.prems mem_retained.retain_keep [of p m] mem_retained.retain_refused [of p m]
    by (auto simp: keep_def split: sum.split)
  with Cons mem_retained.retain_inv [of p m] show ?case by simp
qed

section \<open>Topics for the examples\<close>

lemma example_levels:
  "topicLevels ''a'' = Inr [''a'']" "topicLevels ''a/b'' = Inr [''a'', ''b'']" "topicLevels ''+'' = Inr [''+'']"
  "topicLevels ''a/+'' = Inr [''a'', ''+'']"
  by (simp_all add: topicLevels_split well_formed_topic_def topic_pieces_def valid_level_def
      norm_level_def MWC_def SWC_def Let_def)

section \<open>Properties\<close>

text \<open>
  C1. After any history of subscriptions and cancellations, failed calls included, a search for a
  topic that scans succeeds and returns exactly the subscribers of the matching filters in force,
  each once per filter, in some order, with the QoS of the search for each of them. The filters in
  force are those of the set-valued specification, which knows no tree.
\<close>

theorem index_run_correct:
  assumes "list_all (\<lambda>x. identity (op_subscriber x)) xs" "ValidQos q" "topicLevels t = Inr ts"
  shows "\<exists>subs qoss.
    mtSubscribers t q (foldl (run_op mtSubscribe mtUnsubscribe) NewMemProvider xs) out = ((subs, qoss), None)
    \<and> mset subs = subscribers_spec (foldl spec_op {} xs) ts \<and> qoss = replicate (length subs) q"
  using mem_subs.run_subscribers [OF mt_inv_new assms(1-3), of out] by (simp add: mt_subs_new)

lemma index_run_correct_witness:
  "\<exists>subs qoss.
    mtSubscribers ''a/b'' QosAtLeastOnce
      (foldl (run_op mtSubscribe mtUnsubscribe) NewMemProvider
        [OpSubscribe ''a/+'' QosAtMostOnce (GPtr TSubscription 1), OpUnsubscribe ''a/b'' (GPtr TSubscription 2)])
      ([], []) = ((subs, qoss), None)
    \<and> mset subs = subscribers_spec (foldl spec_op {}
        [OpSubscribe ''a/+'' QosAtMostOnce (GPtr TSubscription 1), OpUnsubscribe ''a/b'' (GPtr TSubscription 2)])
        [''a'', ''b'']
    \<and> qoss = replicate (length subs) QosAtLeastOnce"
  by (rule index_run_correct) (simp_all add: example_levels)

text \<open>
  C32. No leak: after a history whose subscriptions all had a topic that scans, and in which every
  subscription has been cancelled, the provider is the empty provider again, with no node left.
\<close>

theorem index_no_garbage:
  assumes "list_all (\<lambda>x. identity (op_subscriber x) \<and> op_scans x) xs" "foldl spec_op {} xs = {}"
  shows "foldl (run_op mtSubscribe mtUnsubscribe) NewMemProvider xs = NewMemProvider"
proof -
  let ?p = "foldl (run_op mtSubscribe mtUnsubscribe) NewMemProvider xs"
  have ids: "list_all (\<lambda>x. identity (op_subscriber x)) xs" using assms(1) by (simp add: list_all_iff)
  have "mt_pruned NewMemProvider" by (simp add: mt_pruned_def NewMemProvider_def)
  then have "mt_pruned ?p" "rroot ?p = rroot NewMemProvider"
    using run_pruned [OF mt_inv_new _ assms(1)] by auto
  moreover from this have "sroot ?p = Some newSNode"
    using run_new_refines [OF ids] assms(2) by (intro pruned_no_subs) auto
  ultimately show ?thesis by (simp add: NewMemProvider_def)
qed

lemma index_no_garbage_witness:
  "foldl (run_op mtSubscribe mtUnsubscribe) NewMemProvider
     [OpSubscribe ''a/b'' QosAtMostOnce (GPtr TSubscription 1), OpUnsubscribe ''a/b'' (GPtr TSubscription 1)]
   = NewMemProvider"
  by (rule index_no_garbage) (simp_all add: example_levels)

text \<open>
  A refused subscription (invalid QoS, or a topic that does not scan) returns the failure code
  with an error, and every later search answers what it would have answered without the call.
\<close>

theorem subscribe_refused_unobservable:
  assumes "mt_inv p" "identity s" "\<not> ValidQos q \<or> topicLevels f = Inl e"
    and "ValidQos q'" "topicLevels t = Inr ts"
    and "mtSubscribers t q' p ([], []) = ((subs, qoss), None)"
  shows "fst (snd (mtSubscribe f q s p)) = QosFailure \<and> snd (snd (mtSubscribe f q s p)) \<noteq> None
    \<and> (\<exists>subs'. mtSubscribers t q' (fst (mtSubscribe f q s p)) ([], []) = ((subs', qoss), None)
               \<and> mset subs' = mset subs)"
proof -
  let ?p = "fst (mtSubscribe f q s p)"
  have eq: "mt_subs ?p = mt_subs p" using mem_subs.subscribe_refused [OF assms(1-3)] by simp
  obtain xs where "mtSubscribers t q' ?p ([], []) = ((xs, replicate (length xs) q'), None)"
    "mset xs = subscribers_spec (mt_subs p) ts"
    using mem_subs.subscribers_ok [OF mem_subs.subscribe_inv [OF assms(1,2)] assms(4,5)] eq by metis
  moreover have "mset subs = subscribers_spec (mt_subs p) ts" "qoss = replicate (length subs) q'"
    using mem_subs.subscribers_ok [OF assms(1,4,5), of "([], [])"] assms(6) by auto
  moreover from calculation have "length xs = length subs" by (metis size_mset)
  ultimately show ?thesis using mem_subs.subscribe_refused [OF assms(1-3)] by auto
qed

lemma subscribe_refused_unobservable_witness:
  "fst (snd (mtSubscribe ''a/b'' 3 (GPtr TSubscription 1) NewMemProvider)) = QosFailure
    \<and> snd (snd (mtSubscribe ''a/b'' 3 (GPtr TSubscription 1) NewMemProvider)) \<noteq> None
    \<and> (\<exists>subs'. mtSubscribers ''a/b'' QosAtMostOnce (fst (mtSubscribe ''a/b'' 3 (GPtr TSubscription 1) NewMemProvider)) ([], [])
         = ((subs', []), None) \<and> mset subs' = mset [])"
proof (rule subscribe_refused_unobservable [OF mt_inv_new _ _ _ example_levels(2)])
  show "mtSubscribers ''a/b'' QosAtMostOnce NewMemProvider ([], []) = (([], []), None)"
    by (simp add: mtSubscribers_def NewMemProvider_def newSNode_def smatch.simps nextTopicLevel_def)
qed (simp_all add: ValidQos_def qos_defs)



text \<open>
  C40. The byte scanner applied again and again cuts a topic into its levels as splitting at the
  separator does, an empty level becoming the single-level wildcard and a separator at the end
  opening no level, and it refuses exactly the topics with a wildcard that does not fill its level
  or a multi-level wildcard before the last.
\<close>

theorem scanner_splits:
  "topicLevels t = Inr ls \<longleftrightarrow> well_formed_topic t \<and> ls = map norm_level (topic_pieces t)"
  by (rule topicLevels_split)

text \<open>
  The comparison of subscribers is symmetric and transitive, reflexive on everything but
  functions and NaNs, and on pointers it is identity; so the list at a node holds a subscriber at
  most once, and holds the broker's subscriptions, which are pointers, without confusing any two.
\<close>

theorem equal_iface_equivalence:
  "(equal_iface a b \<longrightarrow> equal_iface b a)
   \<and> (equal_iface a b \<and> equal_iface b c \<longrightarrow> equal_iface a c)
   \<and> (equal_iface a a \<longleftrightarrow> \<not> is_func a \<and> (\<forall>x. a = GFloat64 x \<longrightarrow> \<not> f64_nan x) \<and> (\<forall>x. a = GFloat32 x \<longrightarrow> \<not> f32_nan x))
   \<and> (equal_iface (GPtr t x) b \<longleftrightarrow> b = GPtr t x)"
proof -
  have "equal_iface a a \<longleftrightarrow> \<not> is_func a \<and> (\<forall>x. a = GFloat64 x \<longrightarrow> \<not> f64_nan x) \<and> (\<forall>x. a = GFloat32 x \<longrightarrow> \<not> f32_nan x)"
    using comparable_iff [of a] by (simp add: comparable_def)
  then show ?thesis using equal_iface_sym [of a b] equal_iface_trans [of a b c] equal_iface_ptr(1) [of t x b] by blast
qed

lemma equal_iface_equivalence_witness:
  "equal_iface (GString ''x'') (GString ''x'')"
  using equal_iface_equivalence [of "GString ''x''" "GString ''x''" "GString ''x''" TSubscription 0] by simp

end
