(* ===== verification/Auth_File.thy ===== *)
theory Auth_File
  imports Hmq_Prelude
begin

text \<open>
  The file-based access control plugin (\<^verbatim>\<open>plugins/auth/authfile\<close>): the rules and the
  first-match decision (\<^verbatim>\<open>aclcheck.go\<close>, \<^verbatim>\<open>acl.go\<close>), topic splitting
  (\<^verbatim>\<open>spilt.go\<close>) and the parser of the rule file (\<^verbatim>\<open>aclconfig.go\<close>).
\<close>

section \<open>Rules\<close>

definition aSUB :: string where "aSUB = ''1''"
definition aPUB :: string where "aPUB = ''2''"
definition aPUBSUB :: string where "aPUBSUB = ''3''"
definition CLIENTID :: string where "CLIENTID = ''clientid''"
definition USERNAME :: string where "USERNAME = ''username''"
definition IP :: string where "IP = ''ip''"
definition ALLOW :: string where "ALLOW = ''allow''"
definition DENY :: string where "DENY = ''deny''"

lemmas acl_consts =
  aSUB_def aPUB_def aPUBSUB_def CLIENTID_def USERNAME_def IP_def ALLOW_def DENY_def

lemma acl_consts_distinct [simp]:
  "aSUB \<noteq> aPUB" "aPUB \<noteq> aSUB" "aSUB \<noteq> aPUBSUB" "aPUBSUB \<noteq> aSUB" "aPUB \<noteq> aPUBSUB" "aPUBSUB \<noteq> aPUB"
  "CLIENTID \<noteq> USERNAME" "USERNAME \<noteq> CLIENTID" "CLIENTID \<noteq> IP" "IP \<noteq> CLIENTID" "USERNAME \<noteq> IP" "IP \<noteq> USERNAME"
  "ALLOW \<noteq> DENY" "DENY \<noteq> ALLOW"
  by (auto simp: acl_consts)

record AuthInfo =
  Auth :: string
  Typ :: string
  Val :: string
  PubSub :: string
  AclTopics :: "string list"

record ACLConfig =
  File :: string
  Info :: "AuthInfo list"

section \<open>Splitting topics\<close>

datatype split_error = ErrHashIndex | ErrEmptyMiddle | ErrPlusIndex | ErrPublishWildcard

fun subscribeLoop :: "nat \<Rightarrow> nat \<Rightarrow> string list \<Rightarrow> split_error + string list" where
  "subscribeLoop n i [] = Inr []"
| "subscribeLoop n i (v # vs) =
     (if i \<noteq> 0 \<and> i \<noteq> n - 1 then
        (if v = [] then Inl ErrEmptyMiddle
         else if CHR ''+'' \<in> set v \<and> v \<noteq> ''+'' then Inl ErrPlusIndex
         else map_sum id ((#) v) (subscribeLoop n (i + 1) vs))
      else map_sum id ((#) (if v = [] then ''/'' else v)) (subscribeLoop n (i + 1) vs))"

definition SubscribeTopicSpilt :: "string \<Rightarrow> split_error + string list" where
  "SubscribeTopicSpilt topic =
     (case indexOf (\<lambda>c. c = CHR ''#'') topic of
        Some i \<Rightarrow>
          if i \<noteq> length topic - 1 then Inl ErrHashIndex
          else (let re = splitc (CHR ''/'') topic in subscribeLoop (length re) 0 re)
      | None \<Rightarrow> (let re = splitc (CHR ''/'') topic in subscribeLoop (length re) 0 re))"

fun publishLoop :: "nat \<Rightarrow> nat \<Rightarrow> string list \<Rightarrow> split_error + string list" where
  "publishLoop n i [] = Inr []"
| "publishLoop n i (v # vs) =
     (if v = [] then
        (if i \<noteq> 0 \<and> i \<noteq> n - 1 then Inl ErrEmptyMiddle
         else map_sum id ((#) ''/'') (publishLoop n (i + 1) vs))
      else map_sum id ((#) v) (publishLoop n (i + 1) vs))"

definition PublishTopicSpilt :: "string \<Rightarrow> split_error + string list" where
  "PublishTopicSpilt topic =
     (if indexOf (\<lambda>c. c = CHR ''#'') topic \<noteq> None \<or> indexOf (\<lambda>c. c = CHR ''+'') topic \<noteq> None
      then Inl ErrPublishWildcard
      else (let re = splitc (CHR ''/'') topic in publishLoop (length re) 0 re))"

text \<open>The callers drop the error, which leaves a nil slice.\<close>

definition orNil :: "split_error + string list \<Rightarrow> string list" where
  "orNil r = (case r of Inl _ \<Rightarrow> [] | Inr xs \<Rightarrow> xs)"

section \<open>Matching a topic against a rule's topic\<close>

fun pubMatchLoop :: "string list \<Rightarrow> nat \<Rightarrow> string list \<Rightarrow> bool" where
  "pubMatchLoop topic i [] = True"
| "pubMatchLoop topic i (t # ts) =
     (if length topic \<le> i then False
      else if t = ''#'' then True
      else if t = ''+'' \<or> t = topic ! i then pubMatchLoop topic (i + 1) ts
      else False)"

definition pubTopicMatch :: "string \<Rightarrow> string \<Rightarrow> bool" where
  "pubTopicMatch pub des = pubMatchLoop (orNil (PublishTopicSpilt pub)) 0 (orNil (SubscribeTopicSpilt des))"

fun subMatchLoop :: "string list \<Rightarrow> nat \<Rightarrow> string list \<Rightarrow> bool" where
  "subMatchLoop topic i [] = True"
| "subMatchLoop topic i (t # ts) =
     (if length topic \<le> i then False
      else if t = ''#'' then True
      else if t = ''+'' \<or> topic ! i = ''+'' \<or> t = topic ! i then subMatchLoop topic (i + 1) ts
      else False)"

definition subTopicMatch :: "string \<Rightarrow> string \<Rightarrow> bool" where
  "subTopicMatch pub des = subMatchLoop (orNil (SubscribeTopicSpilt pub)) 0 (orNil (SubscribeTopicSpilt des))"

section \<open>One rule\<close>

definition checkAuth :: "AuthInfo \<Rightarrow> string \<Rightarrow> bool" where
  "checkAuth a action =
     (if action = aPUB then
        (if Auth a = ALLOW \<and> (PubSub a = aPUB \<or> PubSub a = aPUBSUB) then True
         else if Auth a = DENY \<and> PubSub a = aSUB then True else False)
      else if action = aSUB then
        (if Auth a = ALLOW \<and> (PubSub a = aSUB \<or> PubSub a = aPUBSUB) then True
         else if Auth a = DENY \<and> PubSub a = aPUB then True else False)
      else False)"

text \<open>
  The loop over the topics of a rule, which the three methods share but for the value compared and
  the placeholder replaced: \<open>des\<close> is what the method makes of a topic of the rule. The pair is
  \<^verbatim>\<open>(match, auth)\<close>.
\<close>

definition checkTopics :: "AuthInfo \<Rightarrow> string \<Rightarrow> string \<Rightarrow> (string \<Rightarrow> string) \<Rightarrow> bool \<times> bool" where
  "checkTopics a action topic des =
     foldl (\<lambda>r tp.
       if action = aPUB then (if pubTopicMatch topic (des tp) then (True, checkAuth a aPUB) else r)
       else if action = aSUB then (if subTopicMatch topic (des tp) then (True, checkAuth a aSUB) else r)
       else r) (False, False) (AclTopics a)"

definition checkWithClientID :: "AuthInfo \<Rightarrow> string \<Rightarrow> string \<Rightarrow> string \<Rightarrow> bool \<times> bool" where
  "checkWithClientID a action clientid topic =
     (if Val a = ''*'' \<or> Val a = clientid then checkTopics a action topic (replaceAll ''%c'' clientid)
      else (False, False))"

definition checkWithUsername :: "AuthInfo \<Rightarrow> string \<Rightarrow> string \<Rightarrow> string \<Rightarrow> bool \<times> bool" where
  "checkWithUsername a action username topic =
     (if Val a = ''*'' \<or> Val a = username then checkTopics a action topic (replaceAll ''%u'' username)
      else (False, False))"

definition checkWithIP :: "AuthInfo \<Rightarrow> string \<Rightarrow> string \<Rightarrow> string \<Rightarrow> bool \<times> bool" where
  "checkWithIP a action ip topic =
     (if Val a = ''*'' \<or> Val a = ip then checkTopics a action topic (\<lambda>tp. tp) else (False, False))"

section \<open>The rule list\<close>

fun checkRules :: "AuthInfo list \<Rightarrow> string \<Rightarrow> string \<Rightarrow> string \<Rightarrow> string \<Rightarrow> string \<Rightarrow> bool" where
  "checkRules [] action ip username clientid topic = False"
| "checkRules (info # rest) action ip username clientid topic =
     (let r = (if Typ info = CLIENTID then checkWithClientID info action clientid topic
               else if Typ info = USERNAME then checkWithUsername info action username topic
               else if Typ info = IP then checkWithIP info action ip topic
               else (False, False))
      in if fst r then snd r else checkRules rest action ip username clientid topic)"

definition checkTopicAuth :: "ACLConfig \<Rightarrow> string \<Rightarrow> string \<Rightarrow> string \<Rightarrow> string \<Rightarrow> string \<Rightarrow> bool" where
  "checkTopicAuth cfg action ip username clientid topic = checkRules (Info cfg) action ip username clientid topic"

definition aclCheckACL :: "ACLConfig \<Rightarrow> string \<Rightarrow> string \<Rightarrow> string \<Rightarrow> string \<Rightarrow> string \<Rightarrow> bool" where
  "aclCheckACL cfg action clientID username ip topic = checkTopicAuth cfg action ip username clientID topic"

definition aclCheckConnect :: "ACLConfig \<Rightarrow> string \<Rightarrow> string \<Rightarrow> string \<Rightarrow> bool" where
  "aclCheckConnect cfg clientID username password = True"

section \<open>The rule file\<close>

text \<open>
  The file is its content and what ended the reading: the end of the file or another error.
  \<open>readString\<close> is \<^verbatim>\<open>buf.ReadString('\n')\<close>: the line with its newline, the rest, and
  whether the reader came to the end.
\<close>

datatype read_end = EOF | ReadError string

datatype load_error = ErrOpen string | ErrFormat string | ErrRead string

definition readString :: "string \<Rightarrow> string \<times> string \<times> bool" where
  "readString s =
     (if CHR 0x0A \<in> set s
      then (takeWhile (\<lambda>c. c \<noteq> CHR 0x0A) s @ [CHR 0x0A], tl (dropWhile (\<lambda>c. c \<noteq> CHR 0x0A) s), False)
      else (s, [], True))"

definition isCommentOut :: "string \<Rightarrow> bool" where
  "isCommentOut line = (hasPrefix line ''#'' \<or> hasPrefix line '';'' \<or> hasPrefix line ''//'' \<or> hasPrefix line ''*'')"

text \<open>The fields of a line as a rule, \<open>None\<close> when one of the four format checks refuses them.\<close>

definition ruleOf :: "string list \<Rightarrow> AuthInfo option" where
  "ruleOf tmpArr =
     (if length tmpArr \<noteq> 5 then None
      else if tmpArr ! 0 \<noteq> ALLOW \<and> tmpArr ! 0 \<noteq> DENY then None
      else if tmpArr ! 1 \<noteq> CLIENTID \<and> tmpArr ! 1 \<noteq> USERNAME \<and> tmpArr ! 1 \<noteq> IP then None
      else if tmpArr ! 3 \<noteq> aPUB \<and> tmpArr ! 3 \<noteq> aSUB \<and> tmpArr ! 3 \<noteq> aPUBSUB then None
      else
        (let topicStr = replaceAll [CHR 0x0A] [] (replaceAll '' '' [] (tmpArr ! 4)) in
         Some \<lparr>Auth = tmpArr ! 0, Typ = tmpArr ! 1, Val = tmpArr ! 2, PubSub = tmpArr ! 3,
               AclTopics = splitc (CHR '','') topicStr\<rparr>))"

lemma readString_shorter:
  assumes "s \<noteq> []" "readString s = (raw, rest, e)"
  shows "length rest < length s"
proof (cases "CHR 0x0A \<in> set s")
  case True
  let ?d = "dropWhile (\<lambda>c. c \<noteq> CHR 0x0A) s"
  have "?d \<noteq> []" using True by (simp add: dropWhile_eq_Nil_conv)
  then have "length (tl ?d) < length ?d" by simp
  also have "length ?d \<le> length s" by (rule length_dropWhile_le)
  finally have "length (tl ?d) < length s" .
  moreover have "rest = tl ?d" using assms(2) True by (simp add: readString_def)
  ultimately show ?thesis by (simp only:)
next
  case False
  then show ?thesis using assms by (simp add: readString_def)
qed

lemma readString_shorter': "(raw, rest, e) = readString s \<Longrightarrow> s \<noteq> [] \<Longrightarrow> length rest < length s"
  using readString_shorter by metis

lemma readString_Nil: "readString [] = ([], [], True)"
  by (simp add: readString_def)

lemma comment_nonempty: "isCommentOut (trimSpace []) = False"
  by (simp add: trimSpace_def trim_left.simps [of "[]"] trim_right.simps [of "[]"] isCommentOut_def hasPrefix_def)

function praseLoop :: "read_end \<Rightarrow> AuthInfo list \<Rightarrow> string \<Rightarrow> AuthInfo list \<times> load_error option" where
  "praseLoop fin info s =
     (case readString s of (raw, rest, ended) \<Rightarrow>
        (let line = trimSpace raw in
         if isCommentOut line then praseLoop fin info rest
         else if line = [] then (info, None)
         else (case ruleOf (stringFields line) of
            None \<Rightarrow> (info, Some (ErrFormat line))
          | Some rule \<Rightarrow>
              if ended then (info @ [rule], case fin of EOF \<Rightarrow> None | ReadError e \<Rightarrow> Some (ErrRead e))
              else praseLoop fin (info @ [rule]) rest)))"
  by pat_completeness auto
termination
proof (relation "measure (\<lambda>(fin, info, s). length s)", goal_cases)
  case 1
  then show ?case by simp
next
  case (2 fin info s raw p rest ended line)
  then have "s \<noteq> []" using comment_nonempty by (auto simp: readString_Nil)
  with 2 show ?case by (auto dest: readString_shorter')
next
  case (3 fin info s raw p rest ended line rule)
  then have "s \<noteq> []" by (auto simp: readString_Nil)
  with 3 show ?case by (auto dest: readString_shorter')
qed

declare praseLoop.simps [simp del]

text \<open>The file system is a parameter: the content of a file, or the error of opening it.\<close>

definition AclConfigLoad :: "(string \<Rightarrow> string + (string \<times> read_end)) \<Rightarrow> string \<Rightarrow> load_error + ACLConfig" where
  "AclConfigLoad fs file =
     (case fs file of
        Inl e \<Rightarrow> Inl (ErrOpen e)
      | Inr (content, fin) \<Rightarrow>
          (case praseLoop fin [] content of
             (info, Some e) \<Rightarrow> Inl e
           | (info, None) \<Rightarrow> Inr \<lparr>File = file, Info = info\<rparr>))"

end
