(* ===== verification/Auth_File_Laws.thy ===== *)
theory Auth_File_Laws
  imports Auth_File
begin

text \<open>
  What the access control plugin decides and what its parser accepts: the rule loop as a
  first-match decision, the topic matching as a relation on level lists, the rules a file can
  contain, and the round trip from rules to a file and back.
\<close>

section \<open>Matching\<close>

fun aclMatch :: "string list \<Rightarrow> string list \<Rightarrow> bool" where
  "aclMatch [] ts = True"
| "aclMatch (d # ds) [] = False"
| "aclMatch (d # ds) (t # ts) = (d = ''#'' \<or> (d = ''+'' \<or> d = t) \<and> aclMatch ds ts)"

fun aclMatchSub :: "string list \<Rightarrow> string list \<Rightarrow> bool" where
  "aclMatchSub [] ts = True"
| "aclMatchSub (d # ds) [] = False"
| "aclMatchSub (d # ds) (t # ts) = (d = ''#'' \<or> (d = ''+'' \<or> t = ''+'' \<or> d = t) \<and> aclMatchSub ds ts)"

lemma pubMatchLoop_eq: "pubMatchLoop ts i ds = aclMatch ds (drop i ts)"
proof (induction ts i ds rule: pubMatchLoop.induct)
  case (1 ts i)
  then show ?case by simp
next
  case (2 ts i d ds)
  show ?case
  proof (cases "length ts \<le> i")
    case False
    then have "drop i ts = ts ! i # drop (Suc i) ts" by (simp add: Cons_nth_drop_Suc)
    with False 2 show ?thesis by auto
  qed simp
qed

lemma subMatchLoop_eq: "subMatchLoop ts i ds = aclMatchSub ds (drop i ts)"
proof (induction ts i ds rule: subMatchLoop.induct)
  case (1 ts i)
  then show ?case by simp
next
  case (2 ts i d ds)
  show ?case
  proof (cases "length ts \<le> i")
    case False
    then have "drop i ts = ts ! i # drop (Suc i) ts" by (simp add: Cons_nth_drop_Suc)
    with False 2 show ?thesis by auto
  qed simp
qed

lemma pubTopicMatch_eq:
  "pubTopicMatch pub des = aclMatch (orNil (SubscribeTopicSpilt des)) (orNil (PublishTopicSpilt pub))"
  by (simp add: pubTopicMatch_def pubMatchLoop_eq)

lemma subTopicMatch_eq:
  "subTopicMatch pub des = aclMatchSub (orNil (SubscribeTopicSpilt des)) (orNil (SubscribeTopicSpilt pub))"
  by (simp add: subTopicMatch_def subMatchLoop_eq)

text \<open>The loop ends with the rule's levels: whatever follows in the topic is not looked at.\<close>

lemma aclMatch_extends: "aclMatch ds ts \<Longrightarrow> aclMatch ds (ts @ tail)"
  by (induction ds ts rule: aclMatch.induct) auto

lemma aclMatch_prefix:
  "\<forall>d \<in> set ds. d \<noteq> ''#'' \<and> d \<noteq> ''+'' \<Longrightarrow> aclMatch ds ts \<longleftrightarrow> (\<exists>tail. ts = ds @ tail)"
  by (induction ds ts rule: aclMatch.induct) auto

text \<open>A publish match is a subscribe match of the same levels.\<close>

lemma aclMatch_sub: "aclMatch ds ts \<Longrightarrow> aclMatchSub ds ts"
  by (induction ds ts rule: aclMatch.induct) auto

section \<open>The decision\<close>

definition topicHit :: "string \<Rightarrow> string \<Rightarrow> string \<Rightarrow> bool" where
  "topicHit action topic des =
     (if action = aPUB then pubTopicMatch topic des
      else if action = aSUB then subTopicMatch topic des else False)"

lemma checkTopics_eq:
  "checkTopics a action topic des =
     (let hit = list_ex (\<lambda>tp. topicHit action topic (des tp)) (AclTopics a) in (hit, hit \<and> checkAuth a action))"
proof -
  let ?step = "\<lambda>r tp.
       if action = aPUB then (if pubTopicMatch topic (des tp) then (True, checkAuth a aPUB) else r)
       else if action = aSUB then (if subTopicMatch topic (des tp) then (True, checkAuth a aSUB) else r)
       else r"
  have "foldl ?step r xs = (if list_ex (\<lambda>tp. topicHit action topic (des tp)) xs then (True, checkAuth a action) else r)" for r xs
    by (induction xs arbitrary: r) (auto simp: topicHit_def)
  then show ?thesis by (auto simp: checkTopics_def Let_def)
qed

text \<open>Whom a rule is about, and what its topics become for that client.\<close>

definition subjectOf :: "AuthInfo \<Rightarrow> string \<Rightarrow> string \<Rightarrow> string \<Rightarrow> string option" where
  "subjectOf r ip username clientid =
     (if Typ r = CLIENTID then Some clientid
      else if Typ r = USERNAME then Some username
      else if Typ r = IP then Some ip else None)"

definition placeholder :: "AuthInfo \<Rightarrow> string \<Rightarrow> string \<Rightarrow> string" where
  "placeholder r subject =
     (if Typ r = CLIENTID then replaceAll ''%c'' subject
      else if Typ r = USERNAME then replaceAll ''%u'' subject else (\<lambda>tp. tp))"

definition ruleApplies :: "string \<Rightarrow> string \<Rightarrow> string \<Rightarrow> string \<Rightarrow> string \<Rightarrow> AuthInfo \<Rightarrow> bool" where
  "ruleApplies action ip username clientid topic r =
     (case subjectOf r ip username clientid of
        None \<Rightarrow> False
      | Some subject \<Rightarrow>
          (Val r = ''*'' \<or> Val r = subject)
          \<and> list_ex (\<lambda>tp. topicHit action topic (placeholder r subject tp)) (AclTopics r))"

lemma checkRules_first_match:
  "checkRules rs action ip username clientid topic =
     (case find (ruleApplies action ip username clientid topic) rs of
        None \<Rightarrow> False | Some r \<Rightarrow> checkAuth r action)"
proof (induction rs)
  case Nil
  then show ?case by simp
next
  case (Cons r rs)
  have "(if Typ r = CLIENTID then checkWithClientID r action clientid topic
               else if Typ r = USERNAME then checkWithUsername r action username topic
               else if Typ r = IP then checkWithIP r action ip topic
               else (False, False))
      = (ruleApplies action ip username clientid topic r,
         ruleApplies action ip username clientid topic r \<and> checkAuth r action)"
    by (auto simp: checkWithClientID_def checkWithUsername_def checkWithIP_def ruleApplies_def
        subjectOf_def placeholder_def checkTopics_eq Let_def)
  with Cons show ?case by (simp add: Let_def)
qed

text \<open>What a rule grants: allowing grants its own actions, denying the opposite one.\<close>

lemma checkAuth_table:
  "checkAuth a action \<longleftrightarrow>
     (action = aPUB \<and> (Auth a = ALLOW \<and> PubSub a \<in> {aPUB, aPUBSUB} \<or> Auth a = DENY \<and> PubSub a = aSUB))
     \<or> (action = aSUB \<and> (Auth a = ALLOW \<and> PubSub a \<in> {aSUB, aPUBSUB} \<or> Auth a = DENY \<and> PubSub a = aPUB))"
  by (auto simp: checkAuth_def)

section \<open>The parser\<close>

definition wf_rule :: "AuthInfo \<Rightarrow> bool" where
  "wf_rule r =
     ((Auth r = ALLOW \<or> Auth r = DENY) \<and> (Typ r = CLIENTID \<or> Typ r = USERNAME \<or> Typ r = IP)
      \<and> (PubSub r = aPUB \<or> PubSub r = aSUB \<or> PubSub r = aPUBSUB) \<and> AclTopics r \<noteq> [])"

lemma ruleOf_wf: "ruleOf xs = Some r \<Longrightarrow> wf_rule r"
  by (auto simp: ruleOf_def wf_rule_def Let_def split: if_splits)

lemma praseLoop_wf: "list_all wf_rule info \<Longrightarrow> list_all wf_rule (fst (praseLoop fin info s))"
proof (induction fin info s rule: praseLoop.induct)
  case (1 fin info s)
  show ?case
    using "1.prems" "1.IH" ruleOf_wf
    by (subst praseLoop.simps) (auto simp: Let_def split: prod.split option.split)
qed

text \<open>Rules are only appended: what was read before an error or a blank line stays.\<close>

lemma praseLoop_appends: "\<exists>tail. fst (praseLoop fin info s) = info @ tail"
proof (induction fin info s rule: praseLoop.induct)
  case (1 fin info s)
  obtain raw rest ended where rs: "readString s = (raw, rest, ended)" by (cases "readString s")
  note ih = "1.IH" [OF rs [symmetric] refl refl]
  consider (comment) "isCommentOut (trimSpace raw)"
    | (stop) "\<not> isCommentOut (trimSpace raw)" "trimSpace raw = [] \<or> ruleOf (stringFields (trimSpace raw)) = None"
    | (rule) r where "\<not> isCommentOut (trimSpace raw)" "trimSpace raw \<noteq> []"
        "ruleOf (stringFields (trimSpace raw)) = Some r"
    by auto
  then show ?case
  proof cases
    case comment
    with ih(1) rs show ?thesis by (subst praseLoop.simps) simp
  next
    case stop
    with rs show ?thesis by (subst praseLoop.simps) (auto simp: Let_def)
  next
    case (rule r)
    then have "\<not> ended \<Longrightarrow> \<exists>tail. fst (praseLoop fin (info @ [r]) rest) = (info @ [r]) @ tail"
      using ih(2) by simp
    with rule rs show ?thesis by (subst praseLoop.simps) auto
  qed
qed

section \<open>Writing rules and reading them back\<close>

definition printable :: "char \<Rightarrow> bool" where
  "printable c = (33 \<le> byteval c \<and> byteval c \<le> 126)"

definition renderRule :: "AuthInfo \<Rightarrow> string" where
  "renderRule r =
     Auth r @ '' '' @ Typ r @ '' '' @ Val r @ '' '' @ PubSub r @ '' '' @ joinc (CHR '','') (AclTopics r)
     @ [CHR 0x0A]"

definition writable :: "AuthInfo \<Rightarrow> bool" where
  "writable r =
     (wf_rule r \<and> Val r \<noteq> [] \<and> list_all printable (Val r)
      \<and> list_all (\<lambda>t. list_all (\<lambda>c. printable c \<and> c \<noteq> CHR '','') t) (AclTopics r)
      \<and> joinc (CHR '','') (AclTopics r) \<noteq> [])"

lemma space_len_printable: "printable c \<Longrightarrow> space_len (c # r) = 0"
  by (auto simp: printable_def Let_def split: list.split)

lemma space_len_blank [simp]: "space_len (CHR '' '' # r) = 1" "space_len (CHR 0x0A # r) = 1"
  by (auto simp: byteval_def Let_def)

declare space_len.simps [simp del]

lemma fieldsFrom_token:
  "list_all printable tok \<Longrightarrow> fieldsFrom cur (tok @ r) = fieldsFrom (cur @ tok) r"
  by (induction tok arbitrary: cur) (auto simp: space_len_printable)

lemma fieldsFrom_blank:
  "list_all printable tok \<Longrightarrow> tok \<noteq> [] \<Longrightarrow> fieldsFrom [] (tok @ CHR '' '' # r) = tok # fieldsFrom [] r"
  by (simp add: fieldsFrom_token)

lemma fields_five:
  assumes "list_all (\<lambda>t. list_all printable t \<and> t \<noteq> []) [a, b, c, d, e]"
  shows "stringFields (a @ '' '' @ b @ '' '' @ c @ '' '' @ d @ '' '' @ e) = [a, b, c, d, e]"
  using assms fieldsFrom_token [of e "[]" "[]"] by (simp add: stringFields_def fieldsFrom_blank)

definition texty :: "string \<Rightarrow> bool" where
  "texty l = (list_all (\<lambda>c. printable c \<or> c = CHR '' '') l \<and> l \<noteq> [] \<and> printable (hd l) \<and> printable (last l))"

lemma space_len_texty: "printable c \<or> c = CHR '' '' \<Longrightarrow> space_len (c # r) \<le> 1"
  by (auto simp: space_len_printable)

lemma trim_right_texty:
  assumes "texty l"
  shows "trim_right l = l"
proof -
  have ne: "l \<noteq> []" using assms by (simp add: texty_def)
  have le: "space_len (drop k l) \<le> 1" if "k < length l" for k
  proof -
    have "drop k l = l ! k # drop (Suc k) l" using that by (simp add: Cons_nth_drop_Suc)
    moreover have "printable (l ! k) \<or> l ! k = CHR '' ''"
      using assms that by (auto simp: texty_def list_all_length)
    ultimately show ?thesis using space_len_texty by simp
  qed
  have "drop (length l - 1) l = [last l]" using ne by (metis append_butlast_last_id append_eq_conv_conj length_butlast)
  then have last: "space_len (drop (length l - 1) l) = 0"
    using assms by (simp add: texty_def space_len_printable)
  show ?thesis
    using last le [of "length l - 2"] le [of "length l - 3"] ne by (subst trim_right.simps) auto
qed

lemma trimSpace_line:
  assumes "texty l"
  shows "trimSpace (l @ [CHR 0x0A]) = l"
proof -
  obtain c r where l: "l = c # r" "printable c" using assms by (cases l) (auto simp: texty_def)
  then have "trim_left (l @ [CHR 0x0A]) = l @ [CHR 0x0A]"
    by (subst trim_left.simps) (simp add: space_len_printable)
  moreover have "trim_right (l @ [CHR 0x0A]) = trim_right l"
    by (subst trim_right.simps) simp
  ultimately show ?thesis by (simp add: trimSpace_def trim_right_texty [OF assms])
qed

lemma readString_line:
  "CHR 0x0A \<notin> set l \<Longrightarrow> readString (l @ CHR 0x0A # rest) = (l @ [CHR 0x0A], rest, False)"
proof -
  assume "CHR 0x0A \<notin> set l"
  then have "takeWhile (\<lambda>c. c \<noteq> CHR 0x0A) (l @ CHR 0x0A # rest) = l"
    "dropWhile (\<lambda>c. c \<noteq> CHR 0x0A) (l @ CHR 0x0A # rest) = CHR 0x0A # rest"
    by (induction l) auto
  then show ?thesis by (simp add: readString_def)
qed

lemma not_printable [simp]: "\<not> printable (CHR 0x0A)" "\<not> printable (CHR '' '')"
  by (auto simp: printable_def byteval_def)

lemma joinc_set: "set (joinc c ps) \<subseteq> insert c (\<Union> (set ` set ps))"
  by (induction c ps rule: joinc.induct) auto

lemma writable_parts:
  assumes "writable r"
  defines "e \<equiv> joinc (CHR '','') (AclTopics r)"
  shows "list_all (\<lambda>t. list_all printable t \<and> t \<noteq> []) [Auth r, Typ r, Val r, PubSub r, e]"
proof -
  have "printable (CHR '','')" by (simp add: printable_def byteval_def)
  then have "list_all printable e"
    using assms joinc_set [of "CHR '',''" "AclTopics r"] by (fastforce simp: writable_def list_all_iff)
  then show ?thesis
    using assms by (auto simp: writable_def wf_rule_def acl_consts printable_def byteval_def)
qed

lemma ruleOf_written:
  assumes "writable r"
  shows "ruleOf [Auth r, Typ r, Val r, PubSub r, joinc (CHR '','') (AclTopics r)] = Some r"
proof -
  let ?e = "joinc (CHR '','') (AclTopics r)"
  have "list_all printable ?e" using writable_parts [OF assms] by simp
  then have "CHR 0x0A \<notin> set ?e" "CHR '' '' \<notin> set ?e" by (auto simp: list_all_iff)
  then have "replaceAll [CHR 0x0A] [] ?e = ?e" "replaceAll '' '' [] ?e = ?e"
    by (auto intro!: replaceAll_absent)
  moreover have "splitc (CHR '','') ?e = AclTopics r"
    using assms by (intro splitc_joinc) (auto simp: writable_def wf_rule_def list_all_iff)
  ultimately show ?thesis using assms by (auto simp: ruleOf_def writable_def wf_rule_def Let_def)
qed

lemma texty_append:
  "list_all printable a \<Longrightarrow> a \<noteq> [] \<Longrightarrow> texty b \<Longrightarrow> texty (a @ CHR '' '' # b)"
  by (auto simp: texty_def list_all_iff)

lemma texty_token: "list_all printable a \<Longrightarrow> a \<noteq> [] \<Longrightarrow> texty a"
  by (auto simp: texty_def list_all_iff)

lemma prase_written_then:
  assumes "list_all writable rs"
  shows "praseLoop fin info (concat (map renderRule rs) @ rest) = praseLoop fin (info @ rs) rest"
  using assms
proof (induction rs arbitrary: info)
  case Nil
  then show ?case by simp
next
  case (Cons r rs)
  let ?e = "joinc (CHR '','') (AclTopics r)" and ?more = "concat (map renderRule rs) @ rest"
  define l where "l = Auth r @ '' '' @ Typ r @ '' '' @ Val r @ '' '' @ PubSub r @ '' '' @ ?e"
  have w: "writable r" using Cons.prems by simp
  note parts = writable_parts [OF w]
  have tx: "texty l" using parts by (simp add: l_def texty_append texty_token)
  then have nl: "CHR 0x0A \<notin> set l" by (auto simp: texty_def list_all_iff)
  have render: "concat (map renderRule (r # rs)) @ rest = l @ CHR 0x0A # ?more"
    by (simp add: renderRule_def l_def)
  have "\<not> isCommentOut l" using w by (auto simp: l_def isCommentOut_def hasPrefix_def writable_def wf_rule_def acl_consts)
  moreover have "stringFields l = [Auth r, Typ r, Val r, PubSub r, ?e]"
    unfolding l_def by (rule fields_five [OF parts])
  moreover have "l \<noteq> []" using tx by (simp add: texty_def)
  ultimately have "praseLoop fin info (l @ CHR 0x0A # ?more) = praseLoop fin (info @ [r]) ?more"
    by (subst praseLoop.simps)
      (simp add: readString_line [OF nl] trimSpace_line [OF tx] ruleOf_written [OF w])
  also have "\<dots> = praseLoop fin (info @ r # rs) rest" using Cons by simp
  finally show ?case by (simp only: render)
qed

text \<open>What ends a file: nothing more, a blank line, or a line that is not a rule.\<close>

lemma trimSpace_Nil [simp]: "trimSpace [] = []"
  by (simp add: trimSpace_def trim_left.simps [of "[]"] trim_right.simps [of "[]"])

lemma prase_end: "praseLoop fin info [] = (info, None)"
  by (simp add: praseLoop.simps [of _ _ "[]"] readString_Nil isCommentOut_def hasPrefix_def)

lemma prase_written: "list_all writable rs \<Longrightarrow> praseLoop fin info (concat (map renderRule rs)) = (info @ rs, None)"
  using prase_written_then [of rs fin info "[]"] by (simp add: prase_end)

lemma prase_stop:
  assumes "CHR 0x0A \<notin> set l" "line = trimSpace (l @ [CHR 0x0A])" "\<not> isCommentOut line"
    and "line = [] \<or> ruleOf (stringFields line) = None"
  shows "praseLoop fin info (l @ CHR 0x0A # rest) = (info, if line = [] then None else Some (ErrFormat line))"
  using assms by (subst praseLoop.simps) (auto simp: readString_line)

end
