(* ===== verification/Auth.thy ===== *)
theory Auth
  imports Auth_File_Laws
begin

text \<open>
  Authorisation (\<^verbatim>\<open>plugins/auth\<close>, \<^verbatim>\<open>broker/auth.go\<close>): the HTTP plugin with its cache, the
  mock, the interface \<^verbatim>\<open>Auth\<close> as a locale that all three plugins interpret, the choice of a
  plugin by name, and the broker's two entry points.
\<close>

section \<open>The HTTP plugin\<close>

text \<open>
  What is sent to the authorisation server and what came back. The encoding of the form values and
  the transport belong to the standard library and the network: \<open>srv\<close> gives the outcome of a
  request. The cache is \<^verbatim>\<open>github.com/patrickmn/go-cache\<close>, not part of the repository: the
  model keeps the entries that were set, and the parameter \<open>cget\<close> says what \<^verbatim>\<open>Get\<close> finds.
\<close>

datatype auth_request =
    ConnectReq (rqUsername: string) (rqClientid: string) (rqPassword: string)
  | AclReq (rqUsername: string) (rqTopic: string) (rqAccess: string)

datatype auth_response = NewRequestErr | DoErr | StatusCode int

record authCache =
  cAction :: string
  cUsername :: string
  cClientID :: string
  cPassword :: string
  cTopic :: string

record authHTTP =
  cacheSets :: "authCache list"
  asked :: "(auth_request \<times> auth_response) list"

type_synonym cache_get = "authCache list \<Rightarrow> string \<Rightarrow> authCache option"

definition checkCache :: "cache_get \<Rightarrow> string \<Rightarrow> authHTTP \<Rightarrow> authCache option" where
  "checkCache cget username a = cget (cacheSets a) username"

definition addCache :: "string \<Rightarrow> string \<Rightarrow> string \<Rightarrow> string \<Rightarrow> string \<Rightarrow> authHTTP \<Rightarrow> authHTTP" where
  "addCache action clientID username password topic a =
     a\<lparr>cacheSets := cacheSets a @ [\<lparr>cAction = action, cUsername = username, cClientID = clientID,
        cPassword = password, cTopic = topic\<rparr>]\<rparr>"

definition ask :: "(auth_request \<Rightarrow> auth_response) \<Rightarrow> auth_request \<Rightarrow> authHTTP \<Rightarrow> authHTTP \<times> bool" where
  "ask srv rq a = (a\<lparr>asked := asked a @ [(rq, srv rq)]\<rparr>, srv rq = StatusCode 200)"

definition httpCheckConnect ::
  "cache_get \<Rightarrow> (auth_request \<Rightarrow> auth_response) \<Rightarrow> string \<Rightarrow> string \<Rightarrow> string \<Rightarrow> authHTTP \<Rightarrow> authHTTP \<times> bool"
where
  "httpCheckConnect cget srv clientID username password a =
     (let action = ''connect'';
          cached = (case checkCache cget username a of
                      None \<Rightarrow> False
                    | Some e \<Rightarrow> cPassword e = password \<and> cUsername e = username \<and> cAction e = action)
      in if cached then (a, True)
         else (case ask srv (ConnectReq username clientID password) a of
           (a1, ok) \<Rightarrow> if ok then (addCache action clientID username password [] a1, True) else (a1, False)))"

definition httpCheckACL ::
  "cache_get \<Rightarrow> (auth_request \<Rightarrow> auth_response) \<Rightarrow> string \<Rightarrow> string \<Rightarrow> string \<Rightarrow> string \<Rightarrow> string \<Rightarrow>
   authHTTP \<Rightarrow> authHTTP \<times> bool"
where
  "httpCheckACL cget srv action clientID username ip topic a =
     (let cached = (case checkCache cget username a of
                      None \<Rightarrow> False
                    | Some e \<Rightarrow> cTopic e = topic \<and> cAction e = action)
      in if cached then (a, True)
         else (case ask srv (AclReq username topic action) a of
           (a1, ok) \<Rightarrow> if ok then (addCache action [] username [] topic a1, True) else (a1, False)))"

text \<open>The documented behaviour of the cache: what is found under a key was set under that key.\<close>

definition cache_sound :: "cache_get \<Rightarrow> bool" where
  "cache_sound cget = (\<forall>sets k e. cget sets k = Some e \<longrightarrow> e \<in> set sets \<and> cUsername e = k)"

text \<open>A cache that finds the entry set last, and one that has forgotten everything, behave so.\<close>

fun lastSet :: "authCache list \<Rightarrow> string \<Rightarrow> authCache option" where
  "lastSet [] k = None"
| "lastSet (e # es) k =
     (case lastSet es k of Some f \<Rightarrow> Some f | None \<Rightarrow> if cUsername e = k then Some e else None)"

lemma lastSet_found: "lastSet es k = Some e \<Longrightarrow> e \<in> set es \<and> cUsername e = k"
  by (induction es) (auto split: option.splits if_splits)

lemma cache_sound_last: "cache_sound lastSet" and cache_sound_empty: "cache_sound (\<lambda>_ _. None)"
  by (auto simp: cache_sound_def lastSet_found)

text \<open>Every entry stands for a request the server approved.\<close>

definition approved :: "auth_request \<Rightarrow> authHTTP \<Rightarrow> bool" where
  "approved rq a = ((rq, StatusCode 200) \<in> set (asked a))"

definition entry_backed :: "authHTTP \<Rightarrow> authCache \<Rightarrow> bool" where
  "entry_backed a e =
     (if cAction e = ''connect'' then approved (ConnectReq (cUsername e) (cClientID e) (cPassword e)) a
      else approved (AclReq (cUsername e) (cTopic e) (cAction e)) a)"

definition http_inv :: "authHTTP \<Rightarrow> bool" where
  "http_inv a = list_all (entry_backed a) (cacheSets a)"

lemma approved_ask: "approved rq a \<Longrightarrow> approved rq (fst (ask srv rq' a))"
  "snd (ask srv rq a) \<Longrightarrow> approved rq (fst (ask srv rq a))"
  by (auto simp: approved_def ask_def)

lemma entry_backed_ask: "entry_backed a e \<Longrightarrow> entry_backed (fst (ask srv rq a)) e"
  by (auto simp: entry_backed_def approved_ask split: if_splits)

lemma http_inv_ask: "http_inv a \<Longrightarrow> http_inv (fst (ask srv rq a))"
proof -
  have "cacheSets (fst (ask srv rq a)) = cacheSets a" by (simp add: ask_def)
  then show "http_inv a \<Longrightarrow> http_inv (fst (ask srv rq a))" by (simp add: http_inv_def list_all_iff entry_backed_ask)
qed

lemma approved_addCache [simp]: "approved rq (addCache x c u p t a) = approved rq a"
  by (simp add: approved_def addCache_def)

lemma http_inv_add:
  assumes "http_inv a" "if x = ''connect'' then approved (ConnectReq u c p) a else approved (AclReq u t x) a"
  shows "http_inv (addCache x c u p t a)"
proof -
  have "entry_backed (addCache x c u p t a) e = entry_backed a e" for e by (simp add: entry_backed_def)
  moreover have "cacheSets (addCache x c u p t a)
      = cacheSets a @ [\<lparr>cAction = x, cUsername = u, cClientID = c, cPassword = p, cTopic = t\<rparr>]"
    by (simp add: addCache_def)
  ultimately show ?thesis using assms by (auto simp: http_inv_def list_all_iff entry_backed_def)
qed

lemma http_found:
  assumes "cache_sound cget" "http_inv a" "checkCache cget u a = Some e"
  shows "cUsername e = u \<and> entry_backed a e"
proof -
  have "e \<in> set (cacheSets a)" "cUsername e = u"
    using assms(1,3) by (auto simp: cache_sound_def checkCache_def)
  with assms(2) show ?thesis by (simp add: http_inv_def list_all_iff)
qed

lemma httpCheckConnect_sound:
  assumes "cache_sound cget" "http_inv a" "httpCheckConnect cget srv c u p a = (a', ok)"
  shows "http_inv a'" and "ok \<Longrightarrow> \<exists>c'. approved (ConnectReq u c' p) a'"
proof -
  let ?hit = "case checkCache cget u a of None \<Rightarrow> False
      | Some e \<Rightarrow> cPassword e = p \<and> cUsername e = u \<and> cAction e = ''connect''"
  have "http_inv a' \<and> (ok \<longrightarrow> (\<exists>c'. approved (ConnectReq u c' p) a'))"
  proof (cases ?hit)
    case True
    then obtain e where "checkCache cget u a = Some e" "cPassword e = p" "cAction e = ''connect''"
      by (auto split: option.splits)
    with http_found [OF assms(1,2)] have "approved (ConnectReq u (cClientID e) p) a"
      by (metis entry_backed_def)
    with True assms(2,3) show ?thesis by (auto simp: httpCheckConnect_def Let_def)
  next
    case False
    with assms(3) http_inv_ask [OF assms(2), of srv "ConnectReq u c p"] approved_ask(2) [of srv "ConnectReq u c p" a]
    show ?thesis
      by (auto simp: httpCheckConnect_def Let_def case_prod_beta intro: http_inv_add split: if_splits)
  qed
  then show "http_inv a'" and "ok \<Longrightarrow> \<exists>c'. approved (ConnectReq u c' p) a'" by auto
qed

lemma httpCheckACL_sound:
  assumes "cache_sound cget" "http_inv a" "x \<noteq> ''connect''" "httpCheckACL cget srv x c u ip t a = (a', ok)"
  shows "http_inv a'" and "ok \<Longrightarrow> approved (AclReq u t x) a'"
proof -
  let ?hit = "case checkCache cget u a of None \<Rightarrow> False | Some e \<Rightarrow> cTopic e = t \<and> cAction e = x"
  have "http_inv a' \<and> (ok \<longrightarrow> approved (AclReq u t x) a')"
  proof (cases ?hit)
    case True
    then obtain e where "checkCache cget u a = Some e" "cTopic e = t" "cAction e = x"
      by (auto split: option.splits)
    with http_found [OF assms(1,2)] assms(3) have "approved (AclReq u t x) a"
      by (metis entry_backed_def)
    with True assms(2,4) show ?thesis by (auto simp: httpCheckACL_def Let_def)
  next
    case False
    with assms(3,4) http_inv_ask [OF assms(2), of srv "AclReq u t x"] approved_ask(2) [of srv "AclReq u t x" a]
    show ?thesis
      by (auto simp: httpCheckACL_def Let_def case_prod_beta intro: http_inv_add split: if_splits)
  qed
  then show "http_inv a'" and "ok \<Longrightarrow> approved (AclReq u t x) a'" by auto
qed

section \<open>The interface\<close>

text \<open>
  What the broker may rely on of a plugin: a call keeps the plugin's invariant, and a grant is backed
  by what the plugin regards as permission, recorded in its state after the call.
\<close>

locale auth_plugin =
  fixes check_acl :: "string \<Rightarrow> string \<Rightarrow> string \<Rightarrow> string \<Rightarrow> string \<Rightarrow> 's \<Rightarrow> 's \<times> bool"
    and check_connect :: "string \<Rightarrow> string \<Rightarrow> string \<Rightarrow> 's \<Rightarrow> 's \<times> bool"
    and inv :: "'s \<Rightarrow> bool"
    and may_access :: "'s \<Rightarrow> string \<Rightarrow> string \<Rightarrow> string \<Rightarrow> string \<Rightarrow> string \<Rightarrow> bool"
    and may_connect :: "'s \<Rightarrow> string \<Rightarrow> string \<Rightarrow> string \<Rightarrow> bool"
  assumes acl_sound:
      "inv s \<Longrightarrow> x = aSUB \<or> x = aPUB \<Longrightarrow> check_acl x c u ip t s = (s', ok) \<Longrightarrow>
       inv s' \<and> (ok \<longrightarrow> may_access s' x c u ip t)"
    and connect_sound:
      "inv s \<Longrightarrow> check_connect c u p s = (s', ok) \<Longrightarrow> inv s' \<and> (ok \<longrightarrow> may_connect s' c u p)"

section \<open>The broker's entry points\<close>

text \<open>
  \<^verbatim>\<open>^\$share/([0-9a-zA-Z_-]+)/(.*)$\<close>: the group and the topic behind it. The group has no
  separator, so it is the longest run of group characters; the dot does not match a newline.
\<close>

definition groupChar :: "char \<Rightarrow> bool" where
  "groupChar c =
     (let n = byteval c in 48 \<le> n \<and> n \<le> 57 \<or> 97 \<le> n \<and> n \<le> 122 \<or> 65 \<le> n \<and> n \<le> 90 \<or> n = 95 \<or> n = 45)"

definition sharePrefix :: string where
  "sharePrefix = ''$share/''"

definition groupMatch :: "string \<Rightarrow> (string \<times> string) option" where
  "groupMatch topic =
     (if hasPrefix topic sharePrefix
      then (let rest = drop (length sharePrefix) topic; g = takeWhile groupChar rest; r = dropWhile groupChar rest
            in case r of
                 [] \<Rightarrow> None
               | c # t \<Rightarrow> if g \<noteq> [] \<and> c = CHR ''/'' \<and> CHR 0x0A \<notin> set t then Some (g, t) else None)
      else None)"

definition sysClients :: string where
  "sysClients = ''$SYS/broker/connection/clients/''"

text \<open>
  A plugin is its two methods as they answer at the time of the call; \<open>None\<close> is the nil
  interface. A plugin with a state returns the new one.
\<close>

type_synonym 's check_acl = "string \<Rightarrow> string \<Rightarrow> string \<Rightarrow> string \<Rightarrow> string \<Rightarrow> 's \<Rightarrow> 's \<times> bool"

definition CheckTopicAuth ::
  "'s check_acl option \<Rightarrow> string \<Rightarrow> string \<Rightarrow> string \<Rightarrow> string \<Rightarrow> string \<Rightarrow> 's \<Rightarrow> 's \<times> bool"
where
  "CheckTopicAuth auth action clientID username ip topic s =
     (case auth of
        None \<Rightarrow> (s, True)
      | Some check \<Rightarrow>
          if hasPrefix topic sysClients then (s, True)
          else if hasPrefix topic sharePrefix \<and> action = aSUB then
            (case groupMatch topic of
               None \<Rightarrow> (s, False)
             | Some (g, t) \<Rightarrow> check action clientID username ip t s)
          else check action clientID username ip topic s)"

definition CheckConnectAuth ::
  "(string \<Rightarrow> string \<Rightarrow> string \<Rightarrow> 's \<Rightarrow> 's \<times> bool) option \<Rightarrow> string \<Rightarrow> string \<Rightarrow> string \<Rightarrow> 's \<Rightarrow> 's \<times> bool"
where
  "CheckConnectAuth auth clientID username password s =
     (case auth of None \<Rightarrow> (s, True) | Some check \<Rightarrow> check clientID username password s)"

text \<open>The topic a grant is about: the one behind the group of a shared subscription.\<close>

definition effectiveTopic :: "string \<Rightarrow> string \<Rightarrow> string" where
  "effectiveTopic action topic =
     (if hasPrefix topic sharePrefix \<and> action = aSUB
      then (case groupMatch topic of None \<Rightarrow> topic | Some (g, t) \<Rightarrow> t) else topic)"

lemma groupMatch_parts:
  "groupMatch topic = Some (g, t) \<longleftrightarrow>
     topic = sharePrefix @ g @ CHR ''/'' # t \<and> g \<noteq> [] \<and> list_all groupChar g \<and> CHR 0x0A \<notin> set t"
proof
  assume m: "groupMatch topic = Some (g, t)"
  then obtain rest where topic: "topic = sharePrefix @ rest"
    by (auto simp: groupMatch_def hasPrefix_iff split: if_splits)
  have split: "takeWhile groupChar rest @ dropWhile groupChar rest = rest" by (rule takeWhile_dropWhile_id)
  with m topic have "rest = g @ CHR ''/'' # t" "g \<noteq> []" "CHR 0x0A \<notin> set t" "g = takeWhile groupChar rest"
    by (auto simp: groupMatch_def hasPrefix_iff Let_def simp del: takeWhile_dropWhile_id split: list.splits if_splits)
  moreover from this have "list_all groupChar g" by (auto simp: list_all_iff dest: set_takeWhileD)
  ultimately show "topic = sharePrefix @ g @ CHR ''/'' # t \<and> g \<noteq> [] \<and> list_all groupChar g \<and> CHR 0x0A \<notin> set t"
    using topic by blast
next
  assume r: "topic = sharePrefix @ g @ CHR ''/'' # t \<and> g \<noteq> [] \<and> list_all groupChar g \<and> CHR 0x0A \<notin> set t"
  then have all: "\<forall>c \<in> set g. groupChar c" by (simp add: list_all_iff)
  have slash: "\<not> groupChar (CHR ''/'')" by (simp add: groupChar_def byteval_def Let_def)
  have "takeWhile groupChar (g @ CHR ''/'' # t) = g" "dropWhile groupChar (g @ CHR ''/'' # t) = CHR ''/'' # t"
    using all slash by (auto simp: takeWhile_append dropWhile_append)
  with r show "groupMatch topic = Some (g, t)" by (simp add: groupMatch_def hasPrefix_iff Let_def)
qed

context auth_plugin
begin

lemma topic_auth_sound:
  assumes "inv s" "x = aSUB \<or> x = aPUB" "CheckTopicAuth (Some check_acl) x c u ip t s = (s', True)"
  shows "inv s' \<and> (hasPrefix t sysClients \<or> may_access s' x c u ip (effectiveTopic x t))"
  using assms acl_sound [OF assms(1,2), of c u ip]
  by (auto simp: CheckTopicAuth_def effectiveTopic_def split: if_splits option.splits)

lemma topic_auth_inv:
  assumes "inv s" "x = aSUB \<or> x = aPUB"
  shows "inv (fst (CheckTopicAuth (Some check_acl) x c u ip t s))"
  using assms(1) acl_sound [OF assms, of c u ip]
  by (auto simp: CheckTopicAuth_def split: option.splits) (metis prod.collapse)+

lemma connect_auth_sound:
  "inv s \<Longrightarrow> CheckConnectAuth (Some check_connect) c u p s = (s', True) \<Longrightarrow> inv s' \<and> may_connect s' c u p"
  using connect_sound [of s c u p s' True] by (simp add: CheckConnectAuth_def)

end

section \<open>The plugins\<close>

definition mockCheckACL :: "unit check_acl" where
  "mockCheckACL action clientID username ip topic s = (s, True)"

definition mockCheckConnect :: "string \<Rightarrow> string \<Rightarrow> string \<Rightarrow> unit \<Rightarrow> unit \<times> bool" where
  "mockCheckConnect clientID username password s = (s, True)"

interpretation mock_auth: auth_plugin mockCheckACL mockCheckConnect "\<lambda>_. True" "\<lambda>_ _ _ _ _ _. True" "\<lambda>_ _ _ _. True"
  by unfold_locales auto

text \<open>The file plugin: permission is the decision of the first rule that applies.\<close>

definition firstRuleAllows :: "ACLConfig \<Rightarrow> string \<Rightarrow> string \<Rightarrow> string \<Rightarrow> string \<Rightarrow> string \<Rightarrow> bool" where
  "firstRuleAllows cfg action clientID username ip topic =
     (case find (ruleApplies action ip username clientID topic) (Info cfg) of
        None \<Rightarrow> False | Some r \<Rightarrow> checkAuth r action)"

interpretation file_auth: auth_plugin "\<lambda>x c u ip t s. (s, aclCheckACL s x c u ip t)" "\<lambda>c u p s. (s, aclCheckConnect s c u p)"
    "\<lambda>_. True" firstRuleAllows "\<lambda>_ _ _ _. True"
  by unfold_locales (auto simp: aclCheckACL_def checkTopicAuth_def firstRuleAllows_def checkRules_first_match)

text \<open>
  The HTTP plugin, for every cache that behaves as documented: \<open>trusted cget\<close> ranges over exactly
  those caches when \<open>cget\<close> ranges over all functions.
\<close>

definition trusted :: "cache_get \<Rightarrow> cache_get" where
  "trusted cget sets k =
     (case cget sets k of None \<Rightarrow> None | Some e \<Rightarrow> if e \<in> set sets \<and> cUsername e = k then Some e else None)"

lemma trusted_sound: "cache_sound (trusted cget)" and trusted_id: "cache_sound cget \<Longrightarrow> trusted cget = cget"
  by (auto simp: cache_sound_def trusted_def fun_eq_iff split: option.splits)

lemma action_not_connect: "x = aSUB \<or> x = aPUB \<Longrightarrow> x \<noteq> ''connect''"
  by (auto simp: acl_consts)

interpretation http_auth: auth_plugin "httpCheckACL (trusted cget) srv" "httpCheckConnect (trusted cget) srv" http_inv
    "\<lambda>s x c u ip t. approved (AclReq u t x) s" "\<lambda>s c u p. \<exists>c'. approved (ConnectReq u c' p) s"
proof unfold_locales
  show "http_inv s \<Longrightarrow> x = aSUB \<or> x = aPUB \<Longrightarrow> httpCheckACL (trusted cget) srv x c u ip t s = (s', ok) \<Longrightarrow>
      http_inv s' \<and> (ok \<longrightarrow> approved (AclReq u t x) s')" for s x c u ip t s' ok
    using httpCheckACL_sound [OF trusted_sound _ action_not_connect] by metis
  show "http_inv s \<Longrightarrow> httpCheckConnect (trusted cget) srv c u p s = (s', ok) \<Longrightarrow>
      http_inv s' \<and> (ok \<longrightarrow> (\<exists>c'. approved (ConnectReq u c' p) s'))" for s c u p s' ok
    using httpCheckConnect_sound [OF trusted_sound] by blast
qed

section \<open>Choosing a plugin\<close>

datatype authPlugin = AuthHttpPlugin authHTTP | AuthFilePlugin ACLConfig | MockAuthPlugin

definition AuthHTTP :: string where "AuthHTTP = ''authhttp''"
definition AuthFile :: string where "AuthFile = ''authfile''"

text \<open>
  The plugins' own \<^verbatim>\<open>Init\<close>: a rule file that cannot be loaded panics, a configuration of the
  HTTP plugin that cannot be read is fatal. The files and the JSON decoder are parameters. (The two
  addresses the plugin asks at are part of the server's answer, which is a parameter as well.)
\<close>

datatype init_failure = PanicLoad load_error | FatalHttpFile | FatalHttpJSON

record httpConfig =
  AuthURL :: string
  ACLURL :: string
  SuperURL :: string

definition aclInit :: "(string \<Rightarrow> string + (string \<times> read_end)) \<Rightarrow> init_failure + ACLConfig" where
  "aclInit files = map_sum PanicLoad id (AclConfigLoad files ''./plugins/auth/authfile/acl.conf'')"

definition httpInit :: "(string \<Rightarrow> string option) \<Rightarrow> (string \<Rightarrow> httpConfig option) \<Rightarrow> init_failure + httpConfig" where
  "httpInit files decode =
     (case files ''./plugins/auth/authhttp/http.json'' of
        None \<Rightarrow> Inl FatalHttpFile
      | Some content \<Rightarrow> (case decode content of None \<Rightarrow> Inl FatalHttpJSON | Some c \<Rightarrow> Inr c))"

text \<open>\<^verbatim>\<open>NewAuth\<close>: \<open>acl\<close> and \<open>http\<close> are what the two give when they are called.\<close>

definition NewAuth :: "init_failure + ACLConfig \<Rightarrow> init_failure + httpConfig \<Rightarrow> string \<Rightarrow> init_failure + authPlugin" where
  "NewAuth acl http name =
     (if name = AuthHTTP then map_sum id (\<lambda>_. AuthHttpPlugin \<lparr>cacheSets = [], asked = []\<rparr>) http
      else if name = AuthFile then map_sum id AuthFilePlugin acl
      else Inr MockAuthPlugin)"

fun pluginACL :: "cache_get \<Rightarrow> (auth_request \<Rightarrow> auth_response) \<Rightarrow> authPlugin check_acl" where
  "pluginACL cget srv x c u ip t (AuthHttpPlugin a) = map_prod AuthHttpPlugin id (httpCheckACL cget srv x c u ip t a)"
| "pluginACL cget srv x c u ip t (AuthFilePlugin cfg) = (AuthFilePlugin cfg, aclCheckACL cfg x c u ip t)"
| "pluginACL cget srv x c u ip t MockAuthPlugin = map_prod (\<lambda>_. MockAuthPlugin) id (mockCheckACL x c u ip t ())"

fun pluginConnect :: "cache_get \<Rightarrow> (auth_request \<Rightarrow> auth_response) \<Rightarrow> string \<Rightarrow> string \<Rightarrow> string \<Rightarrow> authPlugin \<Rightarrow> authPlugin \<times> bool" where
  "pluginConnect cget srv c u p (AuthHttpPlugin a) = map_prod AuthHttpPlugin id (httpCheckConnect cget srv c u p a)"
| "pluginConnect cget srv c u p (AuthFilePlugin cfg) = (AuthFilePlugin cfg, aclCheckConnect cfg c u p)"
| "pluginConnect cget srv c u p MockAuthPlugin = map_prod (\<lambda>_. MockAuthPlugin) id (mockCheckConnect c u p ())"

end
