(* ===== verification/Bridge_Kafka.thy ===== *)
theory Bridge_Kafka
  imports Topic_Levels
begin

text \<open>
  The message bridge (\<^verbatim>\<open>plugins/bridge\<close>): the elements the broker reports, the interface
  \<^verbatim>\<open>BridgeMQ\<close> as a locale, the mock and the Kafka producer that interpret it. The Kafka client
  library is outside: whether its input channel took the n-th message before the timeout, and the
  JSON text of an element, are parameters.
\<close>

section \<open>Elements\<close>

record Elements =
  eClientID :: string
  eUsername :: string
  eTopic :: string
  ePayload :: string
  eTimestamp :: int
  eSize :: int
  eAction :: string

definition bConnect :: string where "bConnect = ''connect''"
definition bPublish :: string where "bPublish = ''publish''"
definition bSubscribe :: string where "bSubscribe = ''subscribe''"
definition bUnsubscribe :: string where "bUnsubscribe = ''unsubscribe''"
definition bDisconnect :: string where "bDisconnect = ''disconnect''"

lemmas bridge_actions = bConnect_def bPublish_def bSubscribe_def bUnsubscribe_def bDisconnect_def

record ProducerMessage =
  pmTopic :: string
  pmKey :: string
  pmValue :: string

datatype bridge_error = ErrAction string | ErrTimeout

section \<open>The producer\<close>

record kafakConfig =
  Addr :: "string list"
  ConnectTopic :: string
  SubscribeTopic :: string
  PublishTopic :: string
  UnsubscribeTopic :: string
  DisconnectTopic :: string
  DeliverMap :: "(string \<times> string) list"

text \<open>
  \<^verbatim>\<open>InitKafka\<close> and \<^verbatim>\<open>connect\<close>: the files, the JSON decoder and whether the client library gives
  a producer for the addresses are parameters. Each failure is fatal, so there is no bridge without a
  configuration and a producer. (What the producer cannot send is logged by a goroutine of its own.)
\<close>

datatype kafka_failure = FatalKafkaFile | FatalKafkaJSON | FatalProducer

definition connectKafka :: "(string list \<Rightarrow> bool) \<Rightarrow> kafakConfig \<Rightarrow> kafka_failure + kafakConfig" where
  "connectKafka newProducer cfg = (if newProducer (Addr cfg) then Inr cfg else Inl FatalProducer)"

definition InitKafka ::
  "(string \<Rightarrow> string option) \<Rightarrow> (string \<Rightarrow> kafakConfig option) \<Rightarrow> (string list \<Rightarrow> bool) \<Rightarrow> kafka_failure + kafakConfig"
where
  "InitKafka files decode newProducer =
     (case files ''./plugins/kafka/kafka.json'' of
        None \<Rightarrow> Inl FatalKafkaFile
      | Some content \<Rightarrow>
          (case decode content of None \<Rightarrow> Inl FatalKafkaJSON | Some cfg \<Rightarrow> connectKafka newProducer cfg))"

fun mqMatch :: "string list \<Rightarrow> string list \<Rightarrow> bool" where
  "mqMatch [] topic = (topic = [])"
| "mqMatch (s # ss) [] = (s = ''#'')"
| "mqMatch (s # ss) (t # ts) =
     (if s = ''#'' then True
      else if s = ''+'' \<or> s = t then mqMatch ss ts
      else False)"

definition matchTopic :: "string \<Rightarrow> string \<Rightarrow> bool" where
  "matchTopic subTopic topic = mqMatch (splitc (CHR ''/'') subTopic) (splitc (CHR ''/'') topic)"

text \<open>The map \<^verbatim>\<open>topics\<close>, whose keys are the topics to write to.\<close>

definition addTopic :: "string \<Rightarrow> (string \<times> bool) list \<Rightarrow> (string \<times> bool) list" where
  "addTopic t m = (if t = [] then m else AList.update t True m)"

text \<open>The loop over \<^verbatim>\<open>config.DeliverMap\<close>.\<close>

fun deliver :: "string \<Rightarrow> (string \<times> string) list \<Rightarrow> (string \<times> bool) list \<Rightarrow> (string \<times> bool) list" where
  "deliver t [] m = m"
| "deliver t ((reg, topic) # ds) m =
     deliver t ds (if matchTopic reg t then AList.update topic True m else m)"

definition kafkaTopics :: "kafakConfig \<Rightarrow> Elements \<Rightarrow> bridge_error + (string \<times> bool) list" where
  "kafkaTopics config e =
     (if eAction e = bConnect then Inr (addTopic (ConnectTopic config) [])
      else if eAction e = bPublish then
        Inr (deliver (eTopic e) (DeliverMap config) (addTopic (PublishTopic config) []))
      else if eAction e = bSubscribe then Inr (addTopic (SubscribeTopic config) [])
      else if eAction e = bUnsubscribe then Inr (addTopic (UnsubscribeTopic config) [])
      else if eAction e = bDisconnect then Inr (addTopic (DisconnectTopic config) [])
      else Inl (ErrAction (eAction e)))"

text \<open>The sending loop: \<open>took i\<close> says whether the channel took the i-th message in time.\<close>

fun kafkaSend :: "(nat \<Rightarrow> bool) \<Rightarrow> nat \<Rightarrow> string \<Rightarrow> string \<Rightarrow> string list \<Rightarrow> ProducerMessage list \<times> bridge_error option" where
  "kafkaSend took i key payload [] = ([], None)"
| "kafkaSend took i key payload (t # ts) =
     (if took i
      then (let r = kafkaSend took (i + 1) key payload ts
            in (\<lparr>pmTopic = t, pmKey = key, pmValue = payload\<rparr> # fst r, snd r))
      else ([], Some ErrTimeout))"

definition kafkaPublish ::
  "(Elements \<Rightarrow> string) \<Rightarrow> (nat \<Rightarrow> bool) \<Rightarrow> kafakConfig \<Rightarrow> Elements \<Rightarrow> ProducerMessage list \<times> bridge_error option"
where
  "kafkaPublish marshal took config e =
     (case kafkaTopics config e of
        Inl err \<Rightarrow> ([], Some err)
      | Inr topics \<Rightarrow> kafkaSend took 0 (eClientID e) (marshal e) (map fst topics))"

definition mockPublish :: "Elements \<Rightarrow> ProducerMessage list \<times> bridge_error option" where
  "mockPublish e = ([], None)"

section \<open>The interface\<close>

text \<open>
  What the broker may rely on: the messages of one report are keyed by the client, so a partitioner
  that looks at the key keeps a client's messages in one partition, and no topic gets two of them.
\<close>

locale bridge_mq =
  fixes publish :: "Elements \<Rightarrow> ProducerMessage list \<times> 'e option"
  assumes keyed: "m \<in> set (fst (publish e)) \<Longrightarrow> pmKey m = eClientID e"
    and once: "distinct (map pmTopic (fst (publish e)))"
begin

lemma same_partition:
  "m \<in> set (fst (publish e)) \<Longrightarrow> n \<in> set (fst (publish f)) \<Longrightarrow> eClientID e = eClientID f \<Longrightarrow>
   part (pmKey m) = part (pmKey n)"
  by (simp add: keyed)

lemma one_per_topic: "length (filter (\<lambda>m. pmTopic m = t) (fst (publish e))) \<le> 1"
proof -
  have "distinct (map pmTopic xs) \<Longrightarrow> length (filter (\<lambda>m. pmTopic m = t) xs) \<le> 1" for xs :: "ProducerMessage list"
    by (induction xs) (auto simp: image_iff filter_empty_conv)
  then show ?thesis using once .
qed

end

interpretation mock_bridge: bridge_mq mockPublish
  by unfold_locales (auto simp: mockPublish_def)

section \<open>Laws\<close>

lemma kafkaSend_prefix: "\<exists>n. map pmTopic (fst (kafkaSend took i key payload ts)) = take n ts"
proof (induction ts arbitrary: i)
  case Nil
  then show ?case by simp
next
  case (Cons t ts)
  obtain n where "map pmTopic (fst (kafkaSend took (i + 1) key payload ts)) = take n ts" using Cons by blast
  then have "map pmTopic (fst (kafkaSend took i key payload (t # ts))) = take (if took i then Suc n else 0) (t # ts)"
    by (simp add: Let_def)
  then show ?case by blast
qed

lemma kafkaSend_all:
  "\<forall>j. took j \<Longrightarrow> kafkaSend took i key payload ts = (map (\<lambda>t. \<lparr>pmTopic = t, pmKey = key, pmValue = payload\<rparr>) ts, None)"
  by (induction ts arbitrary: i) auto

lemma kafkaSend_fields:
  "m \<in> set (fst (kafkaSend took i key payload ts)) \<Longrightarrow> pmKey m = key \<and> pmValue m = payload"
  by (induction ts arbitrary: i) (auto simp: Let_def split: if_splits)

lemma addTopic_keys: "distinct_keys m \<Longrightarrow> distinct_keys (addTopic t m)"
  "fst ` set (addTopic t m) = (if t = [] then fst ` set m else insert t (fst ` set m))"
  by (auto simp: addTopic_def dom_update intro: keys_intro)

lemma update_keys: "fst ` set (AList.update k v m) = insert k (fst ` set m)"
  using dom_update [of k v m] by simp

lemma deliver_keys:
  "distinct_keys m \<Longrightarrow> distinct_keys (deliver t ds m)"
  "fst ` set (deliver t ds m) = fst ` set m \<union> {topic. \<exists>reg. (reg, topic) \<in> set ds \<and> matchTopic reg t}"
  by (induction t ds m rule: deliver.induct) (auto simp: update_keys keys_intro)

lemma kafkaTopics_distinct: "kafkaTopics config e = Inr topics \<Longrightarrow> distinct_keys topics"
proof -
  have "distinct_keys (addTopic t [])" for t by (rule addTopic_keys) (simp add: distinct_keys_def)
  then show "kafkaTopics config e = Inr topics \<Longrightarrow> distinct_keys topics"
    by (auto simp: kafkaTopics_def deliver_keys split: if_splits)
qed

interpretation kafka_bridge: bridge_mq "kafkaPublish marshal took config"
proof unfold_locales
  show "pmKey m = eClientID e" if "m \<in> set (fst (kafkaPublish marshal took config e))" for m e
    using that kafkaSend_fields by (fastforce simp: kafkaPublish_def split: sum.splits)
  show "distinct (map pmTopic (fst (kafkaPublish marshal took config e)))" for e
  proof (cases "kafkaTopics config e")
    case (Inl err)
    then show ?thesis by (simp add: kafkaPublish_def)
  next
    case (Inr topics)
    obtain n where "map pmTopic (fst (kafkaSend took 0 (eClientID e) (marshal e) (map fst topics))) = take n (map fst topics)"
      using kafkaSend_prefix by blast
    moreover have "distinct (map fst topics)" using kafkaTopics_distinct [OF Inr] by (simp add: distinct_keys_def)
    ultimately show ?thesis using Inr by (simp add: kafkaPublish_def del: take_map)
  qed
qed

text \<open>On filters with the multi-level wildcard at the end at most, the matcher is the relation of the topic trees.\<close>

lemma mqMatch_matches: "list_all (\<lambda>l. l \<noteq> ''#'') (butlast fs) \<Longrightarrow> mqMatch fs ts \<longleftrightarrow> matches fs ts"
proof (induction fs ts rule: mqMatch.induct)
  case (1 topic)
  then show ?case by simp
next
  case (2 s ss)
  then show ?case by (cases ss) (auto simp: MWC_def)
next
  case (3 s ss t ts)
  then show ?case by (cases "ss = []") (auto simp: MWC_def SWC_def split: if_splits)
qed

end
