(* ===== verification/Worker_Pool.thy ===== *)
theory Worker_Pool
  imports Hmq_Prelude
begin

text \<open>
  The worker pool (\<^verbatim>\<open>pool/fixpool.go\<close>): one bounded channel per worker, a task goes to the
  channel its user id hashes to. The hash (\<^verbatim>\<open>fnv1a.HashString64\<close>, not part of the repository) is
  a parameter. A send to a full channel blocks; here it is a step that is not possible yet.
\<close>

section \<open>The pool\<close>

record 'a WorkerPool =
  maxWorkers :: nat
  taskQueue :: "'a list list"

definition chanSize :: nat where
  "chanSize = 1024"

definition newPool :: "int \<Rightarrow> 'a WorkerPool" where
  "newPool n =
     (let m = (if n < 1 then 1 else n)
      in \<lparr>maxWorkers = nat m, taskQueue = replicate (nat m) []\<rparr>)"

definition poolIndex :: "(string \<Rightarrow> uint64) \<Rightarrow> string \<Rightarrow> 'a WorkerPool \<Rightarrow> nat" where
  "poolIndex hash uid p = unat (hash uid mod word_of_nat (maxWorkers p))"

text \<open>\<open>None\<close>: the channel is full and the caller waits.\<close>

definition Submit :: "(string \<Rightarrow> uint64) \<Rightarrow> string \<Rightarrow> 'a option \<Rightarrow> 'a WorkerPool \<Rightarrow> 'a WorkerPool option" where
  "Submit hash uid task p =
     (case task of
        None \<Rightarrow> Some p
      | Some t \<Rightarrow>
          (let idx = poolIndex hash uid p; q = taskQueue p ! idx
           in if length q < chanSize then Some (p\<lparr>taskQueue := (taskQueue p)[idx := q @ [t]]\<rparr>) else None))"

text \<open>One turn of the loop of \<^verbatim>\<open>startWorker\<close>: the oldest task of a worker's channel is taken.\<close>

definition takeTask :: "nat \<Rightarrow> 'a WorkerPool \<Rightarrow> ('a \<times> 'a WorkerPool) option" where
  "takeTask i p =
     (if i < length (taskQueue p)
      then (case taskQueue p ! i of [] \<Rightarrow> None | t # q \<Rightarrow> Some (t, p\<lparr>taskQueue := (taskQueue p)[i := q]\<rparr>))
      else None)"

definition pool_inv :: "'a WorkerPool \<Rightarrow> bool" where
  "pool_inv p =
     (0 < maxWorkers p \<and> maxWorkers p < 2 ^ 64 \<and> length (taskQueue p) = maxWorkers p
      \<and> list_all (\<lambda>q. length q \<le> chanSize) (taskQueue p))"

lemma newPool_inv: "n < 2 ^ 64 \<Longrightarrow> pool_inv (newPool n)"
  by (auto simp: pool_inv_def newPool_def Let_def list_all_iff)

lemma poolIndex_less:
  assumes "pool_inv p"
  shows "poolIndex hash uid p < maxWorkers p"
proof -
  have "unat (word_of_nat (maxWorkers p) :: uint64) = maxWorkers p"
    using assms by (simp add: pool_inv_def unat_of_nat)
  moreover have "0 < maxWorkers p" using assms by (simp add: pool_inv_def)
  ultimately show ?thesis by (simp add: poolIndex_def unat_mod)
qed

section \<open>The interface\<close>

text \<open>
  What the broker relies on: each task waits in the one queue of its key, a submission goes to the
  end of that queue, and what runs next of a queue is its front.
\<close>

locale keyed_queue =
  fixes submit :: "string \<Rightarrow> 'a \<Rightarrow> 'p \<Rightarrow> 'p option"
    and take_from :: "nat \<Rightarrow> 'p \<Rightarrow> ('a \<times> 'p) option"
    and index :: "string \<Rightarrow> 'p \<Rightarrow> nat"
    and pending :: "nat \<Rightarrow> 'p \<Rightarrow> 'a list"
    and inv :: "'p \<Rightarrow> bool"
  assumes submit_inv: "inv p \<Longrightarrow> submit u t p = Some p' \<Longrightarrow> inv p'"
    and submit_pending:
      "inv p \<Longrightarrow> submit u t p = Some p' \<Longrightarrow>
       pending i p' = (if i = index u p then pending i p @ [t] else pending i p)"
    and submit_index: "inv p \<Longrightarrow> submit u t p = Some p' \<Longrightarrow> index v p' = index v p"
    and take_inv: "inv p \<Longrightarrow> take_from i p = Some (t, p') \<Longrightarrow> inv p'"
    and take_pending:
      "inv p \<Longrightarrow> take_from i p = Some (t, p') \<Longrightarrow>
       pending i p = t # pending i p' \<and> (\<forall>j. j \<noteq> i \<longrightarrow> pending j p' = pending j p)"
    and take_index: "inv p \<Longrightarrow> take_from i p = Some (t, p') \<Longrightarrow> index v p' = index v p"
    and take_possible: "inv p \<Longrightarrow> pending i p \<noteq> [] \<Longrightarrow> take_from i p \<noteq> None"

text \<open>
  A schedule interleaves submissions and takes; an impossible step leaves the state. The two lists
  are the tasks submitted and the tasks run so far, in order.
\<close>

datatype 'a pool_event = PSubmit 'a | PTake nat

fun pool_step ::
  "(string \<Rightarrow> 'a \<Rightarrow> 'p \<Rightarrow> 'p option) \<Rightarrow> (nat \<Rightarrow> 'p \<Rightarrow> ('a \<times> 'p) option) \<Rightarrow> ('a \<Rightarrow> string) \<Rightarrow>
   'p \<times> 'a list \<times> 'a list \<Rightarrow> 'a pool_event \<Rightarrow> 'p \<times> 'a list \<times> 'a list"
where
  "pool_step sub tk owner (p, sent, run) (PSubmit t) =
     (case sub (owner t) t p of None \<Rightarrow> (p, sent, run) | Some p' \<Rightarrow> (p', sent @ [t], run))"
| "pool_step sub tk owner (p, sent, run) (PTake i) =
     (case tk i p of None \<Rightarrow> (p, sent, run) | Some (t, p') \<Rightarrow> (p', sent, run @ [t]))"

context keyed_queue
begin

text \<open>
  The run tasks of a queue followed by the waiting ones are the submitted tasks of that queue, in
  order of submission.
\<close>

definition in_order :: "('a \<Rightarrow> string) \<Rightarrow> 'p \<times> 'a list \<times> 'a list \<Rightarrow> bool" where
  "in_order owner s =
     (case s of (p, sent, run) \<Rightarrow>
        inv p \<and> (\<forall>i. filter (\<lambda>t. index (owner t) p = i) sent = filter (\<lambda>t. index (owner t) p = i) run @ pending i p))"

lemma in_order_step: "in_order owner s \<Longrightarrow> in_order owner (pool_step submit take_from owner s e)"
proof -
  assume s: "in_order owner s"
  obtain p sent run where eq: "s = (p, sent, run)" by (cases s) auto
  have p: "inv p"
    and ord: "\<And>i. filter (\<lambda>t. index (owner t) p = i) sent = filter (\<lambda>t. index (owner t) p = i) run @ pending i p"
    using s by (auto simp: in_order_def eq)
  show ?thesis
  proof (cases e)
    case (PSubmit t)
    show ?thesis
    proof (cases "submit (owner t) t p")
      case None
      with s eq PSubmit show ?thesis by simp
    next
      case (Some p')
      with ord submit_inv [OF p Some] submit_pending [OF p Some] submit_index [OF p Some] show ?thesis
        by (simp add: eq PSubmit in_order_def)
    qed
  next
    case (PTake i)
    show ?thesis
    proof (cases "take_from i p")
      case None
      with s eq PTake show ?thesis by simp
    next
      case (Some tp)
      then obtain t p' where tk: "take_from i p = Some (t, p')" by (cases tp) auto
      have here: "t \<in> set (filter (\<lambda>t. index (owner t) p = i) sent)"
        using ord [of i] take_pending [OF p tk] by simp
      then have "index (owner t) p = i" by simp
      with ord take_inv [OF p tk] take_pending [OF p tk] take_index [OF p tk] show ?thesis
        using tk by (simp add: eq PTake in_order_def)
    qed
  qed
qed

lemma in_order_run: "in_order owner s \<Longrightarrow> in_order owner (foldl (pool_step submit take_from owner) s es)"
  by (induction es arbitrary: s) (auto simp: in_order_step)

lemma run_inv:
  assumes "inv p" "\<And>i. pending i p = []"
    and "foldl (pool_step submit take_from owner) (p, [], []) es = (p', sent, run)"
  shows "inv p'"
  using in_order_run [of owner "(p, [], [])" es] assms by (simp add: in_order_def)

text \<open>The tasks of one owner run in the order they were submitted, each once.\<close>

lemma owner_fifo:
  assumes "inv p" "\<And>i. pending i p = []"
    and "foldl (pool_step submit take_from owner) (p, [], []) es = (p', sent, run)"
  shows "filter (\<lambda>t. owner t = u) sent
    = filter (\<lambda>t. owner t = u) run @ filter (\<lambda>t. owner t = u) (pending (index u p') p')"
proof -
  have "in_order owner (p', sent, run)"
    using in_order_run [of owner "(p, [], [])" es] assms by (simp add: in_order_def)
  then have ord: "filter (\<lambda>t. index (owner t) p' = index u p') sent
      = filter (\<lambda>t. index (owner t) p' = index u p') run @ pending (index u p') p'"
    by (simp add: in_order_def)
  have sub: "filter (\<lambda>t. owner t = u) xs = filter (\<lambda>t. owner t = u) (filter (\<lambda>t. index (owner t) p' = index u p') xs)" for xs
    by (induction xs) auto
  show ?thesis unfolding sub [of sent] sub [of run] ord by simp
qed

end

interpretation fixpool: keyed_queue "\<lambda>u t. Submit hash u (Some t)" takeTask "poolIndex hash"
    "\<lambda>i p. if i < length (taskQueue p) then taskQueue p ! i else []" pool_inv
proof unfold_locales
  fix p p' :: "'a WorkerPool" and u v t i
  assume p: "pool_inv p" and sub: "Submit hash u (Some t) p = Some p'"
  let ?i = "poolIndex hash u p"
  have i: "?i < length (taskQueue p)" using poolIndex_less [OF p] p by (simp add: pool_inv_def)
  have p': "p' = p\<lparr>taskQueue := (taskQueue p)[?i := taskQueue p ! ?i @ [t]]\<rparr>" and free: "length (taskQueue p ! ?i) < chanSize"
    using sub by (auto simp: Submit_def Let_def split: if_splits)
  show "pool_inv p'" using p i free by (auto simp: p' pool_inv_def list_all_length nth_list_update)
  show "(if i < length (taskQueue p') then taskQueue p' ! i else [])
      = (if i = ?i then (if i < length (taskQueue p) then taskQueue p ! i else []) @ [t]
         else if i < length (taskQueue p) then taskQueue p ! i else [])"
    using i by (simp add: p')
  show "poolIndex hash v p' = poolIndex hash v p" by (simp add: p' poolIndex_def)
next
  fix p p' :: "'a WorkerPool" and i t v
  assume p: "pool_inv p" and tk: "takeTask i p = Some (t, p')"
  obtain q where q: "i < length (taskQueue p)" "taskQueue p ! i = t # q" "p' = p\<lparr>taskQueue := (taskQueue p)[i := q]\<rparr>"
    using tk by (auto simp: takeTask_def split: if_splits list.splits)
  have "length (t # q) \<le> chanSize" using p q by (metis list_all_length pool_inv_def)
  with p q show "pool_inv p'" by (auto simp: pool_inv_def list_all_length nth_list_update)
  show "(if i < length (taskQueue p) then taskQueue p ! i else [])
        = t # (if i < length (taskQueue p') then taskQueue p' ! i else [])
      \<and> (\<forall>j. j \<noteq> i \<longrightarrow> (if j < length (taskQueue p') then taskQueue p' ! j else [])
                     = (if j < length (taskQueue p) then taskQueue p ! j else []))"
    using q by simp
  show "poolIndex hash v p' = poolIndex hash v p" using q by (simp add: poolIndex_def)
next
  fix p :: "'a WorkerPool" and i
  assume "pool_inv p" "(if i < length (taskQueue p) then taskQueue p ! i else []) \<noteq> []"
  then show "takeTask i p \<noteq> None" by (auto simp: takeTask_def split: list.splits if_splits)
qed

end
