(* ===== verification/Plugin_Properties.thy ===== *)
theory Plugin_Properties
  imports Auth Bridge_Kafka Worker_Pool
begin

text \<open>
  The properties of the parts the broker calls through an interface: the access control of the
  plugins, the rule file, the message bridge and the worker pool.
\<close>

section \<open>Access control by file\<close>

text \<open>
  C30. The file plugin decides by the first rule, in file order, that is about the client and has a
  topic that matches, and by nothing else; without one the answer is no. The rule grants what
  \<^verbatim>\<open>checkAuth\<close> says: allowing grants its own actions, and denying one action grants the other.
\<close>

theorem acl_first_rule_decides:
  "aclCheckACL cfg action clientid username ip topic =
     (case find (ruleApplies action ip username clientid topic) (Info cfg) of
        None \<Rightarrow> False
      | Some r \<Rightarrow>
          action = aPUB \<and> (Auth r = ALLOW \<and> PubSub r \<in> {aPUB, aPUBSUB} \<or> Auth r = DENY \<and> PubSub r = aSUB)
          \<or> action = aSUB \<and> (Auth r = ALLOW \<and> PubSub r \<in> {aSUB, aPUBSUB} \<or> Auth r = DENY \<and> PubSub r = aPUB))"
  by (simp add: aclCheckACL_def checkTopicAuth_def checkRules_first_match checkAuth_table split: option.split)

text \<open>
  A rule's topic covers more than the topics that match it level by level: whatever matches
  still matches with levels appended, so a rule topic without wildcards covers exactly itself and
  everything below it, and a rule topic that does not split covers every topic.
\<close>

theorem acl_topic_covers_below:
  assumes "SubscribeTopicSpilt des = Inr ds" "PublishTopicSpilt topic = Inr ts"
    and "''#'' \<notin> set ds" "''+'' \<notin> set ds"
  shows "(pubTopicMatch topic des \<longleftrightarrow> (\<exists>tail. ts = ds @ tail))
    \<and> (SubscribeTopicSpilt bad = Inl e \<longrightarrow> pubTopicMatch topic bad)"
proof -
  have "\<forall>d \<in> set ds. d \<noteq> ''#'' \<and> d \<noteq> ''+''" using assms(3,4) by blast
  from aclMatch_prefix [OF this] show ?thesis by (simp add: pubTopicMatch_eq orNil_def assms(1,2))
qed

lemma acl_topic_covers_below_witness:
  "pubTopicMatch ''a/b'' ''a'' \<and> pubTopicMatch ''a/b'' ''x#y''"
proof -
  have "SubscribeTopicSpilt ''a'' = Inr [''a'']" "PublishTopicSpilt ''a/b'' = Inr [''a'', ''b'']"
    "SubscribeTopicSpilt ''x#y'' = Inl ErrHashIndex" by code_simp+
  from acl_topic_covers_below [OF this(1,2), of "''x#y''" ErrHashIndex] this(3) show ?thesis by simp
qed

section \<open>The rule file\<close>

text \<open>
  C35. Rules written to a file, one to a line, are read back as they were, in their order, whatever
  ends the reading; a loaded configuration has exactly them.
\<close>

theorem rule_file_roundtrip:
  assumes "list_all writable rs" "fs file = Inr (concat (map renderRule rs), fin)"
  shows "AclConfigLoad fs file = Inr \<lparr>File = file, Info = rs\<rparr>"
  using prase_written [OF assms(1), of fin "[]"] assms(2) by (simp add: AclConfigLoad_def)

definition allowAll :: AuthInfo where
  "allowAll = \<lparr>Auth = ALLOW, Typ = CLIENTID, Val = ''*'', PubSub = aPUBSUB, AclTopics = [''a/b'', ''c/#'']\<rparr>"

lemma writable_allowAll: "writable allowAll"
  by code_simp

lemma rule_file_roundtrip_witness:
  "AclConfigLoad (\<lambda>_. Inr (concat (map renderRule [allowAll]), EOF)) ''acl.conf''
    = Inr \<lparr>File = ''acl.conf'', Info = [allowAll]\<rparr>"
  by (rule rule_file_roundtrip) (simp_all add: writable_allowAll)

text \<open>
  Reading stops at the first line that is neither a comment nor a rule. An ill-formed line is
  reported and the load fails; a blank line is no error and silently hides every rule after it.
\<close>

theorem rule_file_stops:
  assumes "list_all writable rs" "CHR 0x0A \<notin> set l" "line = trimSpace (l @ [CHR 0x0A])" "\<not> isCommentOut line"
    and "line = [] \<or> ruleOf (stringFields line) = None"
    and "fs file = Inr (concat (map renderRule rs) @ l @ CHR 0x0A # rest, fin)"
  shows "AclConfigLoad fs file =
    (if line = [] then Inr \<lparr>File = file, Info = rs\<rparr> else Inl (ErrFormat line))"
  using prase_written_then [OF assms(1), of fin "[]"] prase_stop [OF assms(2-5), of fin rs rest] assms(6)
  by (simp add: AclConfigLoad_def)

lemma rule_file_stops_witness:
  "AclConfigLoad (\<lambda>_. Inr (concat (map renderRule [allowAll]) @ CHR 0x0A # renderRule allowAll, EOF)) ''acl.conf''
    = Inr \<lparr>File = ''acl.conf'', Info = [allowAll]\<rparr>"
proof -
  have "[] = trimSpace ([] @ [CHR 0x0A])" by code_simp
  from rule_file_stops [OF _ _ this, of "[allowAll]"
      "\<lambda>_. Inr (concat (map renderRule [allowAll]) @ CHR 0x0A # renderRule allowAll, EOF)" "''acl.conf''"]
  show ?thesis by (simp add: isCommentOut_def hasPrefix_def writable_allowAll)
qed

section \<open>Access control by an authorisation server\<close>

text \<open>
  The calls of the broker to the plugin, with the cache and the server as they answer at the time of
  each call.
\<close>

datatype auth_call =
    AskTopic string string string string string   \<comment> \<open>action, client, user, address, topic\<close>
  | AskConnect string string string   \<comment> \<open>client, user, password\<close>

type_synonym auth_world = "cache_get \<times> (auth_request \<Rightarrow> auth_response)"

fun answer :: "auth_world \<Rightarrow> auth_call \<Rightarrow> authPlugin \<Rightarrow> authPlugin \<times> bool" where
  "answer (cget, srv) (AskTopic x c u ip t) a = CheckTopicAuth (Some (pluginACL cget srv)) x c u ip t a"
| "answer (cget, srv) (AskConnect c u p) a = CheckConnectAuth (Some (pluginConnect cget srv)) c u p a"

definition answers :: "authPlugin \<Rightarrow> (auth_world \<times> auth_call) list \<Rightarrow> authPlugin" where
  "answers a calls = foldl (\<lambda>a (w, c). fst (answer w c a)) a calls"

text \<open>What the broker asks for.\<close>

definition broker_call :: "auth_world \<times> auth_call \<Rightarrow> bool" where
  "broker_call wc =
     (cache_sound (fst (fst wc))
      \<and> (case snd wc of AskTopic x c u ip t \<Rightarrow> x = aSUB \<or> x = aPUB | AskConnect c u p \<Rightarrow> True))"

text \<open>A plugin of the server kind whose cache is backed by the server's answers.\<close>

definition backed :: "authPlugin \<Rightarrow> bool" where
  "backed a = (\<exists>h. a = AuthHttpPlugin h \<and> http_inv h)"

fun granted :: "auth_call \<Rightarrow> authHTTP \<Rightarrow> bool" where
  "granted (AskTopic x c u ip t) h = (hasPrefix t sysClients \<or> approved (AclReq u (effectiveTopic x t) x) h)"
| "granted (AskConnect c u p) h = (\<exists>c'. approved (ConnectReq u c' p) h)"

lemma CheckTopicAuth_http:
  "CheckTopicAuth (Some (pluginACL cget srv)) x c u ip t (AuthHttpPlugin h)
    = map_prod AuthHttpPlugin id (CheckTopicAuth (Some (httpCheckACL cget srv)) x c u ip t h)"
  by (simp add: CheckTopicAuth_def split: option.split)

lemma answer_backed:
  assumes "broker_call (w, c)" "http_inv h"
  shows "\<exists>h'. fst (answer w c (AuthHttpPlugin h)) = AuthHttpPlugin h' \<and> http_inv h'
    \<and> (snd (answer w c (AuthHttpPlugin h)) \<longrightarrow> granted c h')"
proof -
  obtain cget srv where w: "w = (cget, srv)" by (cases w)
  have tr: "trusted cget = cget" using assms(1) by (simp add: w broker_call_def trusted_id)
  show ?thesis
  proof (cases c)
    case (AskTopic x i u ip t)
    with assms(1) have x: "x = aSUB \<or> x = aPUB" by (simp add: broker_call_def)
    obtain h' ok where r: "CheckTopicAuth (Some (httpCheckACL cget srv)) x i u ip t h = (h', ok)"
      by (cases "CheckTopicAuth (Some (httpCheckACL cget srv)) x i u ip t h")
    have "http_inv h'" "ok \<longrightarrow> granted c h'"
      using http_auth.topic_auth_inv [OF assms(2) x, of cget srv i u ip t]
        http_auth.topic_auth_sound [OF assms(2) x, of cget srv i u ip t h'] r by (auto simp: tr AskTopic)
    with r show ?thesis by (simp add: AskTopic w CheckTopicAuth_http)
  next
    case (AskConnect i u p)
    obtain h' ok where r: "httpCheckConnect cget srv i u p h = (h', ok)" by (cases "httpCheckConnect cget srv i u p h")
    have "http_inv h'" "ok \<longrightarrow> granted c h'"
      using httpCheckConnect_sound [OF _ assms(2) r] assms(1) by (auto simp: w broker_call_def AskConnect)
    with r show ?thesis by (simp add: AskConnect w CheckConnectAuth_def)
  qed
qed

lemma answers_backed: "list_all broker_call calls \<Longrightarrow> backed a \<Longrightarrow> backed (answers a calls)"
proof (induction calls arbitrary: a)
  case Nil
  then show ?case by (simp add: answers_def)
next
  case (Cons wc calls)
  obtain w c where wc: "wc = (w, c)" by (cases wc)
  have "backed (fst (answer w c a))"
    using Cons.prems answer_backed [of w c] by (auto simp: wc backed_def)
  then show ?case using Cons by (simp add: wc answers_def)
qed



section \<open>The message bridge\<close>

text \<open>
  The matcher of the bridge agrees with the one of the subscription tree on every filter that
  has the multi-level wildcard in the last place only.
\<close>

theorem bridge_matches_like_broker:
  assumes "''#'' \<notin> set (butlast (splitc (CHR ''/'') f))"
  shows "matchTopic f t \<longleftrightarrow> matches (splitc (CHR ''/'') f) (splitc (CHR ''/'') t)"
  using assms mqMatch_matches by (auto simp: matchTopic_def list_all_iff)

lemma bridge_matches_like_broker_witness:
  "matchTopic ''a/#'' ''a'' = matches (splitc (CHR ''/'') ''a/#'') (splitc (CHR ''/'') ''a'')"
  by (rule bridge_matches_like_broker) code_simp

text \<open>Where a report belongs.\<close>

definition targets :: "kafakConfig \<Rightarrow> Elements \<Rightarrow> string set" where
  "targets config e =
     (let own = (if eAction e = bConnect then ConnectTopic config else if eAction e = bPublish then PublishTopic config
                 else if eAction e = bSubscribe then SubscribeTopic config
                 else if eAction e = bUnsubscribe then UnsubscribeTopic config else DisconnectTopic config)
      in {own} - {[]} \<union> (if eAction e = bPublish then {t. \<exists>f. (f, t) \<in> set (DeliverMap config) \<and> matchTopic f (eTopic e)} else {}))"

lemma addTopic_one: "fst ` set (addTopic t []) = {t} - {[]}"
  by (simp add: addTopic_keys(2))

lemma kafkaTopics_targets: "kafkaTopics config e = Inr topics \<Longrightarrow> fst ` set topics = targets config e"
  by (cases "eAction e = bConnect"; cases "eAction e = bPublish"; cases "eAction e = bSubscribe";
      cases "eAction e = bUnsubscribe"; cases "eAction e = bDisconnect")
    (clarsimp simp: kafkaTopics_def targets_def bridge_actions deliver_keys addTopic_one)+

lemma kafkaSend_sent:
  assumes "kafkaSend took i key payload ts = (ms, err)"
  shows "\<exists>n. map pmTopic ms = take n ts \<and> (err = None \<longleftrightarrow> map pmTopic ms = ts)
    \<and> (\<forall>m \<in> set ms. pmKey m = key \<and> pmValue m = payload)"
  using assms
proof (induction ts arbitrary: i ms)
  case Nil
  then show ?case by simp
next
  case (Cons t ts)
  show ?case
  proof (cases "took i")
    case True
    obtain ms1 where r: "kafkaSend took (i + 1) key payload ts = (ms1, err)"
      "ms = \<lparr>pmTopic = t, pmKey = key, pmValue = payload\<rparr> # ms1"
      using Cons.prems True by (cases "kafkaSend took (i + 1) key payload ts") (auto simp: Let_def)
    from Cons.IH [OF r(1)] obtain n where "map pmTopic ms1 = take n ts" "(err = None) = (map pmTopic ms1 = ts)"
      "\<forall>m \<in> set ms1. pmKey m = key \<and> pmValue m = payload" by blast
    then show ?thesis by (intro exI [of _ "Suc n"]) (simp add: r(2))
  next
    case False
    with Cons.prems show ?thesis by (intro exI [of _ 0]) auto
  qed
qed

text \<open>
  A report goes to the topic configured for its action, and a publication also to every topic of
  the delivery map whose pattern matches: to each of them once, with the client as key and the
  encoded report as value. A send that times out ends the report with an error and what was sent is
  an initial part of it; an unknown action is an error and sends nothing.
\<close>

theorem bridge_report:
  assumes "kafkaPublish marshal took config e = (ms, err)"
    and "eAction e \<in> {bConnect, bPublish, bSubscribe, bUnsubscribe, bDisconnect}"
  shows "set (map pmTopic ms) \<subseteq> targets config e \<and> distinct (map pmTopic ms)
    \<and> (err = None \<longleftrightarrow> set (map pmTopic ms) = targets config e)
    \<and> (\<forall>m \<in> set ms. pmKey m = eClientID e \<and> pmValue m = marshal e)"
proof -
  obtain topics where t: "kafkaTopics config e = Inr topics"
    using assms(2) by (cases "kafkaTopics config e") (auto simp: kafkaTopics_def split: if_splits)
  then have send: "kafkaSend took 0 (eClientID e) (marshal e) (map fst topics) = (ms, err)"
    using assms(1) by (simp add: kafkaPublish_def)
  have d: "distinct (map fst topics)" using kafkaTopics_distinct [OF t] by (simp add: distinct_keys_def)
  have img: "set (map fst topics) = targets config e" using kafkaTopics_targets [OF t] by simp
  from kafkaSend_sent [OF send] obtain n where n: "map pmTopic ms = take n (map fst topics)"
    "err = None \<longleftrightarrow> map pmTopic ms = map fst topics" "\<forall>m \<in> set ms. pmKey m = eClientID e \<and> pmValue m = marshal e"
    by blast
  have "set (take n (map fst topics)) = set (map fst topics) \<Longrightarrow> take n (map fst topics) = map fst topics"
  proof -
    assume "set (take n (map fst topics)) = set (map fst topics)"
    then have "length (take n (map fst topics)) = length (map fst topics)"
      using d distinct_card distinct_take by metis
    then show ?thesis by (simp add: take_all)
  qed
  with n d img show ?thesis
    by (metis distinct_take set_take_subset)
qed

definition exampleConfig :: kafakConfig where
  "exampleConfig = \<lparr>Addr = [], ConnectTopic = [], SubscribeTopic = [], PublishTopic = ''p'', UnsubscribeTopic = [],
     DisconnectTopic = [], DeliverMap = [(''#'', ''all''), (''b'', ''q'')]\<rparr>"

definition exampleReport :: Elements where
  "exampleReport = \<lparr>eClientID = ''c'', eUsername = [], eTopic = ''a'', ePayload = [], eTimestamp = 0, eSize = 0,
     eAction = bPublish\<rparr>"

lemma bridge_report_witness:
  "{''p'', ''all''} = targets exampleConfig exampleReport"
proof -
  have "kafkaPublish (\<lambda>_. ''{}'') (\<lambda>_. True) exampleConfig exampleReport
      = ([\<lparr>pmTopic = ''p'', pmKey = ''c'', pmValue = ''{}''\<rparr>, \<lparr>pmTopic = ''all'', pmKey = ''c'', pmValue = ''{}''\<rparr>], None)"
    by code_simp
  from bridge_report [OF this] show ?thesis by (simp add: exampleReport_def)
qed

section \<open>The worker pool\<close>

text \<open>
  Under every interleaving of readers and workers the packets of one client are processed in
  the order they were read, each once and none lost: those processed, followed by those waiting in
  the one queue of the client, are those handed over. No queue ever holds more than its channel.
\<close>

theorem worker_fifo:
  assumes "n < 2 ^ 64"
    and "foldl (pool_step (\<lambda>u t. Submit hash u (Some t)) takeTask owner) (newPool n, [], []) es = (p, sent, run)"
  shows "filter (\<lambda>t. owner t = u) sent
      = filter (\<lambda>t. owner t = u) run @ filter (\<lambda>t. owner t = u) (taskQueue p ! poolIndex hash u p)
    \<and> poolIndex hash u p < length (taskQueue p)
    \<and> length (taskQueue p ! poolIndex hash u p) \<le> 1024"
proof -
  have none: "(if i < length (taskQueue (newPool n)) then taskQueue (newPool n) ! i else []) = []" for i
    by (simp add: newPool_def Let_def)
  have inv: "pool_inv p" using fixpool.run_inv [OF newPool_inv [OF assms(1)] none assms(2)] .
  then have i: "poolIndex hash u p < length (taskQueue p)"
    using poolIndex_less [OF inv] by (simp add: pool_inv_def)
  then have "length (taskQueue p ! poolIndex hash u p) \<le> 1024"
    using inv by (auto simp: pool_inv_def list_all_length chanSize_def)
  with i show ?thesis using fixpool.owner_fifo [OF newPool_inv [OF assms(1)] none assms(2), of u] by simp
qed

lemma worker_fifo_witness:
  "filter (\<lambda>t. fst t = ''a'') [(''a'', 1), (''b'', 2), (''a'', 3)] = [(''a'', 1::nat)] @ [(''a'', 3)]"
proof -
  have "foldl (pool_step (\<lambda>u t. Submit (\<lambda>_. 0) u (Some t)) takeTask fst) (newPool 1, [], [])
      [PSubmit (''a'', 1::nat), PSubmit (''b'', 2), PTake 0, PSubmit (''a'', 3)]
      = (\<lparr>maxWorkers = 1, taskQueue = [[(''b'', 2), (''a'', 3)]]\<rparr>, [(''a'', 1), (''b'', 2), (''a'', 3)], [(''a'', 1)])"
    by code_simp
  from worker_fifo [OF _ this, of "''a''"] show ?thesis by (simp add: poolIndex_def)
qed

end
