(* ===== verification/Sessions.thy ===== *)
theory Sessions
  imports Packets
begin

text \<open>
  Sessions (\<^verbatim>\<open>broker/lib/sessions\<close>): the methods of \<^verbatim>\<open>Session\<close> (\<^verbatim>\<open>session.go\<close>), the
  in-memory store (\<^verbatim>\<open>memprovider.go\<close>) and the registry and manager (\<^verbatim>\<open>sessions.go\<close>). The
  store hands out pointers, and two clients can hold the same session, so sessions live in a heap of
  their own, indexed by \<open>nat\<close>.
\<close>

section \<open>One session\<close>

datatype session_error =
    ErrAlreadyInitialized
  | ErrNotInitialized
  | ErrNoSession string
  | PanicNilConnect     \<comment> \<open>a method reads \<^verbatim>\<open>s.cmsg\<close> while it is nil\<close>
  | PanicNilTopics      \<comment> \<open>an assignment to an entry of a nil map\<close>

record Session =
  cmsg :: "connectPacket option"
  Will :: "publishPacket option"
  RetainedMsg :: "publishPacket option"
  sessTopics :: "(string \<times> byte) list option"
  initted :: bool
  sessId :: string

definition zeroSession :: "string \<Rightarrow> Session" where
  "zeroSession sid = \<lparr>cmsg = None, Will = None, RetainedMsg = None, sessTopics = None, initted = False, sessId = sid\<rparr>"

definition Init :: "connectPacket \<Rightarrow> Session \<Rightarrow> Session \<times> session_error option" where
  "Init msg s =
     (if initted s then (s, Some ErrAlreadyInitialized)
      else
        (let s1 = s\<lparr>cmsg := Some msg\<rparr>;
             s2 = (if WillFlag msg
                   then s1\<lparr>Will := Some (newPublish\<lparr>Qos := HeaderQos msg, TopicName := WillTopic msg,
                            Payload := WillMessage msg, Retain := WillRetain msg\<rparr>)\<rparr>
                   else s1)
         in (s2\<lparr>sessTopics := Some [], sessId := ClientIdentifier msg, initted := True\<rparr>, None)))"

definition Update :: "connectPacket \<Rightarrow> Session \<Rightarrow> Session \<times> session_error option" where
  "Update msg s = (s\<lparr>cmsg := Some msg\<rparr>, None)"

definition RetainMessage :: "publishPacket \<Rightarrow> Session \<Rightarrow> Session \<times> session_error option" where
  "RetainMessage msg s = (s\<lparr>RetainedMsg := Some msg\<rparr>, None)"

definition AddTopic :: "string \<Rightarrow> byte \<Rightarrow> Session \<Rightarrow> Session \<times> session_error option" where
  "AddTopic topic qos s =
     (if \<not> initted s then (s, Some ErrNotInitialized)
      else (case sessTopics s of
        None \<Rightarrow> (s, Some PanicNilTopics)
      | Some ts \<Rightarrow> (s\<lparr>sessTopics := Some (AList.update topic qos ts)\<rparr>, None)))"

definition RemoveTopic :: "string \<Rightarrow> Session \<Rightarrow> Session \<times> session_error option" where
  "RemoveTopic topic s =
     (if \<not> initted s then (s, Some ErrNotInitialized)
      else (s\<lparr>sessTopics := map_option (AList.delete topic) (sessTopics s)\<rparr>, None))"

definition Topics :: "Session \<Rightarrow> session_error + (string list \<times> byte list)" where
  "Topics s =
     (if \<not> initted s then Inl ErrNotInitialized
      else (case sessTopics s of None \<Rightarrow> Inr ([], []) | Some ts \<Rightarrow> Inr (map fst ts, map snd ts)))"

definition withConnect :: "(connectPacket \<Rightarrow> 'a) \<Rightarrow> Session \<Rightarrow> session_error + 'a" where
  "withConnect f s = (case cmsg s of None \<Rightarrow> Inl PanicNilConnect | Some m \<Rightarrow> Inr (f m))"

definition ID :: "Session \<Rightarrow> session_error + string" where
  "ID = withConnect ClientIdentifier"

definition getWillFlag :: "Session \<Rightarrow> session_error + bool" where
  "getWillFlag = withConnect WillFlag"

definition SetWillFlag :: "bool \<Rightarrow> Session \<Rightarrow> session_error + Session" where
  "SetWillFlag v s = withConnect (\<lambda>m. s\<lparr>cmsg := Some (m\<lparr>WillFlag := v\<rparr>)\<rparr>) s"

definition getCleanSession :: "Session \<Rightarrow> session_error + bool" where
  "getCleanSession = withConnect CleanSession"

section \<open>What a session records\<close>

text \<open>The topics of a session as a partial function, and the invariant of the type.\<close>

definition topicsOf :: "Session \<Rightarrow> string \<Rightarrow> byte option" where
  "topicsOf s = (case sessTopics s of None \<Rightarrow> Map.empty | Some ts \<Rightarrow> map_of ts)"

definition session_ok :: "Session \<Rightarrow> bool" where
  "session_ok s =
     ((initted s \<longrightarrow> sessTopics s \<noteq> None \<and> cmsg s \<noteq> None)
      \<and> (case sessTopics s of None \<Rightarrow> True | Some ts \<Rightarrow> distinct_keys ts))"

lemma zeroSession_ok [simp]: "session_ok (zeroSession sid)" "\<not> initted (zeroSession sid)"
  "topicsOf (zeroSession sid) = Map.empty"
  by (auto simp: session_ok_def zeroSession_def topicsOf_def)

lemma Init_ok: "session_ok s \<Longrightarrow> session_ok (fst (Init m s)) \<and> initted (fst (Init m s))"
  by (auto simp: Init_def session_ok_def Let_def)

lemma Init_fresh: "\<not> initted s \<Longrightarrow> snd (Init m s) = None \<and> topicsOf (fst (Init m s)) = Map.empty \<and> cmsg (fst (Init m s)) = Some m"
  by (auto simp: Init_def topicsOf_def Let_def)

lemma Update_ok: "session_ok s \<Longrightarrow> session_ok (fst (Update m s))" "topicsOf (fst (Update m s)) = topicsOf s"
  "initted (fst (Update m s)) = initted s" "snd (Update m s) = None"
  by (auto simp: Update_def session_ok_def topicsOf_def)

lemma AddTopic_ok:
  assumes "session_ok s"
  shows "session_ok (fst (AddTopic t q s))"
    and "snd (AddTopic t q s) = (if initted s then None else Some ErrNotInitialized)"
    and "topicsOf (fst (AddTopic t q s)) = (if initted s then (topicsOf s)(t \<mapsto> q) else topicsOf s)"
    and "initted (fst (AddTopic t q s)) = initted s"
  using assms
  by (auto simp: AddTopic_def session_ok_def topicsOf_def go_map intro: keys_intro split: option.splits)

lemma RemoveTopic_ok:
  assumes "session_ok s"
  shows "session_ok (fst (RemoveTopic t s))"
    and "snd (RemoveTopic t s) = (if initted s then None else Some ErrNotInitialized)"
    and "topicsOf (fst (RemoveTopic t s)) = (if initted s then (topicsOf s)(t := None) else topicsOf s)"
    and "initted (fst (RemoveTopic t s)) = initted s"
  using assms
  by (auto simp: RemoveTopic_def session_ok_def topicsOf_def go_map intro: keys_intro split: option.splits)

text \<open>\<^verbatim>\<open>Topics\<close> lists each topic once, with its QoS at the same index.\<close>

lemma Topics_lists:
  assumes "session_ok s" "initted s"
  shows "\<exists>ts qs. Topics s = Inr (ts, qs) \<and> distinct ts \<and> length ts = length qs \<and> map_of (zip ts qs) = topicsOf s"
proof -
  obtain m where m: "sessTopics s = Some m" "distinct_keys m" using assms by (auto simp: session_ok_def)
  have "zip (map fst m) (map snd m) = m" by (simp add: zip_map_fst_snd)
  with m assms(2) show ?thesis by (auto simp: Topics_def topicsOf_def distinct_keys_def)
qed

section \<open>The store\<close>

type_synonym sref = nat

record memProvider =
  st :: "(string \<times> sref) list"
  sessHeap :: "sref \<Rightarrow> Session"
  sessNext :: sref

definition NewSessionProvider :: memProvider where
  "NewSessionProvider = \<lparr>st = [], sessHeap = (\<lambda>_. zeroSession []), sessNext = 0\<rparr>"

definition mpNew :: "string \<Rightarrow> memProvider \<Rightarrow> memProvider \<times> sref" where
  "mpNew sid p =
     (let r = sessNext p in
      (p\<lparr>st := AList.update sid r (st p), sessHeap := (sessHeap p)(r := zeroSession sid), sessNext := r + 1\<rparr>, r))"

definition mpGet :: "string \<Rightarrow> memProvider \<Rightarrow> session_error + sref" where
  "mpGet sid p = (case map_of (st p) sid of None \<Rightarrow> Inl (ErrNoSession sid) | Some r \<Rightarrow> Inr r)"

definition mpDel :: "string \<Rightarrow> memProvider \<Rightarrow> memProvider" where
  "mpDel sid p = p\<lparr>st := AList.delete sid (st p)\<rparr>"

definition mpSave :: "string \<Rightarrow> memProvider \<Rightarrow> session_error option" where
  "mpSave sid p = None"

definition mpCount :: "memProvider \<Rightarrow> nat" where
  "mpCount p = length (st p)"

definition mpClose :: "memProvider \<Rightarrow> memProvider" where
  "mpClose p = p\<lparr>st := []\<rparr>"

text \<open>A change of the session behind a pointer.\<close>

definition onSession :: "sref \<Rightarrow> (Session \<Rightarrow> Session) \<Rightarrow> memProvider \<Rightarrow> memProvider" where
  "onSession r f p = p\<lparr>sessHeap := (sessHeap p)(r := f (sessHeap p r))\<rparr>"

section \<open>Registry and manager\<close>

datatype session_registry_error = PanicNilSessions | PanicDupSessions string | ErrUnknownSessions string

definition RegisterSessions :: "string \<Rightarrow> 'p option \<Rightarrow> (string \<times> 'p) list \<Rightarrow> session_registry_error + (string \<times> 'p) list" where
  "RegisterSessions name provider providers =
     (case provider of
        None \<Rightarrow> Inl PanicNilSessions
      | Some p \<Rightarrow>
          (case map_of providers name of
             Some _ \<Rightarrow> Inl (PanicDupSessions name)
           | None \<Rightarrow> Inr (AList.update name p providers)))"

definition UnregisterSessions :: "string \<Rightarrow> (string \<times> 'p) list \<Rightarrow> (string \<times> 'p) list" where
  "UnregisterSessions name providers = AList.delete name providers"

definition NewSessionManager :: "string \<Rightarrow> (string \<times> 'p) list \<Rightarrow> session_registry_error + 'p" where
  "NewSessionManager providerName providers =
     (case map_of providers providerName of None \<Rightarrow> Inl (ErrUnknownSessions providerName) | Some p \<Rightarrow> Inr p)"

text \<open>
  \<^verbatim>\<open>sessionId()\<close>: 15 random bytes in the URL alphabet of base64, three bytes to four
  characters, or the empty string when the random source failed (\<open>None\<close>).
\<close>

definition base64Char :: "nat \<Rightarrow> char" where
  "base64Char n =
     char_of (if n < 26 then 65 + n else if n < 52 then 71 + n else if n < 62 then n - 4 else if n = 62 then 45 else (95::nat))"

fun base64 :: "byte list \<Rightarrow> string" where
  "base64 (a # b # c # rest) =
     base64Char (unat a div 4) # base64Char (unat a mod 4 * 16 + unat b div 16)
     # base64Char (unat b mod 16 * 4 + unat c div 64) # base64Char (unat c mod 64) # base64 rest"
| "base64 [a, b] =
     [base64Char (unat a div 4), base64Char (unat a mod 4 * 16 + unat b div 16), base64Char (unat b mod 16 * 4), CHR ''='']"
| "base64 [a] = [base64Char (unat a div 4), base64Char (unat a mod 4 * 16), CHR ''='', CHR ''='']"
| "base64 [] = []"

definition sessionId :: "byte list option \<Rightarrow> string" where
  "sessionId random = (case random of None \<Rightarrow> [] | Some b \<Rightarrow> base64 b)"

lemma base64_length: "length (base64 bs) = 4 * ((length bs + 2) div 3)"
  by (induction bs rule: base64.induct) (simp, presburger, simp_all)

lemma sessionId_length: "length bs = 15 \<Longrightarrow> length (sessionId (Some bs)) = 20"
  by (simp add: sessionId_def base64_length)

text \<open>
  \<^verbatim>\<open>Manager.New\<close>: an empty id is replaced by \<open>rnd\<close>, what \<^verbatim>\<open>sessionId()\<close> returned. The
  other methods of the manager are those of its provider, the record of the methods of the interface
  \<^verbatim>\<open>SessionsProvider\<close>.
\<close>

record 'p SessionsProvider =
  pNew :: "string \<Rightarrow> 'p \<Rightarrow> 'p \<times> sref"
  pGet :: "string \<Rightarrow> 'p \<Rightarrow> session_error + sref"
  pDel :: "string \<Rightarrow> 'p \<Rightarrow> 'p"
  pSave :: "string \<Rightarrow> 'p \<Rightarrow> session_error option"
  pCount :: "'p \<Rightarrow> nat"
  pEnd :: "'p \<Rightarrow> 'p"   \<comment> \<open>\<^verbatim>\<open>Close\<close>\<close>

definition memSessions :: "memProvider SessionsProvider" where
  "memSessions = \<lparr>pNew = mpNew, pGet = mpGet, pDel = mpDel, pSave = mpSave, pCount = mpCount, pEnd = mpClose\<rparr>"

definition managerGet where "managerGet m sid = pGet m sid"
definition managerDel where "managerDel m sid = pDel m sid"
definition managerSave where "managerSave m sid = pSave m sid"
definition managerCount where "managerCount m = pCount m"
definition managerEnd where "managerEnd m = pEnd m"

lemma session_manager_mem:
  "managerGet memSessions = mpGet" "managerDel memSessions = mpDel" "managerSave memSessions = mpSave"
  "managerCount memSessions = mpCount" "managerEnd memSessions = mpClose"
  by (simp_all add: fun_eq_iff memSessions_def managerGet_def managerDel_def managerSave_def managerCount_def managerEnd_def)

definition managerNew :: "string \<Rightarrow> string \<Rightarrow> memProvider \<Rightarrow> memProvider \<times> sref" where
  "managerNew rnd sid p = mpNew (if sid = [] then rnd else sid) p"

section \<open>The store as an interface\<close>

text \<open>
  What the broker relies on (\<^verbatim>\<open>SessionsProvider\<close>): a new session is found under its id, has a
  pointer nobody else holds and starts uninitialised; the other ids keep their sessions.
\<close>

locale sessions_provider =
  fixes new :: "string \<Rightarrow> 'p \<Rightarrow> 'p \<times> sref"
    and get :: "string \<Rightarrow> 'p \<Rightarrow> 'e + sref"
    and del :: "string \<Rightarrow> 'p \<Rightarrow> 'p"
    and count :: "'p \<Rightarrow> nat"
    and deref :: "'p \<Rightarrow> sref \<Rightarrow> Session"
    and store :: "sref \<Rightarrow> (Session \<Rightarrow> Session) \<Rightarrow> 'p \<Rightarrow> 'p"
    and inv :: "'p \<Rightarrow> bool"
    and ids :: "'p \<Rightarrow> string \<Rightarrow> sref option"
  assumes get_ids: "get i p = Inr r \<longleftrightarrow> ids p i = Some r"
    and new_inv: "inv p \<Longrightarrow> inv (fst (new i p))"
    and new_ids: "inv p \<Longrightarrow> ids (fst (new i p)) = (ids p)(i \<mapsto> snd (new i p))"
    and new_fresh: "inv p \<Longrightarrow> snd (new i p) \<notin> ran (ids p)"
    and new_zero: "deref (fst (new i p)) (snd (new i p)) = zeroSession i"
    and new_others: "inv p \<Longrightarrow> r \<in> ran (ids p) \<Longrightarrow> deref (fst (new i p)) r = deref p r"
    and del_inv: "inv p \<Longrightarrow> inv (del i p)"
    and del_ids: "ids (del i p) = (ids p)(i := None)"
    and count_ids: "inv p \<Longrightarrow> count p = card (dom (ids p))"
    and store_inv: "inv p \<Longrightarrow> session_ok (deref p r) \<Longrightarrow> session_ok (f (deref p r)) \<Longrightarrow> inv (store r f p)"
    and store_ids: "ids (store r f p) = ids p"
    and store_deref: "deref (store r f p) s = (if s = r then f (deref p r) else deref p s)"
    and inv_session: "inv p \<Longrightarrow> session_ok (deref p r)"
begin

lemma get_new: "inv p \<Longrightarrow> get j (fst (new i p)) = Inr (snd (new i p)) \<longleftrightarrow> j = i"
  using new_fresh [of p i] by (auto simp: get_ids new_ids ran_def)

lemma get_del: "get i (del i p) \<noteq> Inr r"
  by (simp add: get_ids del_ids)

lemma new_keeps: "inv p \<Longrightarrow> get j p = Inr r \<Longrightarrow> j \<noteq> i \<Longrightarrow> get j (fst (new i p)) = Inr r \<and> deref (fst (new i p)) r = deref p r"
  using new_others [of p r i] by (auto simp: get_ids new_ids ran_def)

lemma init_new_inv: "inv p \<Longrightarrow> inv (store (snd (new i p)) (\<lambda>s. fst (Init m s)) (fst (new i p)))"
  by (intro store_inv new_inv) (auto simp: new_zero Init_ok)

end

definition mp_inv :: "memProvider \<Rightarrow> bool" where
  "mp_inv p = (distinct_keys (st p) \<and> (\<forall>r \<in> set (map snd (st p)). r < sessNext p) \<and> (\<forall>r. session_ok (sessHeap p r)))"

lemma mp_inv_new [simp]: "mp_inv NewSessionProvider"
  by (simp add: mp_inv_def NewSessionProvider_def)

lemma distinct_keys_card: "distinct_keys m \<Longrightarrow> card (dom (map_of m)) = length m"
proof -
  assume "distinct_keys m"
  then have "card (set (map fst m)) = length (map fst m)"
    unfolding distinct_keys_def by (rule distinct_card)
  moreover have "dom (map_of m) = set (map fst m)" by (simp add: dom_map_of_conv_image_fst)
  ultimately show ?thesis by simp
qed

lemma ran_map_of_subset: "ran (map_of m) \<subseteq> snd ` set m"
  by (force simp: ran_def dest: map_of_SomeD)

interpretation mem_sessions: sessions_provider mpNew mpGet mpDel mpCount sessHeap onSession mp_inv "\<lambda>p. map_of (st p)"
proof unfold_locales
  fix i and p :: memProvider
  have old: "r < sessNext p" if "mp_inv p" "r \<in> ran (map_of (st p))" for r
    using that ran_map_of_subset [of "st p"] by (auto simp: mp_inv_def)
  show "mpGet i p = Inr r \<longleftrightarrow> map_of (st p) i = Some r" for r
    by (simp add: mpGet_def split: option.split)
  show "mp_inv p \<Longrightarrow> mp_inv (fst (mpNew i p))"
    using set_update_other [of _ _ i "sessNext p" "st p"]
    by (fastforce simp: mp_inv_def mpNew_def Let_def intro: keys_intro)
  show "map_of (st (fst (mpNew i p))) = (map_of (st p))(i \<mapsto> snd (mpNew i p))"
    by (simp add: mpNew_def Let_def go_map)
  show "mp_inv p \<Longrightarrow> snd (mpNew i p) \<notin> ran (map_of (st p))"
    using old by (force simp: mpNew_def Let_def)
  show "sessHeap (fst (mpNew i p)) (snd (mpNew i p)) = zeroSession i"
    by (simp add: mpNew_def Let_def)
  show "mp_inv p \<Longrightarrow> r \<in> ran (map_of (st p)) \<Longrightarrow> sessHeap (fst (mpNew i p)) r = sessHeap p r" for r
    using old by (force simp: mpNew_def Let_def)
  show "mp_inv p \<Longrightarrow> mp_inv (mpDel i p)"
    using set_delete_subset [of i "st p"] by (auto simp: mp_inv_def mpDel_def intro: keys_intro)
  show "map_of (st (mpDel i p)) = (map_of (st p))(i := None)"
    by (simp add: mpDel_def go_map)
  show "mp_inv p \<Longrightarrow> mpCount p = card (dom (map_of (st p)))"
    by (simp add: mp_inv_def mpCount_def distinct_keys_card)
  show "mp_inv p \<Longrightarrow> session_ok (sessHeap p r) \<Longrightarrow> session_ok (f (sessHeap p r)) \<Longrightarrow> mp_inv (onSession r f p)" for r f
    by (simp add: mp_inv_def onSession_def)
  show "map_of (st (onSession r f p)) = map_of (st p)" for r f
    by (simp add: onSession_def)
  show "sessHeap (onSession r f p) s = (if s = r then f (sessHeap p r) else sessHeap p s)" for r f s
    by (simp add: onSession_def)
  show "mp_inv p \<Longrightarrow> session_ok (sessHeap p r)" for r
    by (simp add: mp_inv_def)
qed

end
