(* ===== verification/Metrics.thy ===== *)
theory Metrics
  imports Hmq_Prelude
begin

text \<open>
  The counters the program exports (\<^verbatim>\<open>metrics/metrics_manager.go\<close>) and their set-up in
  \<^verbatim>\<open>broker/http.go\<close>. The Prometheus library is a parameter: its operations on a collection of
  gauges, each of which can fail. What the code relies on of it is the predicate \<open>gauge_laws\<close>.
\<close>

section \<open>The manager\<close>

record 'p prometheus =
  promNew :: 'p
  addGauge :: "string \<Rightarrow> string \<Rightarrow> 'p \<Rightarrow> 'p"
  incGauge :: "string \<Rightarrow> 'p \<Rightarrow> 'p \<times> bool"   \<comment> \<open>with whether it succeeded, as the next two\<close>
  decGauge :: "string \<Rightarrow> 'p \<Rightarrow> 'p \<times> bool"
  setGauge :: "string \<Rightarrow> int \<Rightarrow> 'p \<Rightarrow> 'p \<times> bool"

record 'p Manager =
  prom :: "'p option"

text \<open>
  A method called on a nil manager reads a field of it and panics; on one without a library it is
  refused; otherwise the library decides.
\<close>

datatype metrics_error = PanicNilManager | ErrNotInitialised | ErrGauge

definition MetricNumberOfMessages :: string where "MetricNumberOfMessages = ''number_of_messages''"
definition MetricNumberOfClients :: string where "MetricNumberOfClients = ''number_of_clients''"

text \<open>\<^verbatim>\<open>Init\<close>: without an engine there is nothing to initialise.\<close>

definition metricsInit :: "'p prometheus \<Rightarrow> bool \<Rightarrow> 'p Manager \<Rightarrow> 'p Manager" where
  "metricsInit lib engine m =
     (if \<not> engine then m else m\<lparr>prom := Some (addGauge lib ''test'' ''test metric'' (promNew lib))\<rparr>)"

definition withProm :: "('p \<Rightarrow> 'p \<times> bool) \<Rightarrow> 'p Manager option \<Rightarrow> 'p Manager option \<times> metrics_error option" where
  "withProm f m =
     (case m of
        None \<Rightarrow> (m, Some PanicNilManager)
      | Some x \<Rightarrow>
          (case prom x of
             None \<Rightarrow> (m, Some ErrNotInitialised)
           | Some p \<Rightarrow> (case f p of (p1, ok) \<Rightarrow> (Some (x\<lparr>prom := Some p1\<rparr>), if ok then None else Some ErrGauge))))"

definition metricsAdd where
  "metricsAdd lib name help = withProm (\<lambda>p. (addGauge lib name help p, True))"

definition metricsInc where
  "metricsInc lib name = withProm (incGauge lib name)"

definition metricsDec where
  "metricsDec lib name = withProm (decGauge lib name)"

definition metricsSet where
  "metricsSet lib name v = withProm (setGauge lib name v)"

text \<open>The manager \<^verbatim>\<open>InitHTTP\<close> sets up.\<close>

definition initMetrics :: "'p prometheus \<Rightarrow> 'p Manager option" where
  "initMetrics lib =
     (let m = Some (metricsInit lib True \<lparr>prom = None\<rparr>);
          m1 = fst (metricsAdd lib MetricNumberOfMessages ''Total number of packets received'' m)
      in fst (metricsAdd lib MetricNumberOfClients ''Total number of clients connected'' m1))"

section \<open>Counting\<close>

text \<open>
  What the library promises, \<open>val\<close> being the value of a gauge: a new gauge is at 0; an increment and
  a decrement of an existing gauge succeed and, as long as the value is an exact floating point number,
  change it by one; and no operation touches another gauge.
\<close>

definition gauge_laws :: "'p prometheus \<Rightarrow> ('p \<Rightarrow> string \<Rightarrow> int option) \<Rightarrow> bool" where
  "gauge_laws lib val =
     ((\<forall>name help p. val (addGauge lib name help p) = (val p)(name \<mapsto> 0))
      \<and> (\<forall>name p v. val p name = Some v \<longrightarrow> \<bar>v\<bar> < 2 ^ 53 \<longrightarrow>
           snd (incGauge lib name p) \<and> val (fst (incGauge lib name p)) = (val p)(name \<mapsto> v + 1)
           \<and> snd (decGauge lib name p) \<and> val (fst (decGauge lib name p)) = (val p)(name \<mapsto> v - 1)))"

datatype count = Inc string | Dec string

fun countOne :: "'p prometheus \<Rightarrow> 'p Manager option \<times> metrics_error option \<Rightarrow> count \<Rightarrow> 'p Manager option \<times> metrics_error option" where
  "countOne lib (m, Some e) c = (m, Some e)"
| "countOne lib (m, None) (Inc name) = metricsInc lib name m"
| "countOne lib (m, None) (Dec name) = metricsDec lib name m"

definition tally :: "string \<Rightarrow> count list \<Rightarrow> int" where
  "tally name cs = int (length (filter (\<lambda>c. c = Inc name) cs)) - int (length (filter (\<lambda>c. c = Dec name) cs))"

definition gaugeOf :: "('p \<Rightarrow> string \<Rightarrow> int option) \<Rightarrow> 'p Manager option \<Rightarrow> string \<Rightarrow> int option" where
  "gaugeOf val m name = (case m of None \<Rightarrow> None | Some x \<Rightarrow> (case prom x of None \<Rightarrow> None | Some p \<Rightarrow> val p name))"

definition exported :: "count \<Rightarrow> bool" where
  "exported c = (case c of Inc n \<Rightarrow> n \<in> {MetricNumberOfMessages, MetricNumberOfClients}
                         | Dec n \<Rightarrow> n \<in> {MetricNumberOfMessages, MetricNumberOfClients})"

lemma gauge_lawsD:
  assumes "gauge_laws lib val"
  shows "val (addGauge lib name help p) = (val p)(name \<mapsto> 0)"
    "val p name = Some v \<Longrightarrow> \<bar>v\<bar> < 2 ^ 53 \<Longrightarrow> snd (incGauge lib name p)"
    "val p name = Some v \<Longrightarrow> \<bar>v\<bar> < 2 ^ 53 \<Longrightarrow> val (fst (incGauge lib name p)) = (val p)(name \<mapsto> v + 1)"
    "val p name = Some v \<Longrightarrow> \<bar>v\<bar> < 2 ^ 53 \<Longrightarrow> snd (decGauge lib name p)"
    "val p name = Some v \<Longrightarrow> \<bar>v\<bar> < 2 ^ 53 \<Longrightarrow> val (fst (decGauge lib name p)) = (val p)(name \<mapsto> v - 1)"
  using assms unfolding gauge_laws_def by blast+

lemma initMetrics_gauges:
  assumes "gauge_laws lib val"
  obtains p where "initMetrics lib = Some \<lparr>prom = Some p\<rparr>"
    "val p MetricNumberOfMessages = Some 0" "val p MetricNumberOfClients = Some 0"
  using gauge_lawsD(1) [OF assms]
  by (simp add: initMetrics_def metricsAdd_def metricsInit_def withProm_def Let_def
      MetricNumberOfMessages_def MetricNumberOfClients_def)

lemma countOne_exported:
  assumes "gauge_laws lib val" "exported c" "m = Some \<lparr>prom = Some p\<rparr>"
    and "\<forall>n \<in> {MetricNumberOfMessages, MetricNumberOfClients}. \<exists>v. val p n = Some v \<and> \<bar>v\<bar> < 2 ^ 53"
  obtains p' where "countOne lib (m, None) c = (Some \<lparr>prom = Some p'\<rparr>, None)"
    "\<And>n. n \<in> {MetricNumberOfMessages, MetricNumberOfClients} \<Longrightarrow> val p' n = Some (the (val p n) + tally n [c])"
proof (cases c)
  case (Inc name)
  with assms(2,4) obtain v where v: "val p name = Some v" "\<bar>v\<bar> < 2 ^ 53" by (auto simp: exported_def)
  have "countOne lib (m, None) c = (Some \<lparr>prom = Some (fst (incGauge lib name p))\<rparr>, None)"
    using gauge_lawsD(2) [OF assms(1) v]
    by (cases "incGauge lib name p") (simp add: Inc metricsInc_def withProm_def assms(3))
  then show thesis
    by (rule that) (use gauge_lawsD(3) [OF assms(1) v] v(1) assms(4) Inc in \<open>auto simp: tally_def\<close>)
next
  case (Dec name)
  with assms(2,4) obtain v where v: "val p name = Some v" "\<bar>v\<bar> < 2 ^ 53" by (auto simp: exported_def)
  have "countOne lib (m, None) c = (Some \<lparr>prom = Some (fst (decGauge lib name p))\<rparr>, None)"
    using gauge_lawsD(4) [OF assms(1) v]
    by (cases "decGauge lib name p") (simp add: Dec metricsDec_def withProm_def assms(3))
  then show thesis
    by (rule that) (use gauge_lawsD(5) [OF assms(1) v] v(1) assms(4) Dec in \<open>auto simp: tally_def\<close>)
qed

lemma tally_snoc: "tally n (cs @ [c]) = tally n cs + tally n [c]"
  by (simp add: tally_def)

lemma tally_bound: "\<bar>tally n cs\<bar> \<le> int (length cs)"
proof -
  have "length (filter (\<lambda>c. c = Inc n) cs) \<le> length cs" "length (filter (\<lambda>c. c = Dec n) cs) \<le> length cs"
    by simp_all
  then show ?thesis unfolding tally_def by linarith
qed

lemma counts_exported:
  assumes "gauge_laws lib val" "list_all exported cs" "length cs < 2 ^ 53"
  shows "\<exists>p. foldl (countOne lib) (initMetrics lib, None) cs = (Some \<lparr>prom = Some p\<rparr>, None)
    \<and> (\<forall>n \<in> {MetricNumberOfMessages, MetricNumberOfClients}. val p n = Some (tally n cs))"
  using assms(2,3)
proof (induction cs rule: rev_induct)
  case Nil
  obtain p where "initMetrics lib = Some \<lparr>prom = Some p\<rparr>"
    "val p MetricNumberOfMessages = Some 0" "val p MetricNumberOfClients = Some 0"
    using initMetrics_gauges [OF assms(1)] by blast
  then show ?case by (simp add: tally_def)
next
  case (snoc c cs)
  then obtain p where p: "foldl (countOne lib) (initMetrics lib, None) cs = (Some \<lparr>prom = Some p\<rparr>, None)"
    "\<forall>n \<in> {MetricNumberOfMessages, MetricNumberOfClients}. val p n = Some (tally n cs)" by auto
  have "\<bar>tally n cs\<bar> < 2 ^ 53" for n using tally_bound [of n cs] snoc.prems(2) by simp
  with p(2) have "\<forall>n \<in> {MetricNumberOfMessages, MetricNumberOfClients}. \<exists>v. val p n = Some v \<and> \<bar>v\<bar> < 2 ^ 53" by blast
  from countOne_exported [OF assms(1) _ refl this, of c] snoc.prems(1)
  obtain p' where "countOne lib (Some \<lparr>prom = Some p\<rparr>, None) c = (Some \<lparr>prom = Some p'\<rparr>, None)"
    "\<And>n. n \<in> {MetricNumberOfMessages, MetricNumberOfClients} \<Longrightarrow> val p' n = Some (the (val p n) + tally n [c])"
    by auto
  with p show ?case by (auto simp: tally_snoc)
qed

text \<open>
  Once the HTTP server is set up, counting never fails and each exported counter stands at its
  increments less its decrements, whatever the order; before that every operation panics, and on a
  manager that was not initialised each is refused.
\<close>

theorem counters_count:
  assumes "gauge_laws lib val" "list_all exported cs" "length cs < 2 ^ 53"
    and "n \<in> {MetricNumberOfMessages, MetricNumberOfClients}"
  shows "snd (foldl (countOne lib) (initMetrics lib, None) cs) = None
    \<and> gaugeOf val (fst (foldl (countOne lib) (initMetrics lib, None) cs)) n = Some (tally n cs)
    \<and> snd (metricsInc lib n None) = Some PanicNilManager
    \<and> snd (metricsInc lib n (Some \<lparr>prom = None\<rparr>)) = Some ErrNotInitialised"
  using counts_exported [OF assms(1,2,3)] assms(4) by (auto simp: gaugeOf_def metricsInc_def withProm_def)

text \<open>Gauges as a map of their own, for an instance.\<close>

definition mapGauges :: "(string \<Rightarrow> int option) prometheus" where
  "mapGauges =
     \<lparr>promNew = Map.empty, addGauge = (\<lambda>name help p. p(name \<mapsto> 0)),
      incGauge = (\<lambda>name p. (p(name := map_option (\<lambda>v. v + 1) (p name)), p name \<noteq> None)),
      decGauge = (\<lambda>name p. (p(name := map_option (\<lambda>v. v - 1) (p name)), p name \<noteq> None)),
      setGauge = (\<lambda>name v p. (p(name := map_option (\<lambda>_. v) (p name)), p name \<noteq> None))\<rparr>"

lemma counters_count_witness:
  "gaugeOf (\<lambda>p. p) (fst (foldl (countOne mapGauges) (initMetrics mapGauges, None)
     [Inc MetricNumberOfClients, Inc MetricNumberOfClients, Dec MetricNumberOfClients])) MetricNumberOfClients = Some 1"
proof -
  let ?cs = "[Inc MetricNumberOfClients, Inc MetricNumberOfClients, Dec MetricNumberOfClients]"
  have laws: "gauge_laws mapGauges (\<lambda>p. p)" by (simp add: gauge_laws_def mapGauges_def)
  have all: "list_all exported ?cs" "length ?cs < 2 ^ 53" by (simp_all add: exported_def)
  have "MetricNumberOfClients \<in> {MetricNumberOfMessages, MetricNumberOfClients}" by simp
  from counters_count [OF laws all this] show ?thesis by (simp add: tally_def)
qed

end
