(* ===== verification/Broker_State.thy ===== *)
theory Broker_State
  imports Mem_Topics Sessions Auth Bridge_Kafka Worker_Pool Metrics
begin

text \<open>
  The state of a broker (\<^verbatim>\<open>broker/broker.go\<close>, the types of \<^verbatim>\<open>broker/client.go\<close>). Clients and
  subscriptions are objects behind pointers, so each has a heap of its own: a total function from
  addresses with the next free address. A Go map is an association list, whose order stands for the
  order of a \<^verbatim>\<open>range\<close>. What the program does to the outside world is the list \<open>trace\<close>, and what it
  counts, as calls of the metrics manager, the list \<open>counted\<close>.
\<close>

section \<open>Clients and subscriptions\<close>

type_synonym cref = nat
type_synonym subref = nat
type_synonym connId = nat

text \<open>The connection types; the source numbers them from 0.\<close>

datatype ctype = CLIENT | ROUTER | REMOTE | CLUSTER

text \<open>The status is 0 before \<^verbatim>\<open>init\<close>, then 1 or 2.\<close>

datatype cstatus = NoStatus | Connected | Disconnected

datatype InflightStatus = Publish | Pubrel

text \<open>The status of an element in flight is a number in the source, and only ever increases.\<close>

instantiation InflightStatus :: linorder
begin

definition less_eq_InflightStatus :: "InflightStatus \<Rightarrow> InflightStatus \<Rightarrow> bool" where
  "less_eq_InflightStatus a b = (a = Publish \<or> b = Pubrel)"

definition less_InflightStatus :: "InflightStatus \<Rightarrow> InflightStatus \<Rightarrow> bool" where
  "less_InflightStatus a b = (a = Publish \<and> b = Pubrel)"

instance
proof
  fix a b c :: InflightStatus
  show "(a < b) = (a \<le> b \<and> \<not> b \<le> a)" "a \<le> a" "a \<le> b \<or> b \<le> a"
    by (cases a; cases b; simp add: less_eq_InflightStatus_def less_InflightStatus_def)+
  show "a \<le> b \<Longrightarrow> b \<le> c \<Longrightarrow> a \<le> c" "a \<le> b \<Longrightarrow> b \<le> a \<Longrightarrow> a = b"
    by (cases a; cases b; simp add: less_eq_InflightStatus_def)+
qed

end

record inflightElem =
  istatus :: InflightStatus
  ipacket :: publishPacket
  itimestamp :: int

record subscription =
  sclient :: cref
  stopic :: string
  subQos :: byte
  share :: bool
  groupName :: string

text \<open>
  A client, with the fields of its \<^verbatim>\<open>info\<close> and \<^verbatim>\<open>route\<close>. \<open>cancelled\<close> is whether its context
  was cancelled, \<open>found\<close> the pair of the reused slices \<^verbatim>\<open>subs\<close> and \<^verbatim>\<open>qoss\<close>,
  \<open>retryTimer\<close> the interval of a pending retry timer. \<open>reading\<close> and \<open>pinging\<close> say whether its
  goroutines \<^verbatim>\<open>readLoop\<close> and \<^verbatim>\<open>StartPing\<close> are running.
\<close>

record client =
  ctyp :: ctype
  conn :: "connId option"
  clientID :: string
  cusername :: string
  cpassword :: string
  keepAlive :: uint16
  willMsg :: "publishPacket option"
  localIP :: string
  remoteIP :: string
  remoteID :: string
  remoteUrl :: string
  status :: cstatus
  cancelled :: bool
  csession :: "sref option"
  subMap :: "(string \<times> subref) list"
  foundSubs :: found
  rmsgs :: "publishPacket list"
  routeSubMap :: "(string \<times> uint64) list"
  awaitingRel :: "(uint16 \<times> int) list"
  maxAwaitingRel :: int
  inflight :: "(uint16 \<times> inflightElem) list"
  retryTimer :: "int option"
  reading :: bool
  pinging :: bool

text \<open>
  \<^verbatim>\<open>client.init\<close> on a client made from its type, connection, info and route. The addresses of the
  connection are given.
\<close>

definition initClient ::
  "ctype \<Rightarrow> connId \<Rightarrow> string \<Rightarrow> string \<Rightarrow> string \<Rightarrow> uint16 \<Rightarrow> publishPacket option \<Rightarrow> string \<Rightarrow> string \<Rightarrow>
   string \<Rightarrow> string \<Rightarrow> client"
where
  "initClient ty k cid user pass keep will lip rip rid url =
     \<lparr>ctyp = ty, conn = Some k, clientID = cid, cusername = user, cpassword = pass, keepAlive = keep,
      willMsg = will, localIP = lip, remoteIP = rip, remoteID = rid, remoteUrl = url, status = Connected,
      cancelled = False, csession = None, subMap = [], foundSubs = ([], []), rmsgs = [], routeSubMap = [],
      awaitingRel = [], maxAwaitingRel = 0, inflight = [], retryTimer = None, reading = False, pinging = False\<rparr>"

text \<open>What the heap holds where nothing was allocated.\<close>

definition noClient :: client where
  "noClient = (initClient CLIENT 0 [] [] [] 0 None [] [] [] [])\<lparr>conn := None, status := Disconnected\<rparr>"

definition noSubscription :: subscription where
  "noSubscription = \<lparr>sclient = 0, stopic = [], subQos = 0, share = False, groupName = []\<rparr>"

section \<open>The broker\<close>

record message =
  mclient :: cref
  mpacket :: controlPacket

text \<open>
  A write to a connection carries whether it succeeded. \<open>Slept\<close> is a pause in seconds.
\<close>

datatype effect =
    Wrote connId controlPacket bool
  | ConnClosed connId
  | Bridged Elements
  | Dialed string bool
  | Slept nat

text \<open>The goroutines started with \<^verbatim>\<open>go\<close> from a handler.\<close>

datatype goroutine = GoBroadcast controlPacket | GoConnectRouter string string

datatype jvalue = JString string | JOther

record broker =
  brokerId :: string
  clusterPort :: string
  routerAddr :: string
  clients :: "(string \<times> cref) list"
  routes :: "(string \<times> cref) list"
  remotes :: "(string \<times> cref) list"
  nodes :: "(string \<times> jvalue) list"
  wpool :: "message WorkerPool"
  clusterPool :: "message list"
  topicsMgr :: memTopics
  sessionMgr :: memProvider
  bauth :: "authPlugin option"
  bridgeMQ :: bool
  metricsOn :: bool
  cheap :: "cref \<Rightarrow> client"
  cnext :: cref
  sheap :: "subref \<Rightarrow> subscription"
  snext :: subref
  connNext :: connId
  goroutines :: "goroutine list"
  trace :: "effect list"
  counted :: "count list"
  crashed :: bool
  stuck :: bool

text \<open>
  \<^verbatim>\<open>NewBroker\<close>, given the settings it reads from the configuration. The flags \<open>crashed\<close> (a
  goroutine panicked, which ends the process) and \<open>stuck\<close> (the fuel of the model ran out) are
  down.
\<close>

definition NewBroker ::
  "string \<Rightarrow> string \<Rightarrow> string \<Rightarrow> int \<Rightarrow> authPlugin option \<Rightarrow> bool \<Rightarrow> bool \<Rightarrow> broker"
where
  "NewBroker bid cport router workers auth bridge metrics =
     \<lparr>brokerId = bid, clusterPort = cport, routerAddr = router, clients = [], routes = [], remotes = [],
      nodes = [], wpool = newPool workers, clusterPool = [], topicsMgr = NewMemProvider,
      sessionMgr = NewSessionProvider, bauth = auth, bridgeMQ = bridge, metricsOn = metrics,
      cheap = (\<lambda>_. noClient), cnext = 0, sheap = (\<lambda>_. noSubscription), snext = 0, connNext = 0,
      goroutines = [], trace = [], counted = [], crashed = False, stuck = False\<rparr>"

text \<open>
  What a handler finds in its environment: the clock, whether the n-th effect, when it is a write,
  succeeds, the random choice, the authorisation server and cache, the checks of the packet library,
  the parser of cluster information, the outcome of dialling, fresh ids, addresses, the hash.
\<close>

record env =
  now :: int
  clock :: string
  writeOk :: "nat \<Rightarrow> bool"
  pick :: "nat \<Rightarrow> nat"
  authCacheGet :: cache_get
  authServer :: "auth_request \<Rightarrow> auth_response"
  validateConnect :: "connectPacket \<Rightarrow> byte"
  parseInfo :: "string \<Rightarrow> (string \<times> jvalue) list option"
  dialOk :: "nat \<Rightarrow> bool"
  discoveryFails :: nat
  uuid :: "nat \<Rightarrow> string"
  sessionRnd :: string
  connLocalIP :: string
  connRemoteIP :: string
  hashString :: "string \<Rightarrow> uint64"

section \<open>Access\<close>

definition upd :: "cref \<Rightarrow> (client \<Rightarrow> client) \<Rightarrow> broker \<Rightarrow> broker" where
  "upd c f b = b\<lparr>cheap := (cheap b)(c := f (cheap b c))\<rparr>"

definition emit :: "effect \<Rightarrow> broker \<Rightarrow> broker" where
  "emit e b = b\<lparr>trace := trace b @ [e]\<rparr>"

text \<open>A call of the metrics manager, when there is one.\<close>

definition counting :: "count \<Rightarrow> broker \<Rightarrow> broker" where
  "counting x b = b\<lparr>counted := counted b @ [x]\<rparr>"

definition crash :: "broker \<Rightarrow> broker" where
  "crash b = b\<lparr>crashed := True\<rparr>"

definition spawn :: "goroutine \<Rightarrow> broker \<Rightarrow> broker" where
  "spawn g b = b\<lparr>goroutines := goroutines b @ [g]\<rparr>"

definition allocClient :: "client \<Rightarrow> broker \<Rightarrow> broker \<times> cref" where
  "allocClient x b = (b\<lparr>cheap := (cheap b)(cnext b := x), cnext := cnext b + 1\<rparr>, cnext b)"

definition allocSub :: "subscription \<Rightarrow> broker \<Rightarrow> broker \<times> subref" where
  "allocSub s b = (b\<lparr>sheap := (sheap b)(snext b := s), snext := snext b + 1\<rparr>, snext b)"

text \<open>A subscription as the value the topic provider stores.\<close>

definition subPtr :: "subref \<Rightarrow> gval" where
  "subPtr r = GPtr TSubscription r"

fun asSub :: "gval \<Rightarrow> subref option" where
  "asSub (GPtr TSubscription r) = Some r"
| "asSub _ = None"

lemma asSub_subPtr [simp]: "asSub (subPtr r) = Some r"
  by (simp add: subPtr_def)

lemma asSub_Some: "asSub x = Some r \<longleftrightarrow> x = subPtr r"
  by (cases x rule: asSub.cases) (auto simp: subPtr_def)

lemma identity_subPtr [simp]: "identity (subPtr r)"
  by (simp add: subPtr_def)

lemma subPtr_inj [simp]: "subPtr r = subPtr s \<longleftrightarrow> r = s"
  by (simp add: subPtr_def)

section \<open>The bridge\<close>

definition element :: "client \<Rightarrow> string \<Rightarrow> int \<Rightarrow> string \<Rightarrow> string \<Rightarrow> Elements" where
  "element c action ts payload topic =
     \<lparr>eClientID = clientID c, eUsername = cusername c, eTopic = topic, ePayload = payload, eTimestamp = ts,
      eSize = 0, eAction = action\<rparr>"

text \<open>\<^verbatim>\<open>Broker.Publish\<close>: an error of the bridge is only logged.\<close>

definition bridgePublish :: "Elements \<Rightarrow> broker \<Rightarrow> broker" where
  "bridgePublish e b = (if bridgeMQ b then emit (Bridged e) b else b)"

section \<open>Authorisation\<close>

definition brokerTopicAuth :: "env \<Rightarrow> string \<Rightarrow> client \<Rightarrow> string \<Rightarrow> broker \<Rightarrow> broker \<times> bool" where
  "brokerTopicAuth env action c topic b =
     (case bauth b of
        None \<Rightarrow> (b, True)
      | Some a \<Rightarrow>
          (case CheckTopicAuth (Some (pluginACL (authCacheGet env) (authServer env))) action
                  (clientID c) (cusername c) (remoteIP c) topic a of
             (a1, ok) \<Rightarrow> (b\<lparr>bauth := Some a1\<rparr>, ok)))"

definition brokerConnectAuth :: "env \<Rightarrow> string \<Rightarrow> string \<Rightarrow> string \<Rightarrow> broker \<Rightarrow> broker \<times> bool" where
  "brokerConnectAuth env cid user pass b =
     (case bauth b of
        None \<Rightarrow> (b, True)
      | Some a \<Rightarrow>
          (case CheckConnectAuth (Some (pluginConnect (authCacheGet env) (authServer env))) cid user pass a of
             (a1, ok) \<Rightarrow> (b\<lparr>bauth := Some a1\<rparr>, ok)))"

section \<open>What only writes\<close>

text \<open>The state before and after is the same but for effects added to the trace.\<close>

definition only_trace :: "broker \<Rightarrow> broker \<Rightarrow> bool" where
  "only_trace b b' = (\<exists>es. b' = b\<lparr>trace := trace b @ es\<rparr>)"

lemma only_trace_refl [simp, intro]: "only_trace b b"
  by (auto simp: only_trace_def intro: exI [of _ "[]"])

lemma only_trace_trans [trans]: "only_trace a b \<Longrightarrow> only_trace b c \<Longrightarrow> only_trace a c"
  by (auto simp: only_trace_def)

lemma only_trace_emit [simp, intro]: "only_trace b (emit e b)"
  by (auto simp: only_trace_def emit_def)

lemma only_trace_bridge [simp, intro]: "only_trace b (bridgePublish e b)"
  by (simp add: bridgePublish_def)

lemma only_trace_foldl:
  assumes "\<And>b x. P b \<Longrightarrow> only_trace b (f b x)" "\<And>b b'. P b \<Longrightarrow> only_trace b b' \<Longrightarrow> P b'" "P b"
  shows "only_trace b (foldl f b xs)"
  using assms(3)
proof (induction xs arbitrary: b)
  case Nil
  then show ?case by simp
next
  case (Cons x xs)
  have "only_trace b (f b x)" "P (f b x)" using Cons.prems assms(1,2) by blast+
  then show ?case using Cons.IH [of "f b x"] by (auto intro: only_trace_trans)
qed

text \<open>Whatever does not look at the trace is the same afterwards.\<close>

lemma only_traceE:
  assumes "only_trace b b'"
  obtains es where "b' = b\<lparr>trace := trace b @ es\<rparr>"
  using assms by (auto simp: only_trace_def)

lemma only_trace_same:
  assumes "only_trace b b'"
  shows "cheap b' = cheap b" "sheap b' = sheap b" "topicsMgr b' = topicsMgr b" "sessionMgr b' = sessionMgr b"
    "clients b' = clients b" "routes b' = routes b" "remotes b' = remotes b" "cnext b' = cnext b"
    "snext b' = snext b" "crashed b' = crashed b" "stuck b' = stuck b" "wpool b' = wpool b"
    "bauth b' = bauth b" "goroutines b' = goroutines b" "connNext b' = connNext b" "nodes b' = nodes b"
    "clusterPool b' = clusterPool b" "metricsOn b' = metricsOn b" "bridgeMQ b' = bridgeMQ b" "brokerId b' = brokerId b"
    "clusterPort b' = clusterPort b" "routerAddr b' = routerAddr b" "counted b' = counted b"
  using assms by (auto elim!: only_traceE)

lemma upd_same [simp]:
  "sheap (upd c f b) = sheap b" "topicsMgr (upd c f b) = topicsMgr b" "sessionMgr (upd c f b) = sessionMgr b"
  "clients (upd c f b) = clients b" "routes (upd c f b) = routes b" "remotes (upd c f b) = remotes b"
  "cnext (upd c f b) = cnext b" "snext (upd c f b) = snext b" "crashed (upd c f b) = crashed b"
  "stuck (upd c f b) = stuck b" "wpool (upd c f b) = wpool b" "bauth (upd c f b) = bauth b"
  "trace (upd c f b) = trace b" "connNext (upd c f b) = connNext b" "goroutines (upd c f b) = goroutines b"
  "metricsOn (upd c f b) = metricsOn b" "nodes (upd c f b) = nodes b" "clusterPool (upd c f b) = clusterPool b"
  "bridgeMQ (upd c f b) = bridgeMQ b" "brokerId (upd c f b) = brokerId b" "counted (upd c f b) = counted b"
  by (simp_all add: upd_def)

lemma counting_same [simp]:
  "cheap (counting x b) = cheap b" "cnext (counting x b) = cnext b" "sheap (counting x b) = sheap b"
  "snext (counting x b) = snext b" "topicsMgr (counting x b) = topicsMgr b" "sessionMgr (counting x b) = sessionMgr b"
  "clients (counting x b) = clients b" "routes (counting x b) = routes b" "remotes (counting x b) = remotes b"
  "crashed (counting x b) = crashed b" "stuck (counting x b) = stuck b" "wpool (counting x b) = wpool b"
  "trace (counting x b) = trace b" "metricsOn (counting x b) = metricsOn b" "clusterPool (counting x b) = clusterPool b"
  "counted (counting x b) = counted b @ [x]"
  by (simp_all add: counting_def)

lemma cheap_upd [simp]: "cheap (upd c f b) = (cheap b)(c := f (cheap b c))"
  by (simp add: upd_def)

end
