(* ===== verification/Client_Qos.thy ===== *)
theory Client_Qos
  imports Broker_State
begin

text \<open>
  What a client keeps for the delivery guarantees (\<^verbatim>\<open>broker/client.go\<close>, \<^verbatim>\<open>broker/comm.go\<close>):
  the packet ids of received QoS 2 messages awaiting their release, the messages in flight with their
  retry timer, the counters of routed topics, and the check of the text fields of a packet.
\<close>

definition awaitRelTimeout :: int where "awaitRelTimeout = 20"
definition retryInterval :: int where "retryInterval = 20"

section \<open>Received QoS 2 messages\<close>

datatype qos_error = ErrTooManyAwaiting | ErrIdInUse | ErrIdNotFound

definition isAwaitingFull :: "client \<Rightarrow> bool" where
  "isAwaitingFull c =
     (if maxAwaitingRel c = 0 then False
      else if int (length (awaitingRel c)) < maxAwaitingRel c then False else True)"

definition registerPublishPacketId :: "int \<Rightarrow> uint16 \<Rightarrow> client \<Rightarrow> client \<times> qos_error option" where
  "registerPublishPacketId t packetId c =
     (if isAwaitingFull c then (c, Some ErrTooManyAwaiting)
      else if map_of (awaitingRel c) packetId \<noteq> None then (c, Some ErrIdInUse)
      else (c\<lparr>awaitingRel := AList.update packetId t (awaitingRel c)\<rparr>, None))"

text \<open>
  The timer function. Each registration schedules one run of it 20 seconds later; the model lets it
  run at any time, since what it removes depends on the clock alone.
\<close>

definition expireAwaitingRel :: "int \<Rightarrow> client \<Rightarrow> client" where
  "expireAwaitingRel t c =
     (if awaitingRel c = [] then c
      else c\<lparr>awaitingRel := filter (\<lambda>(packetId, ts). \<not> t - ts \<ge> awaitRelTimeout) (awaitingRel c)\<rparr>)"

definition pubRel :: "uint16 \<Rightarrow> client \<Rightarrow> client \<times> qos_error option" where
  "pubRel packetId c =
     (if map_of (awaitingRel c) packetId \<noteq> None
      then (c\<lparr>awaitingRel := AList.delete packetId (awaitingRel c)\<rparr>, None)
      else (c, Some ErrIdNotFound))"

text \<open>What can happen to the table, and what the abstract table is: a partial function to times.\<close>

datatype rel_event = EvPublish int uint16 | EvRelease uint16 | EvExpire int

fun rel_step :: "client \<Rightarrow> rel_event \<Rightarrow> client" where
  "rel_step c (EvPublish t i) = fst (registerPublishPacketId t i c)"
| "rel_step c (EvRelease i) = fst (pubRel i c)"
| "rel_step c (EvExpire t) = expireAwaitingRel t c"

definition awaits :: "client \<Rightarrow> uint16 \<Rightarrow> int option" where
  "awaits c = map_of (awaitingRel c)"

lemma map_of_filter_value:
  "distinct_keys m \<Longrightarrow> map_of (filter (\<lambda>(k, v). P v) m) k = (case map_of m k of None \<Rightarrow> None | Some v \<Rightarrow> if P v then Some v else None)"
  by (induction m) (auto simp: distinct_keys_def map_of_eq_None_iff image_iff split: option.splits)

lemma register_ok:
  "registerPublishPacketId t i c = (c', None) \<longleftrightarrow>
     \<not> isAwaitingFull c \<and> awaits c i = None \<and> c' = c\<lparr>awaitingRel := AList.update i t (awaitingRel c)\<rparr>"
  by (auto simp: registerPublishPacketId_def awaits_def)

lemma awaits_register: "awaits (c\<lparr>awaitingRel := AList.update i t (awaitingRel c)\<rparr>) = (awaits c)(i \<mapsto> t)"
  by (simp add: awaits_def go_map)

lemma awaits_expire:
  "distinct_keys (awaitingRel c) \<Longrightarrow>
   awaits (expireAwaitingRel t c) i =
     (case awaits c i of None \<Rightarrow> None | Some ts \<Rightarrow> if t - ts \<ge> awaitRelTimeout then None else Some ts)"
  using map_of_filter_value [of "awaitingRel c" "\<lambda>ts. \<not> t - ts \<ge> awaitRelTimeout" i]
  by (auto simp: awaits_def expireAwaitingRel_def split: option.splits)

lemma awaits_pubRel: "awaits (fst (pubRel i c)) = (awaits c)(i := None)"
  by (auto simp: awaits_def pubRel_def go_map fun_eq_iff)

lemma rel_step_distinct: "distinct_keys (awaitingRel c) \<Longrightarrow> distinct_keys (awaitingRel (rel_step c e))"
  by (cases e) (auto simp: registerPublishPacketId_def pubRel_def expireAwaitingRel_def intro: keys_intro)

text \<open>An id stays awaited until it is released or its 20 seconds are over, whatever else arrives.\<close>

fun keeps_id :: "uint16 \<Rightarrow> int \<Rightarrow> rel_event \<Rightarrow> bool" where
  "keeps_id i t0 (EvPublish t j) = True"
| "keeps_id i t0 (EvRelease j) = (j \<noteq> i)"
| "keeps_id i t0 (EvExpire t) = (t - t0 < awaitRelTimeout)"

lemma rel_step_awaits:
  assumes "distinct_keys (awaitingRel c)" "awaits c i = Some t0" "keeps_id i t0 e"
  shows "awaits (rel_step c e) i = Some t0"
proof (cases e)
  case (EvPublish t j)
  show ?thesis
  proof (cases "registerPublishPacketId t j c")
    case (Pair c' err)
    with assms EvPublish show ?thesis
      by (cases err) (auto simp: register_ok awaits_register registerPublishPacketId_def awaits_def [of c] awaits_def [of c'] go_map split: if_splits)
  qed
next
  case (EvRelease j)
  with assms show ?thesis by (simp add: awaits_pubRel)
next
  case (EvExpire t)
  with assms show ?thesis by (simp add: awaits_expire)
qed

lemma rel_run_awaits:
  assumes "distinct_keys (awaitingRel c)" "awaits c i = Some t0" "list_all (keeps_id i t0) es"
  shows "awaits (foldl rel_step c es) i = Some t0 \<and> distinct_keys (awaitingRel (foldl rel_step c es))"
  using assms by (induction es arbitrary: c) (auto simp: rel_step_awaits rel_step_distinct)

section \<open>Messages in flight\<close>

definition trackInflight :: "int \<Rightarrow> publishPacket \<Rightarrow> client \<Rightarrow> client" where
  "trackInflight t p c =
     c\<lparr>inflight := AList.update (MessageID p) \<lparr>istatus = Publish, ipacket = p, itimestamp = t\<rparr> (inflight c)\<rparr>"

definition onPuback :: "uint16 \<Rightarrow> client \<Rightarrow> client" where
  "onPuback mid c = (if map_of (inflight c) mid \<noteq> None then c\<lparr>inflight := AList.delete mid (inflight c)\<rparr> else c)"

definition onPubrec :: "int \<Rightarrow> uint16 \<Rightarrow> client \<Rightarrow> client" where
  "onPubrec t mid c =
     (case map_of (inflight c) mid of
        None \<Rightarrow> c
      | Some e \<Rightarrow>
          if istatus e = Publish
          then c\<lparr>inflight := AList.update mid (e\<lparr>istatus := Pubrel, itimestamp := t\<rparr>) (inflight c)\<rparr>
          else c)"

definition onPubcomp :: "uint16 \<Rightarrow> client \<Rightarrow> client" where
  "onPubcomp mid c = c\<lparr>inflight := AList.delete mid (inflight c)\<rparr>"

definition ensureRetryTimer :: "int \<Rightarrow> client \<Rightarrow> client" where
  "ensureRetryTimer interval c = (if retryTimer c \<noteq> None then c else c\<lparr>retryTimer := Some interval\<rparr>)"

definition resetRetryTimer :: "client \<Rightarrow> client" where
  "resetRetryTimer c = (if retryTimer c = None then c else c\<lparr>retryTimer := None\<rparr>)"

definition flying :: "client \<Rightarrow> uint16 \<Rightarrow> inflightElem option" where
  "flying c = map_of (inflight c)"

lemma flying_simps:
  "flying (trackInflight t p c) = (flying c)(MessageID p \<mapsto> \<lparr>istatus = Publish, ipacket = p, itimestamp = t\<rparr>)"
  "flying (onPuback i c) = (flying c)(i := None)"
  "flying (onPubcomp i c) = (flying c)(i := None)"
  "flying (ensureRetryTimer n c) = flying c"
  "flying (resetRetryTimer c) = flying c"
  by (auto simp: flying_def trackInflight_def onPuback_def onPubcomp_def ensureRetryTimer_def resetRetryTimer_def
      go_map fun_eq_iff)

lemma flying_pubrec:
  "flying (onPubrec t i c) j =
     (if j = i then map_option (\<lambda>e. if istatus e = Publish then e\<lparr>istatus := Pubrel, itimestamp := t\<rparr> else e) (flying c i)
      else flying c j)"
  by (auto simp: flying_def onPubrec_def go_map split: option.splits)

text \<open>An acknowledgement never takes the status of a message in flight back.\<close>

lemma pubrec_advances:
  "flying c j = Some e \<Longrightarrow> \<exists>e'. flying (onPubrec t i c) j = Some e' \<and> istatus e \<le> istatus e' \<and> ipacket e' = ipacket e"
  by (cases "j = i"; cases "istatus e") (auto simp: flying_pubrec less_eq_InflightStatus_def)

section \<open>Counters of routed topics\<close>

definition addSubMap :: "string \<Rightarrow> (string \<times> uint64) list \<Rightarrow> (string \<times> uint64) list" where
  "addSubMap topic m =
     (case map_of m topic of Some subNum \<Rightarrow> AList.update topic (subNum + 1) m | None \<Rightarrow> AList.update topic 1 m)"

definition delSubMap :: "string \<Rightarrow> (string \<times> uint64) list \<Rightarrow> (string \<times> uint64) list \<times> uint64" where
  "delSubMap topic m =
     (case map_of m topic of
        Some subNum \<Rightarrow> if 1 < subNum then (AList.update topic (subNum - 1) m, subNum - 1) else (m, 0)
      | None \<Rightarrow> (AList.update topic 0 m, 0))"

definition routed :: "(string \<times> uint64) list \<Rightarrow> string \<Rightarrow> uint64" where
  "routed m t = (case map_of m t of None \<Rightarrow> 0 | Some n \<Rightarrow> n)"

lemma routed_add: "routed (addSubMap t m) u = (if u = t then routed m t + 1 else routed m u)"
  by (auto simp: routed_def addSubMap_def go_map split: option.splits)

text \<open>The counter of a topic whose last subscriber leaves is reported as 0 but stays at 1.\<close>

lemma routed_del:
  "snd (delSubMap t m) = (if 1 < routed m t then routed m t - 1 else 0)"
  "routed (fst (delSubMap t m)) u = (if u = t \<and> 1 < routed m t then routed m t - 1 else routed m u)"
  by (auto simp: routed_def delSubMap_def go_map split: option.splits)

section \<open>Text fields of a packet\<close>

fun extractPacketFields :: "controlPacket \<Rightarrow> string list" where
  "extractPacketFields (PublishP p) = [TopicName p]"
| "extractPacketFields (UnsubscribeP mid ts) = ts"
| "extractPacketFields _ = []"

definition validField :: "string \<Rightarrow> bool" where
  "validField field = (valid_utf8 field \<and> CHR 0x00 \<notin> set field)"

definition validatePacketFields :: "controlPacket \<Rightarrow> bool" where
  "validatePacketFields p = list_all validField (extractPacketFields p)"

end
