(* ===== verification/Broker_Core.thy ===== *)
theory Broker_Core
  imports Client_Qos
begin

text \<open>
  What every handler uses (\<^verbatim>\<open>broker/client.go\<close>, \<^verbatim>\<open>broker/broker.go\<close>, \<^verbatim>\<open>broker/comm.go\<close>):
  writing to a client, the broadcasts, publishing on behalf of the broker, connecting to other brokers,
  and closing a client, all of which call each other: a write to a client without a connection closes
  it, and closing writes to others. A handler runs to its end before the next one starts.

  \<open>Close\<close> takes fuel for that recursion. The flag \<open>stuck\<close> goes up when the fuel is spent; in the
  states \<open>ready\<close> below, where a client that is not disconnected has its connection, one unit is enough,
  and every reachable state is of this kind (theory \<open>Broker_Steps\<close>).
\<close>

section \<open>Writing\<close>

text \<open>The result of a write is whether it returned an error. \<open>close\<close> is what \<^verbatim>\<open>c.Close()\<close> does.\<close>

type_synonym closer = "cref \<Rightarrow> broker \<Rightarrow> broker"
type_synonym writer = "cref \<Rightarrow> controlPacket \<Rightarrow> broker \<Rightarrow> broker \<times> bool"

definition rawWrite :: "env \<Rightarrow> connId \<Rightarrow> controlPacket \<Rightarrow> broker \<Rightarrow> broker \<times> bool" where
  "rawWrite env k p b =
     (let ok = writeOk env (length (trace b)) in (emit (Wrote k p ok) b, \<not> ok))"

definition WriterPacket :: "env \<Rightarrow> closer \<Rightarrow> writer" where
  "WriterPacket env close c p b =
     (if status (cheap b c) = Disconnected then (b, False)
      else (case conn (cheap b c) of
        None \<Rightarrow> (close c b, True)
      | Some k \<Rightarrow> rawWrite env k p b))"

definition BroadcastSubOrUnsubMessage :: "writer \<Rightarrow> controlPacket \<Rightarrow> broker \<Rightarrow> broker" where
  "BroadcastSubOrUnsubMessage w p b = foldl (\<lambda>b (rid, r). fst (w r p b)) b (routes b)"

definition BroadcastInfoMessage :: "writer \<Rightarrow> string \<Rightarrow> controlPacket \<Rightarrow> broker \<Rightarrow> broker" where
  "BroadcastInfoMessage w rid p b =
     foldl (\<lambda>b (k, r). if remoteID (cheap b r) = rid then b else fst (w r p b)) b (routes b)"

definition BroadcastUnSubscribe :: "writer \<Rightarrow> (string \<times> subref) list \<Rightarrow> broker \<Rightarrow> broker" where
  "BroadcastUnSubscribe w subs b =
     (let topics = map fst subs in
      if 0 < length topics then BroadcastSubOrUnsubMessage w (UnsubscribeP 0 topics) b else b)"

definition SendLocalSubsToRouter :: "writer \<Rightarrow> cref \<Rightarrow> broker \<Rightarrow> broker" where
  "SendLocalSubsToRouter w c b =
     (let subs = concat (map (\<lambda>(k, x). map (\<lambda>(t, r). sheap b r) (subMap (cheap b x))) (clients b)) in
      if 0 < length subs then fst (w c (SubscribeP 0 (map stopic subs) (map subQos subs)) b) else b)"

text \<open>\<^verbatim>\<open>Broker.PublishMessage\<close>: a message of the broker itself, written to every subscriber.\<close>

definition PublishMessage :: "writer \<Rightarrow> publishPacket \<Rightarrow> broker \<Rightarrow> broker" where
  "PublishMessage w p b =
     (case mtSubscribers (TopicName p) (Qos p) (topicsMgr b) ([], []) of
        (_, Some e) \<Rightarrow> b
      | ((subs, qoss), None) \<Rightarrow>
          foldl (\<lambda>b sub. case asSub sub of None \<Rightarrow> b | Some r \<Rightarrow> fst (w (sclient (sheap b r)) (PublishP p) b)) b subs)"

definition onlinePayload :: "string \<Rightarrow> bool \<Rightarrow> string \<Rightarrow> string" where
  "onlinePayload cid online time =
     ''{\"clientID\":\"'' @ cid @ ''\",\"online\":'' @ (if online then ''true'' else ''false'')
     @ '',\"timestamp\":\"'' @ time @ ''\"}''"

definition OnlineOfflineNotification :: "env \<Rightarrow> writer \<Rightarrow> string \<Rightarrow> bool \<Rightarrow> broker \<Rightarrow> broker" where
  "OnlineOfflineNotification env w cid online b =
     PublishMessage w (newPublish\<lparr>TopicName := sysClients @ cid, Qos := 0, Payload := onlinePayload cid online (clock env)\<rparr>) b"

section \<open>Connecting to other brokers\<close>

definition BrokerInfoTopic :: string where
  "BrokerInfoTopic = ''broker000100101info''"

definition NewInfo :: "string \<Rightarrow> string \<Rightarrow> bool \<Rightarrow> publishPacket" where
  "NewInfo sid url isforword =
     newPublish\<lparr>Qos := 0, TopicName := BrokerInfoTopic, Retain := False,
       Payload := ''{\"brokerID\":\"'' @ sid @ ''\",\"brokerUrl\":\"'' @ url @ ''\"}''\<rparr>"

definition SendInfo :: "writer \<Rightarrow> cref \<Rightarrow> broker \<Rightarrow> broker" where
  "SendInfo w c b =
     (if status (cheap b c) = Disconnected then b
      else (let url = localIP (cheap b c) @ '':'' @ clusterPort b
            in fst (w c (PublishP (NewInfo (brokerId b) url False)) b)))"

definition SendConnect :: "writer \<Rightarrow> cref \<Rightarrow> broker \<Rightarrow> broker" where
  "SendConnect w c b =
     (if status (cheap b c) \<noteq> Connected then b
      else fst (w c (ConnectP (newConnect\<lparr>ProtocolName := ''MQIsdp'', ProtocolVersion := 3, CleanSession := True,
                                ClientIdentifier := clientID (cheap b c), Keepalive := 60\<rparr>)) b))"

text \<open>The pause before the next attempt, in seconds.\<close>

definition nextDelay :: "nat \<Rightarrow> nat \<Rightarrow> nat" where
  "nextDelay limit d = (let d1 = (if d = 0 then 1 else 2 * d) in if limit < d1 then limit else d1)"

fun delays :: "nat \<Rightarrow> nat \<Rightarrow> nat \<Rightarrow> nat list" where
  "delays limit d 0 = []"
| "delays limit d (Suc n) = nextDelay limit d # delays limit (nextDelay limit d) n"

definition startClient :: "writer \<Rightarrow> bool \<Rightarrow> cref \<Rightarrow> broker \<Rightarrow> broker" where
  "startClient w info c b =
     (let b1 = SendConnect w c b; b2 = (if info then SendInfo w c b1 else b1)
      in upd c (\<lambda>x. x\<lparr>reading := True, pinging := True\<rparr>) b2)"

text \<open>
  \<^verbatim>\<open>ConnectToDiscovery\<close>: \<open>discoveryFails\<close> attempts fail before one succeeds. (When none ever does,
  the call does not return, and no step of the model stands for it.)
\<close>

definition ConnectToDiscovery :: "env \<Rightarrow> writer \<Rightarrow> broker \<Rightarrow> broker" where
  "ConnectToDiscovery env w b =
     (let b1 = foldl (\<lambda>b d. emit (Slept d) (emit (Dialed (routerAddr b) False) b)) b (delays 20 0 (discoveryFails env));
          b2 = emit (Dialed (routerAddr b1) True) b1;
          x = initClient CLUSTER (connNext b2) (brokerId b2) [] [] 60 None (connLocalIP env) (connRemoteIP env) [] [];
          (b3, c) = allocClient x (b2\<lparr>connNext := connNext b2 + 1\<rparr>)
      in startClient w True c b3)"

definition checkNodeExist :: "string \<Rightarrow> string \<Rightarrow> broker \<Rightarrow> bool" where
  "checkNodeExist rid url b =
     (if rid = brokerId b then False
      else list_ex (\<lambda>(k, v). k = rid \<or> v = JString url) (nodes b))"

text \<open>
  The dialling loop of \<^verbatim>\<open>connectRouter\<close> from the k-th attempt on: the pauses made and whether a
  connection was made in the end; after 52 failures it gives up.
\<close>

function routerDial :: "(nat \<Rightarrow> bool) \<Rightarrow> nat \<Rightarrow> nat \<Rightarrow> nat list \<times> bool" where
  "routerDial ok retryTimes d =
     (if ok retryTimes then ([], True)
      else if 50 < retryTimes then ([], False)
      else (let r = routerDial ok (retryTimes + 1) (nextDelay 32 d) in (nextDelay 32 d # fst r, snd r)))"
  by pat_completeness auto
termination
  by (relation "measure (\<lambda>(ok, retryTimes, d). 51 - retryTimes)") auto

declare routerDial.simps [simp del]

definition connectRouter :: "env \<Rightarrow> writer \<Rightarrow> string \<Rightarrow> string \<Rightarrow> broker \<Rightarrow> broker" where
  "connectRouter env w rid addr b =
     (if \<not> checkNodeExist rid addr b then b
      else (case routerDial (dialOk env) 0 0 of
        (pauses, ok) \<Rightarrow>
          (let b1 = emit (Dialed addr ok) (foldl (\<lambda>b d. emit (Slept d) (emit (Dialed addr False) b)) b pauses)
           in if \<not> ok then b1
              else
                (let cid = uuid env (cnext b1);
                     x = initClient REMOTE (connNext b1) cid [] [] 60 None (connLocalIP env) (connRemoteIP env) rid addr;
                     (b2, c) = allocClient x (b1\<lparr>connNext := connNext b1 + 1\<rparr>);
                     b3 = b2\<lparr>remotes := AList.update cid c (remotes b2)\<rparr>
                 in startClient w False c b3))))"

section \<open>Closing a client\<close>

definition removeClient :: "cref \<Rightarrow> broker \<Rightarrow> broker" where
  "removeClient c b =
     (let cid = clientID (cheap b c) in
      case ctyp (cheap b c) of
        CLIENT \<Rightarrow> b\<lparr>clients := AList.delete cid (clients b)\<rparr>
      | ROUTER \<Rightarrow> b\<lparr>routes := AList.delete cid (routes b)\<rparr>
      | REMOTE \<Rightarrow> b\<lparr>remotes := AList.delete cid (remotes b)\<rparr>
      | CLUSTER \<Rightarrow> b)"

definition unsubscribeAll :: "(string \<times> subref) list \<Rightarrow> broker \<Rightarrow> broker" where
  "unsubscribeAll subs b =
     b\<lparr>topicsMgr := foldl (\<lambda>tm (t, r). fst (mtUnsubscribe (stopic (sheap b r)) (subPtr r) tm)) (topicsMgr b) subs\<rparr>"

definition closeConn :: "cref \<Rightarrow> broker \<Rightarrow> broker" where
  "closeConn c b =
     (case conn (cheap b c) of
        None \<Rightarrow> b
      | Some k \<Rightarrow> upd c (\<lambda>x. x\<lparr>conn := None\<rparr>) (emit (ConnClosed k) b))"

text \<open>The part of \<^verbatim>\<open>Close\<close> up to the first write to another client, and the part after.\<close>

definition closeSelf :: "env \<Rightarrow> cref \<Rightarrow> broker \<Rightarrow> broker" where
  "closeSelf env c b =
     (let b1 = upd c (\<lambda>x. x\<lparr>cancelled := True, status := Disconnected\<rparr>) b;
          b2 = bridgePublish (element (cheap b1 c) bDisconnect (now env) [] []) b1;
          b3 = closeConn c b2;
          b4 = removeClient c b3
      in unsubscribeAll (subMap (cheap b3 c)) b4)"

definition closeNotify :: "env \<Rightarrow> writer \<Rightarrow> cref \<Rightarrow> broker \<Rightarrow> broker" where
  "closeNotify env w c b =
     (let b1 = (if ctyp (cheap b c) = CLIENT
                then OnlineOfflineNotification env w (clientID (cheap b c)) False
                       (BroadcastUnSubscribe w (subMap (cheap b c)) b)
                else b);
          b2 = (case willMsg (cheap b1 c) of None \<Rightarrow> b1 | Some m \<Rightarrow> PublishMessage w m b1);
          b3 = (if ctyp (cheap b2 c) = CLUSTER then ConnectToDiscovery env w b2 else b2)
      in if ctyp (cheap b3 c) = REMOTE then spawn (GoConnectRouter (remoteID (cheap b3 c)) (remoteUrl (cheap b3 c))) b3
         else b3)"

fun CloseWith :: "nat \<Rightarrow> env \<Rightarrow> cref \<Rightarrow> broker \<Rightarrow> broker" where
  "CloseWith 0 env c b = (if status (cheap b c) = Disconnected then b else b\<lparr>stuck := True\<rparr>)"
| "CloseWith (Suc n) env c b =
     (if status (cheap b c) = Disconnected then b
      else closeNotify env (WriterPacket env (CloseWith n env)) c (closeSelf env c b))"

text \<open>The program's \<^verbatim>\<open>Close\<close> and \<^verbatim>\<open>WriterPacket\<close>.\<close>

definition Close :: "env \<Rightarrow> cref \<Rightarrow> broker \<Rightarrow> broker" where
  "Close env c b = CloseWith (Suc (cnext b)) env c b"

definition writePacket :: "env \<Rightarrow> writer" where
  "writePacket env = WriterPacket env (Close env)"

section \<open>Delivering a message\<close>

text \<open>\<^verbatim>\<open>publish\<close> of \<^verbatim>\<open>broker/comm.go\<close>\<close>

definition publish :: "env \<Rightarrow> writer \<Rightarrow> subref \<Rightarrow> publishPacket \<Rightarrow> broker \<Rightarrow> broker" where
  "publish env w r p b =
     (let c = sclient (sheap b r) in
      if Qos p = QosAtMostOnce then fst (w c (PublishP p) b)
      else if Qos p = QosAtLeastOnce \<or> Qos p = QosExactlyOnce then
        (let b1 = upd c (trackInflight (now env) p) b;
             b2 = fst (w c (PublishP p) b1)
         in upd c (ensureRetryTimer retryInterval) b2)
      else b)"

text \<open>One element of the copy \<^verbatim>\<open>toRetryEle\<close> of the messages in flight.\<close>

definition retryElem :: "env \<Rightarrow> writer \<Rightarrow> cref \<Rightarrow> broker \<Rightarrow> uint16 \<times> inflightElem \<Rightarrow> broker" where
  "retryElem env w c b ke =
     (let (k, e) = ke; age = now env - itimestamp e;
          touch = upd c (\<lambda>x. x\<lparr>inflight := AList.update k (e\<lparr>itimestamp := now env\<rparr>) (inflight x)\<rparr>)
      in if age \<ge> retryInterval then
           (case istatus e of
              Publish \<Rightarrow> touch (fst (w c (PublishP (ipacket e)) b))
            | Pubrel \<Rightarrow> touch (fst (w c (PubrelP (MessageID (ipacket e))) b)))
         else upd c (ensureRetryTimer (retryInterval - (if age < 0 then 0 else age))) b)"

definition retryDelivery :: "env \<Rightarrow> writer \<Rightarrow> cref \<Rightarrow> broker \<Rightarrow> broker" where
  "retryDelivery env w c b =
     (let b1 = upd c resetRetryTimer b in
      if conn (cheap b1 c) = None \<or> inflight (cheap b1 c) = [] then b1
      else upd c (ensureRetryTimer retryInterval) (foldl (retryElem env w c) b1 (inflight (cheap b1 c))))"

text \<open>
  \<^verbatim>\<open>ProcessPublishMessage\<close>. The loop over the subscribers delivers to each that has no group and
  collects the others; one of those is chosen at the end.
\<close>

definition deliverTo :: "env \<Rightarrow> writer \<Rightarrow> ctype \<Rightarrow> publishPacket \<Rightarrow> broker \<times> subref list \<Rightarrow> gval \<Rightarrow> broker \<times> subref list" where
  "deliverTo env w ty p bq sub =
     (let (b, qsub) = bq in
      case asSub sub of
        None \<Rightarrow> (b, qsub)
      | Some r \<Rightarrow>
          let s = sheap b r in
          if ctyp (cheap b (sclient s)) = ROUTER \<and> ty \<noteq> CLIENT then (b, qsub)
          else if share s then (b, qsub @ [r])
          else (publish env w r p b, qsub))"

definition ProcessPublishMessage :: "env \<Rightarrow> writer \<Rightarrow> cref \<Rightarrow> publishPacket \<Rightarrow> broker \<Rightarrow> broker" where
  "ProcessPublishMessage env w c p b =
     (let ty = ctyp (cheap b c);
          b1 = (if Retain p then b\<lparr>topicsMgr := fst (mtRetain p (topicsMgr b))\<rparr> else b);
          (out, err) = mtSubscribers (TopicName p) (Qos p) (topicsMgr b1) (foundSubs (cheap b1 c));
          b2 = upd c (\<lambda>x. x\<lparr>foundSubs := out\<rparr>) b1
      in if err \<noteq> None then b2
         else if fst out = [] then b2
         else
           (let (b3, qsub) = foldl (deliverTo env w ty p) (b2, []) (fst out)
            in if 0 < length qsub
               then publish env w (qsub ! (pick env (length (trace b3)) mod length qsub)) p b3
               else b3))"

end
