(* ===== verification/Client_Handlers.thy ===== *)
theory Client_Handlers
  imports Broker_Core
begin

text \<open>
  The handlers of the packets a client sends (\<^verbatim>\<open>broker/client.go\<close>, \<^verbatim>\<open>ProcessInfo\<close> of
  \<^verbatim>\<open>broker/info.go\<close>), up to the dispatcher \<^verbatim>\<open>ProcessMessage\<close>. Every handler is a function on the
  broker's state; its early returns are the branches.
\<close>

section \<open>PUBLISH\<close>

definition processRouterPublish :: "env \<Rightarrow> cref \<Rightarrow> publishPacket \<Rightarrow> broker \<Rightarrow> broker" where
  "processRouterPublish env c p b =
     (if status (cheap b c) = Disconnected then b
      else if Qos p = QosAtMostOnce then ProcessPublishMessage env (writePacket env) c p b
      else if Qos p = QosAtLeastOnce then
        (case writePacket env c (PubackP (MessageID p)) b of
           (b1, err) \<Rightarrow> if err then b1 else ProcessPublishMessage env (writePacket env) c p b1)
      else b)"

definition processClientPublish :: "env \<Rightarrow> cref \<Rightarrow> publishPacket \<Rightarrow> broker \<Rightarrow> broker" where
  "processClientPublish env c p b =
     (let topic = TopicName p; (b1, ok) = brokerTopicAuth env aPUB (cheap b c) topic b in
      if \<not> ok then b1
      else
        (let b2 = bridgePublish (element (cheap b1 c) bPublish (now env) (Payload p) topic) b1 in
         if Qos p = QosAtMostOnce then ProcessPublishMessage env (writePacket env) c p b2
         else if Qos p = QosAtLeastOnce then
           (case writePacket env c (PubackP (MessageID p)) b2 of
              (b3, err) \<Rightarrow> if err then b3 else ProcessPublishMessage env (writePacket env) c p b3)
         else if Qos p = QosExactlyOnce then
           (case registerPublishPacketId (now env) (MessageID p) (cheap b2 c) of
              (x, Some e) \<Rightarrow> b2
            | (x, None) \<Rightarrow>
                (case writePacket env c (PubrecP (MessageID p)) (upd c (\<lambda>_. x) b2) of
                   (b3, err) \<Rightarrow> if err then b3 else ProcessPublishMessage env (writePacket env) c p b3))
         else b2))"

text \<open>
  \<^verbatim>\<open>ProcessInfo\<close>: the nodes of the cluster, as the hub announced them, become the known nodes,
  and a connection is made to each that has none. The parser of the payload is a parameter.
\<close>

definition CheckRemoteExist :: "string \<Rightarrow> string \<Rightarrow> broker \<Rightarrow> broker \<times> bool" where
  "CheckRemoteExist rid url b =
     (case find (\<lambda>(k, r). remoteUrl (cheap b r) = url) (remotes b) of
        None \<Rightarrow> (b, False)
      | Some (k, r) \<Rightarrow> (upd r (\<lambda>x. x\<lparr>remoteID := rid\<rparr>) b, True))"

definition connectNode :: "env \<Rightarrow> broker \<Rightarrow> string \<times> jvalue \<Rightarrow> broker" where
  "connectNode env b kv =
     (let (rid, rurl) = kv in
      if rid = brokerId b then b
      else (case rurl of
        JOther \<Rightarrow> b
      | JString url \<Rightarrow>
          (case CheckRemoteExist rid url b of
             (b1, exist) \<Rightarrow> if exist then b1 else connectRouter env (writePacket env) rid url b1)))"

definition ProcessInfo :: "env \<Rightarrow> cref \<Rightarrow> publishPacket \<Rightarrow> broker \<Rightarrow> broker" where
  "ProcessInfo env c p b =
     (if conn (cheap b c) = None then b
      else (case parseInfo env (Payload p) of
        None \<Rightarrow> b
      | Some rs \<Rightarrow> foldl (connectNode env) (b\<lparr>nodes := rs\<rparr>) rs))"

definition processRemotePublish :: "env \<Rightarrow> cref \<Rightarrow> publishPacket \<Rightarrow> broker \<Rightarrow> broker" where
  "processRemotePublish env c p b =
     (if status (cheap b c) = Disconnected then b
      else if TopicName p = BrokerInfoTopic then ProcessInfo env c p b
      else b)"

definition ProcessPublish :: "env \<Rightarrow> cref \<Rightarrow> publishPacket \<Rightarrow> broker \<Rightarrow> broker" where
  "ProcessPublish env c p b =
     (case ctyp (cheap b c) of
        CLIENT \<Rightarrow> processClientPublish env c p b
      | ROUTER \<Rightarrow> processRouterPublish env c p b
      | CLUSTER \<Rightarrow> processRemotePublish env c p b
      | REMOTE \<Rightarrow> b)"

section \<open>SUBSCRIBE\<close>

text \<open>A topic of the packet with its group taken off: whether it is shared, the group, the rest.\<close>

definition splitShare :: "string \<Rightarrow> (bool \<times> string \<times> string) option" where
  "splitShare t =
     (if hasPrefix t sharePrefix then map_option (\<lambda>(g, rest). (True, g, rest)) (groupMatch t)
      else Some (False, [], t))"

definition nthOpt :: "'a list \<Rightarrow> nat \<Rightarrow> 'a option" where
  "nthOpt xs i = (if i < length xs then Some (xs ! i) else None)"

text \<open>\<^verbatim>\<open>c.topicsMgr.Unsubscribe(sub.topic, sub); delete(c.subMap, t)\<close>\<close>

definition dropSub :: "cref \<Rightarrow> string \<Rightarrow> subref \<Rightarrow> broker \<Rightarrow> broker" where
  "dropSub c t r b =
     upd c (\<lambda>x. x\<lparr>subMap := AList.delete t (subMap x)\<rparr>)
       (b\<lparr>topicsMgr := fst (mtUnsubscribe (stopic (sheap b r)) (subPtr r) (topicsMgr b))\<rparr>)"

text \<open>
  The subscription made for the i-th topic, entered in the provider. The result has the returned
  QoS, or \<open>None\<close> when the provider refused it.
\<close>

definition enterSub :: "cref \<Rightarrow> string \<Rightarrow> byte \<Rightarrow> bool \<Rightarrow> string \<Rightarrow> broker \<Rightarrow> broker \<times> subref \<times> byte option" where
  "enterSub c topic q sh grp b =
     (let (b1, r) = allocSub \<lparr>sclient = c, stopic = topic, subQos = q, share = sh, groupName = grp\<rparr> b
      in case mtSubscribe topic q (subPtr r) (topicsMgr b1) of
           (tm, rq, Some e) \<Rightarrow> (b1\<lparr>topicsMgr := tm\<rparr>, r, None)
         | (tm, rq, None) \<Rightarrow> (b1\<lparr>topicsMgr := tm\<rparr>, r, Some rq))"

definition onClientSession :: "cref \<Rightarrow> (Session \<Rightarrow> Session) \<Rightarrow> broker \<Rightarrow> broker" where
  "onClientSession c f b =
     (case csession (cheap b c) of
        None \<Rightarrow> crash b
      | Some s \<Rightarrow> b\<lparr>sessionMgr := onSession s f (sessionMgr b)\<rparr>)"

definition clientSubscribeTopic :: "env \<Rightarrow> cref \<Rightarrow> byte list \<Rightarrow> broker \<times> byte list \<Rightarrow> nat \<times> string \<Rightarrow> broker \<times> byte list" where
  "clientSubscribeTopic env c qoss acc it =
     (let (b, retcodes) = acc; (i, t) = it; (b1, ok) = brokerTopicAuth env aSUB (cheap b c) t b in
      if \<not> ok then (b1, retcodes @ [QosFailure])
      else
        (let b2 = bridgePublish (element (cheap b1 c) bSubscribe (now env) [] t) b1 in
         case splitShare t of
           None \<Rightarrow> (b2, retcodes @ [QosFailure])
         | Some (sh, grp, topic) \<Rightarrow>
             (let b3 = (case map_of (subMap (cheap b2 c)) t of None \<Rightarrow> b2 | Some old \<Rightarrow> dropSub c t old b2) in
              case nthOpt qoss i of
                None \<Rightarrow> (crash b3, retcodes)
              | Some q \<Rightarrow>
                  (case enterSub c topic q sh grp b3 of
                     (b4, r, None) \<Rightarrow> (b4, retcodes @ [QosFailure])
                   | (b4, r, Some rq) \<Rightarrow>
                       (let b5 = upd c (\<lambda>x. x\<lparr>subMap := AList.update t r (subMap x)\<rparr>) b4;
                            b6 = onClientSession c (\<lambda>s. fst (AddTopic t q s)) b5;
                            b7 = upd c (\<lambda>x. x\<lparr>rmsgs := fst (mtRetained topic (topicsMgr b6) (rmsgs x))\<rparr>) b6
                        in (b7, retcodes @ [rq]))))))"

definition processClientSubscribe :: "env \<Rightarrow> cref \<Rightarrow> uint16 \<Rightarrow> string list \<Rightarrow> byte list \<Rightarrow> broker \<Rightarrow> broker" where
  "processClientSubscribe env c mid topics qoss b =
     (if status (cheap b c) = Disconnected then b
      else
        (let (b1, retcodes) = foldl (clientSubscribeTopic env c qoss) (b, []) (enumerate 0 topics);
             (b2, err) = writePacket env c (SubackP mid retcodes) b1
         in if err then b2
            else foldl (\<lambda>b rm. fst (writePacket env c (PublishP rm) b))
                   (spawn (GoBroadcast (SubscribeP mid topics qoss)) b2) (rmsgs (cheap b2 c))))"

definition routerSubscribeTopic :: "cref \<Rightarrow> byte list \<Rightarrow> broker \<times> byte list \<Rightarrow> nat \<times> string \<Rightarrow> broker \<times> byte list" where
  "routerSubscribeTopic c qoss acc it =
     (let (b, retcodes) = acc; (i, t) = it in
      case splitShare t of
        None \<Rightarrow> (b, retcodes @ [QosFailure])
      | Some (sh, grp, topic) \<Rightarrow>
          (case nthOpt qoss i of
             None \<Rightarrow> (crash b, retcodes)
           | Some q \<Rightarrow>
               (case enterSub c topic q sh grp b of
                  (b1, r, None) \<Rightarrow> (b1, retcodes @ [QosFailure])
                | (b1, r, Some rq) \<Rightarrow>
                    (upd c (\<lambda>x. x\<lparr>subMap := AList.update t r (subMap x),
                                   routeSubMap := addSubMap topic (routeSubMap x)\<rparr>) b1, retcodes @ [rq]))))"

definition processRouterSubscribe :: "env \<Rightarrow> cref \<Rightarrow> uint16 \<Rightarrow> string list \<Rightarrow> byte list \<Rightarrow> broker \<Rightarrow> broker" where
  "processRouterSubscribe env c mid topics qoss b =
     (if status (cheap b c) = Disconnected then b
      else
        (let (b1, retcodes) = foldl (routerSubscribeTopic c qoss) (b, []) (enumerate 0 topics)
         in fst (writePacket env c (SubackP mid retcodes) b1)))"

definition ProcessSubscribe :: "env \<Rightarrow> cref \<Rightarrow> uint16 \<Rightarrow> string list \<Rightarrow> byte list \<Rightarrow> broker \<Rightarrow> broker" where
  "ProcessSubscribe env c mid topics qoss b =
     (case ctyp (cheap b c) of
        CLIENT \<Rightarrow> processClientSubscribe env c mid topics qoss b
      | ROUTER \<Rightarrow> processRouterSubscribe env c mid topics qoss b
      | REMOTE \<Rightarrow> processRouterSubscribe env c mid topics qoss b
      | CLUSTER \<Rightarrow> b)"

section \<open>UNSUBSCRIBE\<close>

definition routerUnsubscribeTopic :: "cref \<Rightarrow> broker \<Rightarrow> string \<Rightarrow> broker" where
  "routerUnsubscribeTopic c b t =
     (case map_of (subMap (cheap b c)) t of
        None \<Rightarrow> b
      | Some r \<Rightarrow>
          (let (m, retainNum) = delSubMap t (routeSubMap (cheap b c));
               b1 = upd c (\<lambda>x. x\<lparr>routeSubMap := m\<rparr>) b
           in if 0 < retainNum then b1 else dropSub c t r b1))"

definition processRouterUnSubscribe :: "env \<Rightarrow> cref \<Rightarrow> uint16 \<Rightarrow> string list \<Rightarrow> broker \<Rightarrow> broker" where
  "processRouterUnSubscribe env c mid topics b =
     (if status (cheap b c) = Disconnected then b
      else fst (writePacket env c (UnsubackP mid) (foldl (routerUnsubscribeTopic c) b topics)))"

definition clientUnsubscribeTopic :: "env \<Rightarrow> cref \<Rightarrow> broker \<Rightarrow> string \<Rightarrow> broker" where
  "clientUnsubscribeTopic env c b t =
     (let b1 = bridgePublish (element (cheap b c) bUnsubscribe (now env) [] t) b in
      case map_of (subMap (cheap b1 c)) t of
        None \<Rightarrow> b1
      | Some r \<Rightarrow> dropSub c t r (onClientSession c (\<lambda>s. fst (RemoveTopic t s)) b1))"

definition processClientUnSubscribe :: "env \<Rightarrow> cref \<Rightarrow> uint16 \<Rightarrow> string list \<Rightarrow> broker \<Rightarrow> broker" where
  "processClientUnSubscribe env c mid topics b =
     (if status (cheap b c) = Disconnected then b
      else
        (case writePacket env c (UnsubackP mid) (foldl (clientUnsubscribeTopic env c) b topics) of
           (b1, err) \<Rightarrow>
             if err then b1
             else BroadcastSubOrUnsubMessage (writePacket env) (UnsubscribeP mid topics) b1))"

definition ProcessUnSubscribe :: "env \<Rightarrow> cref \<Rightarrow> uint16 \<Rightarrow> string list \<Rightarrow> broker \<Rightarrow> broker" where
  "ProcessUnSubscribe env c mid topics b =
     (case ctyp (cheap b c) of
        CLIENT \<Rightarrow> processClientUnSubscribe env c mid topics b
      | ROUTER \<Rightarrow> processRouterUnSubscribe env c mid topics b
      | REMOTE \<Rightarrow> b
      | CLUSTER \<Rightarrow> b)"

section \<open>The dispatcher\<close>

definition ProcessPing :: "env \<Rightarrow> cref \<Rightarrow> broker \<Rightarrow> broker" where
  "ProcessPing env c b =
     (if status (cheap b c) = Disconnected then b else fst (writePacket env c PingrespP b))"

text \<open>
  \<^verbatim>\<open>ProcessMessage\<close>. A packet with an ill-formed field closes the network connection, without
  looking whether there is one: a nil connection is a panic. The client object is left as it is.
\<close>

definition processPacket :: "env \<Rightarrow> cref \<Rightarrow> controlPacket \<Rightarrow> broker \<Rightarrow> broker" where
  "processPacket env c p b =
     (case p of
        PublishP q \<Rightarrow> ProcessPublish env c q b
      | PubackP mid \<Rightarrow> upd c (onPuback mid) b
      | PubrecP mid \<Rightarrow> fst (writePacket env c (PubrelP mid) (upd c (onPubrec (now env) mid) b))
      | PubrelP mid \<Rightarrow> fst (writePacket env c (PubcompP mid) (upd c (\<lambda>x. fst (pubRel mid x)) b))
      | PubcompP mid \<Rightarrow> upd c (onPubcomp mid) b
      | SubscribeP mid topics qoss \<Rightarrow> ProcessSubscribe env c mid topics qoss b
      | UnsubscribeP mid topics \<Rightarrow> ProcessUnSubscribe env c mid topics b
      | PingreqP \<Rightarrow> ProcessPing env c b
      | DisconnectP \<Rightarrow> Close env c b
      | ConnectP m \<Rightarrow> b
      | ConnackP sp rc \<Rightarrow> b
      | SubackP mid rcs \<Rightarrow> b
      | UnsubackP mid \<Rightarrow> b
      | PingrespP \<Rightarrow> b)"

definition ProcessMessage :: "env \<Rightarrow> message \<Rightarrow> broker \<Rightarrow> broker" where
  "ProcessMessage env m b =
     (let c = mclient m in
      if \<not> validatePacketFields (mpacket m)
      then (case conn (cheap b c) of None \<Rightarrow> crash b | Some k \<Rightarrow> emit (ConnClosed k) b)
      else processPacket env c (mpacket m) b)"

end
