(* ===== verification/Broker_Laws.thy ===== *)
theory Broker_Laws
  imports Client_Handlers
begin

text \<open>
  What the shared operations do to the state, once and for all: in a state where every client that is
  not disconnected has its connection, writing only writes, delivering changes nothing but what a
  client has in flight, and closing needs one unit of fuel. The handlers' invariants rest on these
  frames.
\<close>

section \<open>Writers that only write\<close>

definition ready :: "broker \<Rightarrow> bool" where
  "ready b = (\<forall>c. status (cheap b c) \<noteq> Disconnected \<longrightarrow> conn (cheap b c) \<noteq> None)"

definition quiet :: "writer \<Rightarrow> bool" where
  "quiet w = (\<forall>c p b. ready b \<longrightarrow> only_trace b (fst (w c p b)))"

lemma ready_only_trace: "ready b \<Longrightarrow> only_trace b b' \<Longrightarrow> ready b'"
  by (auto simp: ready_def only_trace_same)

lemma ready_cheap: "cheap b' = cheap b \<Longrightarrow> ready b' = ready b"
  by (simp add: ready_def)

lemma rawWrite_only_trace: "only_trace b (fst (rawWrite env k p b))"
  by (simp add: rawWrite_def Let_def)

lemma quiet_WriterPacket [simp, intro]: "quiet (WriterPacket env close)"
  by (auto simp: quiet_def ready_def WriterPacket_def rawWrite_only_trace split: option.split)

lemma quiet_writePacket [simp, intro]: "quiet (writePacket env)"
  by (simp add: writePacket_def)

lemma quietD: "quiet w \<Longrightarrow> ready b \<Longrightarrow> only_trace b (fst (w c p b))"
  by (simp add: quiet_def)

text \<open>What a ready write does, without the closer.\<close>

lemma WriterPacket_ready:
  "ready b \<Longrightarrow> WriterPacket env close c p b =
     (if status (cheap b c) = Disconnected then (b, False)
      else rawWrite env (the (conn (cheap b c))) p b)"
  by (auto simp: WriterPacket_def ready_def split: option.split)

lemma quiet_foldl:
  assumes "quiet w" "ready b" "\<And>b x. ready b \<Longrightarrow> only_trace b (f b x)"
  shows "only_trace b (foldl f b xs)"
  using assms by (intro only_trace_foldl [where P = ready]) (auto intro: ready_only_trace)

lemma Broadcast_quiet: "quiet w \<Longrightarrow> ready b \<Longrightarrow> only_trace b (BroadcastSubOrUnsubMessage w p b)"
  unfolding BroadcastSubOrUnsubMessage_def by (rule quiet_foldl) (auto simp: quietD)

lemma BroadcastInfo_quiet: "quiet w \<Longrightarrow> ready b \<Longrightarrow> only_trace b (BroadcastInfoMessage w rid p b)"
  unfolding BroadcastInfoMessage_def by (rule quiet_foldl) (auto simp: quietD)

lemma BroadcastUnSubscribe_quiet: "quiet w \<Longrightarrow> ready b \<Longrightarrow> only_trace b (BroadcastUnSubscribe w subs b)"
  by (simp add: BroadcastUnSubscribe_def Broadcast_quiet Let_def)

lemma PublishMessage_quiet: "quiet w \<Longrightarrow> ready b \<Longrightarrow> only_trace b (PublishMessage w p b)"
  by (auto simp: PublishMessage_def quietD intro!: quiet_foldl split: prod.split option.split)

lemma OnlineOffline_quiet: "quiet w \<Longrightarrow> ready b \<Longrightarrow> only_trace b (OnlineOfflineNotification env w cid online b)"
  by (simp add: OnlineOfflineNotification_def PublishMessage_quiet)

lemma SendInfo_quiet: "quiet w \<Longrightarrow> ready b \<Longrightarrow> only_trace b (SendInfo w c b)"
  by (simp add: SendInfo_def quietD Let_def)

lemma SendConnect_quiet: "quiet w \<Longrightarrow> ready b \<Longrightarrow> only_trace b (SendConnect w c b)"
  by (simp add: SendConnect_def quietD)

lemma SendLocalSubs_quiet: "quiet w \<Longrightarrow> ready b \<Longrightarrow> only_trace b (SendLocalSubsToRouter w c b)"
  by (simp add: SendLocalSubsToRouter_def quietD Let_def)

lemmas quiet_ops = Broadcast_quiet BroadcastInfo_quiet BroadcastUnSubscribe_quiet PublishMessage_quiet
  OnlineOffline_quiet SendInfo_quiet SendConnect_quiet SendLocalSubs_quiet quietD

section \<open>Delivering\<close>

text \<open>
  A change of clients that leaves what the registries, the subscriptions and the connections depend
  on: only what is in flight, the retry timer and the slices of the last search may differ.
\<close>

definition same_client :: "client \<Rightarrow> client \<Rightarrow> bool" where
  "same_client x y = (\<exists>fl rt fs. y = x\<lparr>inflight := fl, retryTimer := rt, foundSubs := fs\<rparr>)"

lemma same_client_refl [simp]: "same_client x x"
  unfolding same_client_def by (intro exI [of _ "inflight x"] exI [of _ "retryTimer x"] exI [of _ "foundSubs x"]) simp

lemma same_client_trans: "same_client x y \<Longrightarrow> same_client y z \<Longrightarrow> same_client x z"
proof -
  assume "same_client x y" "same_client y z"
  then obtain fl rt fs fl' rt' fs' where "y = x\<lparr>inflight := fl, retryTimer := rt, foundSubs := fs\<rparr>"
    and "z = y\<lparr>inflight := fl', retryTimer := rt', foundSubs := fs'\<rparr>"
    unfolding same_client_def by blast
  then have "z = x\<lparr>inflight := fl', retryTimer := rt', foundSubs := fs'\<rparr>" by simp
  then show "same_client x z" unfolding same_client_def by blast
qed

lemma same_clientD:
  assumes "same_client x y"
  shows "ctyp y = ctyp x" "conn y = conn x" "clientID y = clientID x" "cusername y = cusername x"
    "status y = status x" "csession y = csession x" "subMap y = subMap x" "willMsg y = willMsg x"
    "awaitingRel y = awaitingRel x" "cancelled y = cancelled x" "rmsgs y = rmsgs x" "remoteIP y = remoteIP x"
    "routeSubMap y = routeSubMap x" "remoteUrl y = remoteUrl x" "remoteID y = remoteID x" "reading y = reading x"
  using assms unfolding same_client_def by (elim exE; simp)+

definition delivers :: "broker \<Rightarrow> broker \<Rightarrow> bool" where
  "delivers b b' =
     (\<exists>h es. b' = b\<lparr>cheap := h, trace := trace b @ es\<rparr> \<and> (\<forall>c. same_client (cheap b c) (h c)))"

lemma delivers_only_trace: "only_trace b b' \<Longrightarrow> delivers b b'"
proof -
  assume "only_trace b b'"
  then obtain es where "b' = b\<lparr>trace := trace b @ es\<rparr>" by (rule only_traceE)
  moreover have "b\<lparr>cheap := cheap b, trace := trace b @ es\<rparr> = b\<lparr>trace := trace b @ es\<rparr>" by simp
  ultimately have "b' = b\<lparr>cheap := cheap b, trace := trace b @ es\<rparr> \<and> (\<forall>c. same_client (cheap b c) (cheap b c))"
    by (simp only: same_client_refl simp_thms)
  then show ?thesis unfolding delivers_def by (intro exI)
qed

lemma delivers_refl [simp]: "delivers b b"
  by (simp add: delivers_only_trace)

lemma delivers_trans [trans]:
  assumes "delivers a b" "delivers b c"
  shows "delivers a c"
proof -
  obtain h es where b: "b = a\<lparr>cheap := h, trace := trace a @ es\<rparr>" "\<And>x. same_client (cheap a x) (h x)"
    using assms(1) by (auto simp: delivers_def)
  obtain k fs where c: "c = b\<lparr>cheap := k, trace := trace b @ fs\<rparr>" "\<And>x. same_client (cheap b x) (k x)"
    using assms(2) by (auto simp: delivers_def)
  have "c = a\<lparr>cheap := k, trace := trace a @ es @ fs\<rparr>" using b c by simp
  moreover have "same_client (cheap a x) (k x)" for x using b c same_client_trans by fastforce
  ultimately show ?thesis unfolding delivers_def by blast
qed

lemma delivers_upd: "(\<And>x. same_client x (f x)) \<Longrightarrow> delivers b (upd c f b)"
proof -
  assume f: "\<And>x. same_client x (f x)"
  let ?h = "(cheap b)(c := f (cheap b c))"
  have "upd c f b = b\<lparr>cheap := ?h, trace := trace b @ []\<rparr>" by (simp add: upd_def)
  moreover have "\<forall>x. same_client (cheap b x) (?h x)" using f by simp
  ultimately show ?thesis unfolding delivers_def by blast
qed

lemma deliversE:
  assumes "delivers b b'"
  obtains h es where "b' = b\<lparr>cheap := h, trace := trace b @ es\<rparr>" "\<And>c. same_client (cheap b c) (h c)"
  using assms by (auto simp: delivers_def)

lemma delivers_same:
  assumes "delivers b b'"
  shows "sheap b' = sheap b" "topicsMgr b' = topicsMgr b" "sessionMgr b' = sessionMgr b"
    "clients b' = clients b" "routes b' = routes b" "remotes b' = remotes b" "cnext b' = cnext b"
    "snext b' = snext b" "crashed b' = crashed b" "stuck b' = stuck b" "wpool b' = wpool b"
    "bauth b' = bauth b" "goroutines b' = goroutines b" "connNext b' = connNext b" "nodes b' = nodes b"
    "clusterPool b' = clusterPool b" "metricsOn b' = metricsOn b"
    "same_client (cheap b c) (cheap b' c)"
  using assms by (auto elim!: deliversE)

lemma ready_delivers: "ready b \<Longrightarrow> delivers b b' \<Longrightarrow> ready b'"
proof -
  assume "ready b" "delivers b b'"
  then have "status (cheap b' c) = status (cheap b c)" "conn (cheap b' c) = conn (cheap b c)" for c
    using delivers_same(18) [of b b' c] by (simp_all add: same_clientD)
  with \<open>ready b\<close> show "ready b'" by (simp add: ready_def)
qed

lemma same_client_ops [simp]:
  "same_client x (trackInflight t p x)" "same_client x (ensureRetryTimer n x)" "same_client x (resetRetryTimer x)"
  "same_client x (onPuback i x)" "same_client x (onPubcomp i x)" "same_client x (onPubrec t i x)"
  "same_client x (x\<lparr>foundSubs := fs\<rparr>)" "same_client x (x\<lparr>inflight := fl\<rparr>)"
proof -
  have base: "same_client x (x\<lparr>inflight := fl, retryTimer := rt, foundSubs := fs\<rparr>)" for fl rt fs
    unfolding same_client_def by blast
  show "same_client x (x\<lparr>foundSubs := fs\<rparr>)" using base [where fl = "inflight x" and rt = "retryTimer x" and fs = fs] by simp
  show infl: "same_client x (x\<lparr>inflight := fl\<rparr>)" for fl using base [where fl = fl and rt = "retryTimer x" and fs = "foundSubs x"] by simp
  have retry: "same_client x (x\<lparr>retryTimer := rt\<rparr>)" for rt using base [where fl = "inflight x" and rt = rt and fs = "foundSubs x"] by simp
  show "same_client x (trackInflight t p x)" by (simp add: trackInflight_def infl)
  show "same_client x (ensureRetryTimer n x)" by (simp add: ensureRetryTimer_def retry)
  show "same_client x (resetRetryTimer x)" by (simp add: resetRetryTimer_def retry)
  show "same_client x (onPuback i x)" by (simp add: onPuback_def infl)
  show "same_client x (onPubcomp i x)" by (simp add: onPubcomp_def infl)
  show "same_client x (onPubrec t i x)" by (simp add: onPubrec_def infl split: option.split)
qed

lemma publish_delivers:
  assumes "quiet w" "ready b"
  shows "delivers b (publish env w r p b)"
proof -
  let ?c = "sclient (sheap b r)"
  let ?b1 = "upd ?c (trackInflight (now env) p) b"
  have 1: "delivers b ?b1" by (rule delivers_upd) simp
  have 2: "delivers ?b1 (fst (w ?c (PublishP p) ?b1))"
    using assms ready_delivers [OF assms(2) 1] by (intro delivers_only_trace quietD)
  have 3: "delivers (fst (w ?c (PublishP p) ?b1)) (upd ?c (ensureRetryTimer retryInterval) (fst (w ?c (PublishP p) ?b1)))"
    by (rule delivers_upd) simp
  have "delivers b (fst (w ?c (PublishP p) b))" using assms by (intro delivers_only_trace quietD)
  then show ?thesis
    using delivers_trans [OF delivers_trans [OF 1 2] 3] by (simp add: publish_def Let_def)
qed

lemma deliverTo_delivers:
  assumes "quiet w" "ready b"
  shows "delivers b (fst (deliverTo env w ty p (b, q) sub))"
  using publish_delivers [OF assms] by (auto simp: deliverTo_def Let_def split: option.split)

lemma deliverAll_delivers:
  assumes "quiet w" "ready b"
  shows "delivers b (fst (foldl (deliverTo env w ty p) (b, q) subs))"
  using assms(2)
proof (induction subs arbitrary: b q)
  case Nil
  then show ?case by simp
next
  case (Cons s subs)
  obtain b1 q1 where step: "deliverTo env w ty p (b, q) s = (b1, q1)" by (cases "deliverTo env w ty p (b, q) s")
  then have "delivers b b1" using deliverTo_delivers [OF assms(1) Cons.prems, of env ty p q s] by simp
  with Cons.IH [OF ready_delivers [OF Cons.prems this], of q1] step show ?case by (auto intro: delivers_trans)
qed

text \<open>Publishing a client's message changes the provider when the message is to be retained, and delivers.\<close>

definition retainIn :: "publishPacket \<Rightarrow> broker \<Rightarrow> broker" where
  "retainIn p b = (if Retain p then b\<lparr>topicsMgr := fst (mtRetain p (topicsMgr b))\<rparr> else b)"

lemma retainIn_same [simp]:
  "cheap (retainIn p b) = cheap b" "sheap (retainIn p b) = sheap b" "sessionMgr (retainIn p b) = sessionMgr b"
  "clients (retainIn p b) = clients b" "routes (retainIn p b) = routes b" "remotes (retainIn p b) = remotes b"
  "cnext (retainIn p b) = cnext b" "snext (retainIn p b) = snext b" "crashed (retainIn p b) = crashed b"
  "stuck (retainIn p b) = stuck b" "wpool (retainIn p b) = wpool b" "trace (retainIn p b) = trace b"
  by (auto simp: retainIn_def)

lemma ProcessPublishMessage_delivers:
  assumes "quiet w" "ready b"
  shows "delivers (retainIn p b) (ProcessPublishMessage env w c p b)"
proof -
  let ?b1 = "retainIn p b"
  obtain out err where s: "mtSubscribers (TopicName p) (Qos p) (topicsMgr ?b1) (foundSubs (cheap b c)) = (out, err)"
    by (cases "mtSubscribers (TopicName p) (Qos p) (topicsMgr ?b1) (foundSubs (cheap b c))")
  let ?b2 = "upd c (\<lambda>x. x\<lparr>foundSubs := out\<rparr>) ?b1"
  have 2: "delivers ?b1 ?b2" by (rule delivers_upd) simp
  have ready1: "ready ?b1" using assms(2) by (simp add: ready_def)
  have ready2: "ready ?b2" by (rule ready_delivers [OF ready1 2])
  obtain b3 q where f: "foldl (deliverTo env w (ctyp (cheap b c)) p) (?b2, []) (fst out) = (b3, q)"
    by (cases "foldl (deliverTo env w (ctyp (cheap b c)) p) (?b2, []) (fst out)")
  have 3: "delivers ?b2 b3" using deliverAll_delivers [OF assms(1) ready2, of env "ctyp (cheap b c)" p "[]" "fst out"] f by simp
  have "delivers b3 (publish env w r p b3)" for r
    using publish_delivers [OF assms(1) ready_delivers [OF ready2 3]] .
  then have "delivers ?b1 (publish env w r p b3)" for r using 2 3 by (blast intro: delivers_trans)
  moreover have "delivers ?b1 b3" using 2 3 by (rule delivers_trans)
  ultimately show ?thesis using 2 s f
    by (simp add: ProcessPublishMessage_def retainIn_def [symmetric] Let_def split: prod.split)
qed

end
