(* ===== verification/Broker_Inv.thy ===== *)
theory Broker_Inv
  imports Broker_Laws
begin

text \<open>
  The invariant of a broker and the frame under which it is kept: a state change that leaves the
  provider, the registries of clients and routers, the sessions and the pool, keeps of every client
  what the invariant looks at, and may add connections to other brokers.
\<close>

section \<open>Frames\<close>

definition same_core :: "client \<Rightarrow> client \<Rightarrow> bool" where
  "same_core x y =
     (ctyp y = ctyp x \<and> conn y = conn x \<and> clientID y = clientID x \<and> status y = status x
      \<and> csession y = csession x \<and> subMap y = subMap x)"

lemma same_core_refl [simp]: "same_core x x"
  by (simp add: same_core_def)

lemma same_core_trans: "same_core x y \<Longrightarrow> same_core y z \<Longrightarrow> same_core x z"
  by (simp add: same_core_def)

lemma same_client_core: "same_client x y \<Longrightarrow> same_core x y"
  by (simp add: same_core_def same_clientD)

text \<open>A connection this broker has just made to another one.\<close>

definition outgoing :: "client \<Rightarrow> bool" where
  "outgoing x = ((ctyp x = CLUSTER \<or> ctyp x = REMOTE) \<and> conn x \<noteq> None \<and> status x = Connected \<and> subMap x = [])"

definition same_rest :: "broker \<Rightarrow> broker \<Rightarrow> bool" where
  "same_rest b b' =
     (topicsMgr b' = topicsMgr b \<and> sheap b' = sheap b \<and> snext b' = snext b \<and> sessionMgr b' = sessionMgr b
      \<and> clients b' = clients b \<and> routes b' = routes b \<and> wpool b' = wpool b \<and> stuck b' = stuck b
      \<and> crashed b' = crashed b \<and> bauth b' = bauth b \<and> metricsOn b' = metricsOn b)"

definition expands :: "broker \<Rightarrow> broker \<Rightarrow> bool" where
  "expands b b' =
     (same_rest b b' \<and> cnext b \<le> cnext b'
      \<and> (\<forall>c. same_core (cheap b c) (cheap b' c) \<or> cnext b \<le> c \<and> c < cnext b' \<and> outgoing (cheap b' c)))"

lemma same_rest_refl [simp]: "same_rest b b"
  by (simp add: same_rest_def)

lemma expands_refl [simp]: "expands b b"
  by (simp add: expands_def)

lemma outgoing_core: "outgoing x \<Longrightarrow> same_core x y \<Longrightarrow> outgoing y"
  by (simp add: outgoing_def same_core_def)

lemma expands_trans [trans]:
  assumes "expands a b" "expands b c"
  shows "expands a c"
proof -
  have "same_rest a c" "cnext a \<le> cnext c" using assms by (auto simp: expands_def same_rest_def)
  moreover have "same_core (cheap a x) (cheap c x) \<or> cnext a \<le> x \<and> x < cnext c \<and> outgoing (cheap c x)" for x
  proof -
    consider "same_core (cheap b x) (cheap c x)" | "cnext b \<le> x" "x < cnext c" "outgoing (cheap c x)"
      using assms(2) by (auto simp: expands_def)
    then show ?thesis
    proof cases
      case 1
      moreover have "cnext b \<le> cnext c" using assms(2) by (simp add: expands_def)
      ultimately show ?thesis
        using assms(1) same_core_trans outgoing_core by (fastforce simp: expands_def)
    next
      case 2
      moreover have "cnext a \<le> cnext b" using assms(1) by (simp add: expands_def)
      ultimately show ?thesis by simp
    qed
  qed
  ultimately show ?thesis by (simp add: expands_def)
qed

lemma expands_only_trace: "only_trace b b' \<Longrightarrow> expands b b'"
proof -
  assume "only_trace b b'"
  from only_trace_same [OF this] show ?thesis by (simp add: expands_def same_rest_def)
qed

lemma expands_delivers: "delivers b b' \<Longrightarrow> expands b b'"
proof -
  assume "delivers b b'"
  from delivers_same [OF this] same_client_core show ?thesis by (simp add: expands_def same_rest_def)
qed

lemma expands_upd: "(\<And>x. same_core x (f x)) \<Longrightarrow> expands b (upd c f b)"
  by (simp add: expands_def same_rest_def)

lemma ready_expands:
  assumes "ready b" "expands b b'"
  shows "ready b'"
proof -
  have "conn (cheap b' c) \<noteq> None" if "status (cheap b' c) \<noteq> Disconnected" for c
  proof -
    consider "same_core (cheap b c) (cheap b' c)" | "outgoing (cheap b' c)"
      using assms(2) by (auto simp: expands_def)
    then show ?thesis
      using assms(1) that by cases (auto simp: ready_def same_core_def outgoing_def)
  qed
  then show ?thesis by (simp add: ready_def)
qed

lemma expands_foldl:
  assumes "ready b" "\<And>b x. ready b \<Longrightarrow> expands b (f b x)"
  shows "expands b (foldl f b xs)"
  using assms(1)
proof (induction xs arbitrary: b)
  case Nil
  then show ?case by simp
next
  case (Cons x xs)
  have step: "expands b (f b x)" using assms(2) [OF Cons.prems] .
  with Cons.IH [OF ready_expands [OF Cons.prems step]] show ?case by (auto intro: expands_trans)
qed

section \<open>Connecting to other brokers\<close>

lemma expands_emit: "expands b (emit e b)"
  by (intro expands_only_trace) simp

lemma expands_alloc:
  "outgoing x \<Longrightarrow> allocClient x (b\<lparr>connNext := k\<rparr>) = (b', c) \<Longrightarrow> expands b b' \<and> c = cnext b"
  by (auto simp: allocClient_def expands_def same_rest_def split: if_splits)

lemma outgoing_init: "ty = CLUSTER \<or> ty = REMOTE \<Longrightarrow> outgoing (initClient ty k cid u p ka w lip rip rid url)"
  by (simp add: outgoing_def initClient_def)

lemma startClient_expands:
  assumes "quiet w" "ready b"
  shows "expands b (startClient w i c b)"
proof -
  let ?b1 = "SendConnect w c b"
  have 1: "only_trace b ?b1" using assms by (rule SendConnect_quiet)
  have "only_trace ?b1 (SendInfo w c ?b1)" using assms(1) ready_only_trace [OF assms(2) 1] by (rule SendInfo_quiet)
  with 1 have "expands b (if i then SendInfo w c ?b1 else ?b1)"
    by (auto intro: expands_only_trace only_trace_trans)
  moreover have "expands x (upd c (\<lambda>x. x\<lparr>reading := True, pinging := True\<rparr>) x)" for x
    by (rule expands_upd) (simp add: same_core_def)
  ultimately show ?thesis unfolding startClient_def Let_def by (rule expands_trans)
qed

lemma pauses_expands: "expands b (foldl (\<lambda>b d. emit (Slept d) (emit (Dialed a False) b)) b ds)"
proof (rule expands_only_trace)
  show "only_trace b (foldl (\<lambda>b d. emit (Slept d) (emit (Dialed a False) b)) b ds)"
    by (rule only_trace_foldl [where P = "\<lambda>_. True"]) (auto intro: only_trace_trans)
qed

lemma ConnectToDiscovery_expands:
  assumes "quiet w" "ready b"
  shows "expands b (ConnectToDiscovery env w b)"
proof -
  let ?b1 = "foldl (\<lambda>b d. emit (Slept d) (emit (Dialed (routerAddr b) False) b)) b (delays 20 0 (discoveryFails env))"
  let ?b2 = "emit (Dialed (routerAddr ?b1) True) ?b1"
  let ?x = "initClient CLUSTER (connNext ?b2) (brokerId ?b2) [] [] 60 None (connLocalIP env) (connRemoteIP env) [] []"
  obtain b3 c where a: "allocClient ?x (?b2\<lparr>connNext := connNext ?b2 + 1\<rparr>) = (b3, c)"
    by (cases "allocClient ?x (?b2\<lparr>connNext := connNext ?b2 + 1\<rparr>)")
  have "only_trace b ?b1"
    by (rule only_trace_foldl [where P = "\<lambda>_. True"]) (auto intro: only_trace_trans)
  then have 2: "expands b ?b2" by (auto intro: expands_only_trace only_trace_trans)
  have "expands ?b2 b3" using expands_alloc [OF outgoing_init a] by simp
  with 2 have 3: "expands b b3" by (rule expands_trans)
  then have "expands b3 (startClient w True c b3)"
    using assms ready_expands startClient_expands by blast
  with 3 have "expands b (startClient w True c b3)" by (rule expands_trans)
  then show ?thesis using a by (simp add: ConnectToDiscovery_def Let_def)
qed

lemma connectRouter_expands:
  assumes "quiet w" "ready b"
  shows "expands b (connectRouter env w rid addr b)"
proof (cases "checkNodeExist rid addr b")
  case False
  then show ?thesis by (simp add: connectRouter_def)
next
  case True
  obtain pauses ok where d: "routerDial (dialOk env) 0 0 = (pauses, ok)" by (cases "routerDial (dialOk env) 0 0")
  let ?b1 = "emit (Dialed addr ok) (foldl (\<lambda>b d. emit (Slept d) (emit (Dialed addr False) b)) b pauses)"
  let ?cid = "uuid env (cnext ?b1)"
  let ?x = "initClient REMOTE (connNext ?b1) ?cid [] [] 60 None (connLocalIP env) (connRemoteIP env) rid addr"
  obtain b2 c where a: "allocClient ?x (?b1\<lparr>connNext := connNext ?b1 + 1\<rparr>) = (b2, c)"
    by (cases "allocClient ?x (?b1\<lparr>connNext := connNext ?b1 + 1\<rparr>)")
  let ?b3 = "b2\<lparr>remotes := AList.update ?cid c (remotes b2)\<rparr>"
  have 1: "expands b ?b1" using pauses_expands expands_emit by (rule expands_trans)
  have "expands ?b1 b2" using expands_alloc [OF outgoing_init a] by simp
  moreover have "expands b2 ?b3" by (simp add: expands_def same_rest_def)
  ultimately have 3: "expands b ?b3" using 1 by (blast intro: expands_trans)
  then have "expands ?b3 (startClient w False c ?b3)" using assms ready_expands startClient_expands by blast
  with 3 have "expands b (startClient w False c ?b3)" by (rule expands_trans)
  with 1 True d a show ?thesis by (cases ok) (simp_all add: connectRouter_def Let_def)
qed

end
