(* ===== verification/Broker_Close.thy ===== *)
theory Broker_Close
  imports Broker_Inv
begin

text \<open>
  The invariant of the broker's state and closing a client: what is left of a closed client, and that
  the invariant is kept. The set \<open>X\<close> exempts a client that is being accepted and not registered yet.
\<close>

section \<open>The invariant\<close>

definition reg_inv :: "cref set \<Rightarrow> broker \<Rightarrow> bool" where
  "reg_inv X b =
     (ready b \<and> distinct_keys (clients b)
      \<and> (\<forall>i c. (i, c) \<in> set (clients b) \<longrightarrow>
           c < cnext b \<and> ctyp (cheap b c) = CLIENT \<and> clientID (cheap b c) = i \<and> status (cheap b c) \<noteq> Disconnected)
      \<and> (\<forall>c. c \<notin> X \<and> ctyp (cheap b c) = CLIENT \<and> status (cheap b c) \<noteq> Disconnected \<longrightarrow>
           map_of (clients b) (clientID (cheap b c)) = Some c)
      \<and> (\<forall>c. cnext b \<le> c \<longrightarrow> status (cheap b c) = Disconnected \<and> subMap (cheap b c) = []))"

lemma reg_invD:
  assumes "reg_inv X b"
  shows "ready b" "distinct_keys (clients b)"
    and "(i, c) \<in> set (clients b) \<Longrightarrow>
      c < cnext b \<and> ctyp (cheap b c) = CLIENT \<and> clientID (cheap b c) = i \<and> status (cheap b c) \<noteq> Disconnected"
    and "c \<notin> X \<Longrightarrow> ctyp (cheap b c) = CLIENT \<Longrightarrow> status (cheap b c) \<noteq> Disconnected \<Longrightarrow>
      map_of (clients b) (clientID (cheap b c)) = Some c"
    and "cnext b \<le> c \<Longrightarrow> status (cheap b c) = Disconnected \<and> subMap (cheap b c) = []"
  using assms unfolding reg_inv_def by blast+

lemma reg_invI:
  assumes "ready b" "distinct_keys (clients b)"
    and "\<And>i c. (i, c) \<in> set (clients b) \<Longrightarrow>
      c < cnext b \<and> ctyp (cheap b c) = CLIENT \<and> clientID (cheap b c) = i \<and> status (cheap b c) \<noteq> Disconnected"
    and "\<And>c. c \<notin> X \<Longrightarrow> ctyp (cheap b c) = CLIENT \<Longrightarrow> status (cheap b c) \<noteq> Disconnected \<Longrightarrow>
      map_of (clients b) (clientID (cheap b c)) = Some c"
    and "\<And>c. cnext b \<le> c \<Longrightarrow> status (cheap b c) = Disconnected \<and> subMap (cheap b c) = []"
  shows "reg_inv X b"
  using assms unfolding reg_inv_def by blast

text \<open>Of a subscription in the provider: it is one of the broker's, entered under its own topic, and
  when it belongs to an end user that client is connected and lists it.\<close>

definition owned :: "broker \<Rightarrow> subref \<Rightarrow> bool" where
  "owned b r =
     (let x = cheap b (sclient (sheap b r)) in
      ctyp x = CLIENT \<longrightarrow> status x \<noteq> Disconnected \<and> (\<exists>t. (t, r) \<in> set (subMap x)))"

definition entered :: "broker \<Rightarrow> string list \<Rightarrow> subref \<Rightarrow> bool" where
  "entered b fs r =
     (r < snext b \<and> sclient (sheap b r) < cnext b \<and> topicLevels (stopic (sheap b r)) = Inr fs \<and> owned b r)"

definition own_subs :: "broker \<Rightarrow> cref \<Rightarrow> bool" where
  "own_subs b c =
     (distinct_keys (subMap (cheap b c))
      \<and> (\<forall>t r. (t, r) \<in> set (subMap (cheap b c)) \<longrightarrow> r < snext b \<and> sclient (sheap b r) = c))"

definition subs_inv :: "broker \<Rightarrow> bool" where
  "subs_inv b =
     (mt_inv (topicsMgr b)
      \<and> (\<forall>fs x. (fs, x) \<in> mt_subs (topicsMgr b) \<longrightarrow> (\<exists>r. x = subPtr r \<and> entered b fs r))
      \<and> (\<forall>c. own_subs b c))"

lemma subs_inv_entry: "subs_inv b \<Longrightarrow> (fs, subPtr r) \<in> mt_subs (topicsMgr b) \<Longrightarrow> entered b fs r"
  unfolding subs_inv_def by (metis subPtr_inj)

lemma subs_inv_ptr: "subs_inv b \<Longrightarrow> (fs, x) \<in> mt_subs (topicsMgr b) \<Longrightarrow> \<exists>r. x = subPtr r"
  unfolding subs_inv_def by blast

lemma subs_invI:
  assumes "mt_inv (topicsMgr b)" "\<And>fs x. (fs, x) \<in> mt_subs (topicsMgr b) \<Longrightarrow> \<exists>r. x = subPtr r"
    "\<And>fs r. (fs, subPtr r) \<in> mt_subs (topicsMgr b) \<Longrightarrow> entered b fs r" "\<And>c. own_subs b c"
  shows "subs_inv b"
  using assms unfolding subs_inv_def by blast

definition sess_inv :: "cref set \<Rightarrow> broker \<Rightarrow> bool" where
  "sess_inv X b =
     (mp_inv (sessionMgr b)
      \<and> (\<forall>c. c \<notin> X \<and> ctyp (cheap b c) = CLIENT \<and> status (cheap b c) \<noteq> Disconnected \<longrightarrow> csession (cheap b c) \<noteq> None))"

definition binv :: "cref set \<Rightarrow> broker \<Rightarrow> bool" where
  "binv X b = (reg_inv X b \<and> subs_inv b \<and> sess_inv X b \<and> pool_inv (wpool b) \<and> \<not> stuck b)"

lemma binv_ready: "binv X b \<Longrightarrow> ready b"
  by (simp add: binv_def reg_inv_def)

text \<open>The frame keeps the invariant.\<close>

lemma expands_client:
  "expands b b' \<Longrightarrow> ctyp (cheap b' c) = CLIENT \<or> ctyp (cheap b' c) = ROUTER \<or> c < cnext b \<or> cnext b' \<le> c \<Longrightarrow>
   same_core (cheap b c) (cheap b' c)"
  unfolding expands_def outgoing_def by (metis ctype.distinct linorder_not_less)

lemma reg_inv_expands:
  assumes "reg_inv X b" "expands b b'"
  shows "reg_inv X b'"
proof -
  have rest: "clients b' = clients b" "cnext b \<le> cnext b'" using assms(2) by (auto simp: expands_def same_rest_def)
  have "ready b'" using assms ready_expands by (auto simp: reg_inv_def)
  moreover have "c < cnext b' \<and> ctyp (cheap b' c) = CLIENT \<and> clientID (cheap b' c) = i \<and> status (cheap b' c) \<noteq> Disconnected"
    if "(i, c) \<in> set (clients b')" for i c
    using assms(1) that rest expands_client [OF assms(2), of c] by (force simp: reg_inv_def same_core_def)
  moreover have "map_of (clients b') (clientID (cheap b' c)) = Some c"
    if "c \<notin> X" "ctyp (cheap b' c) = CLIENT" "status (cheap b' c) \<noteq> Disconnected" for c
    using assms(1) that rest expands_client [OF assms(2), of c] by (auto simp: reg_inv_def same_core_def)
  moreover have "status (cheap b' c) = Disconnected \<and> subMap (cheap b' c) = []" if "cnext b' \<le> c" for c
    using assms(1) that rest expands_client [OF assms(2), of c] by (auto simp: reg_inv_def same_core_def)
  ultimately show ?thesis using assms(1) rest by (auto simp: reg_inv_def)
qed

lemma subs_inv_expands:
  assumes "subs_inv b" "expands b b'"
  shows "subs_inv b'"
proof -
  have rest: "topicsMgr b' = topicsMgr b" "sheap b' = sheap b" "snext b' = snext b" "cnext b \<le> cnext b'"
    using assms(2) by (auto simp: expands_def same_rest_def)
  have "entered b' fs r" if "entered b fs r" for fs r
  proof -
    have "sclient (sheap b r) < cnext b" using that by (simp add: entered_def)
    then have "same_core (cheap b (sclient (sheap b r))) (cheap b' (sclient (sheap b r)))"
      using expands_client [OF assms(2)] by simp
    with that rest show ?thesis by (auto simp: entered_def owned_def same_core_def Let_def)
  qed
  moreover have "own_subs b' c" for c
  proof -
    have "own_subs b c" using assms(1) by (simp add: subs_inv_def)
    moreover have "same_core (cheap b c) (cheap b' c) \<or> subMap (cheap b' c) = []"
      using assms(2) by (auto simp: expands_def outgoing_def)
    ultimately show ?thesis using rest by (auto simp: own_subs_def same_core_def)
  qed
  ultimately show ?thesis using assms(1) rest unfolding subs_inv_def by metis
qed

lemma sess_inv_expands:
  assumes "sess_inv X b" "expands b b'"
  shows "sess_inv X b'"
proof -
  have "sessionMgr b' = sessionMgr b" using assms(2) by (simp add: expands_def same_rest_def)
  moreover have "csession (cheap b' c) \<noteq> None"
    if "c \<notin> X" "ctyp (cheap b' c) = CLIENT" "status (cheap b' c) \<noteq> Disconnected" for c
    using assms(1) that expands_client [OF assms(2), of c] by (auto simp: sess_inv_def same_core_def)
  ultimately show ?thesis using assms(1) by (simp add: sess_inv_def)
qed

lemma binv_expands: "binv X b \<Longrightarrow> expands b b' \<Longrightarrow> binv X b'"
  using reg_inv_expands subs_inv_expands sess_inv_expands
  by (auto simp: binv_def) (auto simp: expands_def same_rest_def)

section \<open>Cancelling a client's subscriptions\<close>

lemma unsubscribe_one:
  assumes "mt_inv tm"
  shows "mt_inv (fst (mtUnsubscribe t (subPtr r) tm))"
    and "mt_subs (fst (mtUnsubscribe t (subPtr r) tm)) = mt_subs tm - {(fs, subPtr r) | fs. topicLevels t = Inr fs}"
  using assms mem_subs.unsubscribe_inv [of tm "subPtr r" t] mem_subs.unsubscribe_ok [of tm "subPtr r" t]
    mem_subs.unsubscribe_refused [of tm "subPtr r" t]
  by (auto; cases "topicLevels t"; auto)+

lemma unsubscribe_fold:
  assumes "mt_inv tm"
  shows "mt_inv (foldl (\<lambda>tm (t, r). fst (mtUnsubscribe (tp r) (subPtr r) tm)) tm subs)
    \<and> mt_subs (foldl (\<lambda>tm (t, r). fst (mtUnsubscribe (tp r) (subPtr r) tm)) tm subs)
        = mt_subs tm - {(fs, subPtr r) | fs r. (\<exists>t. (t, r) \<in> set subs) \<and> topicLevels (tp r) = Inr fs}"
  using assms
proof (induction subs arbitrary: tm)
  case Nil
  then show ?case by simp
next
  case (Cons x subs)
  obtain t r where x: "x = (t, r)" by (cases x)
  note one = unsubscribe_one [OF Cons.prems, of "tp r" r]
  show ?case using Cons.IH [OF one(1)] one(2) by (auto simp: x)
qed

section \<open>Closing\<close>

lemma closeSelf_eqs:
  assumes "conn (cheap b c) = Some k"
  shows "cheap (closeSelf env c b) = (cheap b)(c := (cheap b c)\<lparr>cancelled := True, status := Disconnected, conn := None\<rparr>)"
    and "clients (closeSelf env c b) =
      (if ctyp (cheap b c) = CLIENT then AList.delete (clientID (cheap b c)) (clients b) else clients b)"
    and "routes (closeSelf env c b) =
      (if ctyp (cheap b c) = ROUTER then AList.delete (clientID (cheap b c)) (routes b) else routes b)"
    and "topicsMgr (closeSelf env c b) =
      foldl (\<lambda>tm (t, r). fst (mtUnsubscribe (stopic (sheap b r)) (subPtr r) tm)) (topicsMgr b) (subMap (cheap b c))"
    and "sheap (closeSelf env c b) = sheap b" "snext (closeSelf env c b) = snext b" "cnext (closeSelf env c b) = cnext b"
      "sessionMgr (closeSelf env c b) = sessionMgr b" "wpool (closeSelf env c b) = wpool b"
      "stuck (closeSelf env c b) = stuck b" "crashed (closeSelf env c b) = crashed b" "bauth (closeSelf env c b) = bauth b"
      "metricsOn (closeSelf env c b) = metricsOn b"
  using assms
  by (auto simp: closeSelf_def Let_def unsubscribeAll_def removeClient_def closeConn_def bridgePublish_def emit_def upd_def
      split: ctype.splits)

text \<open>After the client itself is closed, the rest writes, spawns and may make one connection.\<close>

lemma closeNotify_expands:
  assumes "quiet w" "ready b"
  shows "expands b (closeNotify env w c b)"
proof -
  define b0 where "b0 = BroadcastUnSubscribe w (subMap (cheap b c)) b"
  define b1 where "b1 = (if ctyp (cheap b c) = CLIENT
    then OnlineOfflineNotification env w (clientID (cheap b c)) False b0 else b)"
  define b2 where "b2 = (case willMsg (cheap b1 c) of None \<Rightarrow> b1 | Some m \<Rightarrow> PublishMessage w m b1)"
  define b3 where "b3 = (if ctyp (cheap b2 c) = CLUSTER then ConnectToDiscovery env w b2 else b2)"
  have 0: "only_trace b b0" unfolding b0_def using assms by (rule BroadcastUnSubscribe_quiet)
  have 1: "only_trace b b1"
    using OnlineOffline_quiet [OF assms(1) ready_only_trace [OF assms(2) 0]] 0
    by (auto simp: b1_def intro: only_trace_trans)
  have "only_trace b1 b2"
    using PublishMessage_quiet [OF assms(1) ready_only_trace [OF assms(2) 1]] by (simp add: b2_def split: option.split)
  with 1 have 2: "only_trace b b2" by (rule only_trace_trans)
  then have "expands b2 b3"
    using ConnectToDiscovery_expands [OF assms(1) ready_only_trace [OF assms(2) 2]] by (simp add: b3_def)
  with expands_only_trace [OF 2] have 3: "expands b b3" by (rule expands_trans)
  have "expands b3 (spawn g b3)" for g by (simp add: spawn_def expands_def same_rest_def)
  with 3 have "expands b (spawn g b3)" for g by (rule expands_trans)
  with 3 show ?thesis
    unfolding closeNotify_def Let_def b0_def [symmetric] b1_def [symmetric] b2_def [symmetric] b3_def [symmetric]
    by (simp split: if_split)
qed

lemma closeSelf_ready:
  assumes "ready b" "status (cheap b c) \<noteq> Disconnected"
  shows "ready (closeSelf env c b)"
proof -
  obtain k where "conn (cheap b c) = Some k" using assms by (auto simp: ready_def)
  with assms(1) show ?thesis by (simp add: ready_def closeSelf_eqs(1))
qed

lemma Close_idle: "status (cheap b c) = Disconnected \<Longrightarrow> Close env c b = b"
  by (simp add: Close_def)

lemma CloseWith_expands:
  assumes "ready b" "status (cheap b c) \<noteq> Disconnected"
  shows "expands (closeSelf env c b) (CloseWith (Suc n) env c b)"
  using assms closeNotify_expands [OF quiet_WriterPacket closeSelf_ready [OF assms]] by simp

lemma closeSelf_binv:
  assumes "binv X b" "status (cheap b c) \<noteq> Disconnected" "c \<notin> X"
  shows "binv X (closeSelf env c b)"
    and "ctyp (cheap b c) = CLIENT \<Longrightarrow> (fs, subPtr r) \<in> mt_subs (topicsMgr (closeSelf env c b)) \<Longrightarrow> sclient (sheap b r) \<noteq> c"
proof -
  let ?b = "closeSelf env c b"
  have ready: "ready b" using assms(1) by (rule binv_ready)
  then obtain k where k: "conn (cheap b c) = Some k" using assms(2) by (auto simp: ready_def)
  note eqs = closeSelf_eqs [OF k, of env]
  have inv: "reg_inv X b" "subs_inv b" "sess_inv X b" "pool_inv (wpool b)" "\<not> stuck b" using assms(1) by (auto simp: binv_def)
  have mt: "mt_inv (topicsMgr ?b)"
    and subs: "mt_subs (topicsMgr ?b) = mt_subs (topicsMgr b)
        - {(fs, subPtr r) | fs r. (\<exists>t. (t, r) \<in> set (subMap (cheap b c))) \<and> topicLevels (stopic (sheap b r)) = Inr fs}"
    using unsubscribe_fold [of "topicsMgr b" "\<lambda>r. stopic (sheap b r)" "subMap (cheap b c)"] inv(2)
    by (auto simp: eqs subs_inv_def)
  have gone: "sclient (sheap b r) \<noteq> c" if "ctyp (cheap b c) = CLIENT" "(fs, subPtr r) \<in> mt_subs (topicsMgr ?b)" for fs r
  proof
    assume own: "sclient (sheap b r) = c"
    have "entered b fs r" using subs_inv_entry [OF inv(2)] that(2) by (simp add: subs)
    then have "\<exists>t. (t, r) \<in> set (subMap (cheap b c))" "topicLevels (stopic (sheap b r)) = Inr fs"
      using own that(1) by (auto simp: entered_def owned_def Let_def)
    with that(2) show False by (auto simp: subs)
  qed
  show "ctyp (cheap b c) = CLIENT \<Longrightarrow> (fs, subPtr r) \<in> mt_subs (topicsMgr ?b) \<Longrightarrow> sclient (sheap b r) \<noteq> c"
    using gone by simp
  have "entered ?b fs r" if "(fs, subPtr r) \<in> mt_subs (topicsMgr ?b)" for fs r
  proof -
    have "entered b fs r" using subs_inv_entry [OF inv(2)] that by (simp add: subs)
    then show ?thesis using gone [OF _ that] by (auto simp: entered_def owned_def eqs Let_def)
  qed
  moreover have "own_subs ?b d" for d using inv(2) by (simp add: subs_inv_def own_subs_def eqs)
  moreover have "\<exists>r. x = subPtr r" if "(fs, x) \<in> mt_subs (topicsMgr ?b)" for fs x
    using subs_inv_ptr [OF inv(2)] that by (auto simp: subs)
  ultimately have "subs_inv ?b" using mt by (intro subs_invI)
  moreover have "sess_inv X ?b" using inv(3) by (auto simp: sess_inv_def eqs)
  moreover have "reg_inv X ?b"
  proof -
    note reg = reg_invD(2-5) [OF inv(1)]
    have keys: "distinct_keys (clients ?b)" using reg(1) by (auto simp: eqs intro: keys_intro)
    have other: "(i, d) \<in> set (clients b) \<and> d \<noteq> c" if "(i, d) \<in> set (clients ?b)" for i d
    proof (cases "ctyp (cheap b c) = CLIENT")
      case True
      then have "(i, d) \<in> set (clients b)" "i \<noteq> clientID (cheap b c)"
        using that set_delete_subset [of "clientID (cheap b c)" "clients b"] by (auto simp: eqs AList.delete_eq)
      with reg(2) [of i d] show ?thesis by auto
    next
      case False
      with that reg(2) [of i d] show ?thesis by (auto simp: eqs)
    qed
    have look: "map_of (clients ?b) (clientID (cheap b d)) = Some d"
      if "d \<notin> X" "d \<noteq> c" "ctyp (cheap b d) = CLIENT" "status (cheap b d) \<noteq> Disconnected" for d
    proof -
      have d: "map_of (clients b) (clientID (cheap b d)) = Some d" using reg(3) that by blast
      have "clientID (cheap b d) \<noteq> clientID (cheap b c)" if "ctyp (cheap b c) = CLIENT"
        using reg(3) [OF assms(3) that assms(2)] d \<open>d \<noteq> c\<close> by auto
      with d show ?thesis by (auto simp: eqs go_map)
    qed
    show ?thesis
    proof (rule reg_invI)
      show "ready ?b" using ready assms(2) by (rule closeSelf_ready)
      show "distinct_keys (clients ?b)" by (rule keys)
    next
      fix i d assume "(i, d) \<in> set (clients ?b)"
      from other [OF this] reg(2) [of i d]
      show "d < cnext ?b \<and> ctyp (cheap ?b d) = CLIENT \<and> clientID (cheap ?b d) = i \<and> status (cheap ?b d) \<noteq> Disconnected"
        by (simp add: eqs)
    next
      fix d assume "d \<notin> X" "ctyp (cheap ?b d) = CLIENT" "status (cheap ?b d) \<noteq> Disconnected"
      moreover from this have "d \<noteq> c" by (auto simp: eqs)
      ultimately show "map_of (clients ?b) (clientID (cheap ?b d)) = Some d" using look [of d] by (simp add: eqs(1))
    next
      fix d assume "cnext ?b \<le> d"
      then show "status (cheap ?b d) = Disconnected \<and> subMap (cheap ?b d) = []" using reg(4) [of d] by (auto simp: eqs)
    qed
  qed
  ultimately show "binv X ?b" using inv by (simp add: binv_def eqs)
qed

text \<open>\<open>Close\<close> keeps the invariant, and a client it closed is disconnected and has no connection.\<close>

lemma Close_expands:
  "ready b \<Longrightarrow> status (cheap b c) \<noteq> Disconnected \<Longrightarrow> expands (closeSelf env c b) (Close env c b)"
  unfolding Close_def by (rule CloseWith_expands)

lemma Close_binv:
  assumes "binv X b" "c \<notin> X"
  shows "binv X (Close env c b)"
proof (cases "status (cheap b c) = Disconnected")
  case True
  with assms show ?thesis by (simp add: Close_idle)
next
  case False
  show ?thesis
    using binv_expands [OF closeSelf_binv(1) [OF assms(1) False assms(2)] Close_expands [OF binv_ready [OF assms(1)] False]] .
qed

lemma Close_client:
  assumes "ready b" "c < cnext b"
  shows "status (cheap (Close env c b) c) = Disconnected"
    and "d < cnext b \<Longrightarrow> d \<noteq> c \<Longrightarrow> same_core (cheap b d) (cheap (Close env c b) d)"
    and "cnext b \<le> cnext (Close env c b)"
proof -
  have "status (cheap (Close env c b) c) = Disconnected
    \<and> (d < cnext b \<and> d \<noteq> c \<longrightarrow> same_core (cheap b d) (cheap (Close env c b) d))
    \<and> cnext b \<le> cnext (Close env c b)" for d
  proof (cases "status (cheap b c) = Disconnected")
    case True
    then show ?thesis by (simp add: Close_idle)
  next
    case False
    then obtain k where "conn (cheap b c) = Some k" using assms(1) by (auto simp: ready_def)
    note eqs = closeSelf_eqs [OF this, of env]
    note ex = Close_expands [OF assms(1) False, of env]
    have "same_core (cheap (closeSelf env c b) e) (cheap (Close env c b) e)" if "e < cnext b" for e
      using expands_client [OF ex, of e] that by (simp add: eqs)
    moreover have "cnext b \<le> cnext (Close env c b)" using ex by (simp add: expands_def eqs)
    ultimately show ?thesis using assms(2) by (auto simp: eqs same_core_def)
  qed
  then show "status (cheap (Close env c b) c) = Disconnected"
    and "d < cnext b \<Longrightarrow> d \<noteq> c \<Longrightarrow> same_core (cheap b d) (cheap (Close env c b) d)"
    and "cnext b \<le> cnext (Close env c b)" by auto
qed

lemma Close_clients:
  assumes "ready b" "status (cheap b c) \<noteq> Disconnected"
  shows "clients (Close env c b) =
    (if ctyp (cheap b c) = CLIENT then AList.delete (clientID (cheap b c)) (clients b) else clients b)"
proof -
  obtain k where "conn (cheap b c) = Some k" using assms by (auto simp: ready_def)
  with Close_expands [OF assms, of env] show ?thesis by (simp add: expands_def same_rest_def closeSelf_eqs)
qed

end
