(* ===== verification/Handler_Inv.thy ===== *)
theory Handler_Inv
  imports Broker_Close
begin

text \<open>
  Every handler keeps the invariant of the broker's state, whatever the packet and the environment.
\<close>

section \<open>Changes the invariant does not see\<close>

lemma binv_fields [simp]:
  "binv X (b\<lparr>bauth := a\<rparr>) = binv X b" "binv X (b\<lparr>nodes := ns\<rparr>) = binv X b"
  "binv X (b\<lparr>goroutines := gs\<rparr>) = binv X b" "binv X (b\<lparr>clusterPool := ms\<rparr>) = binv X b"
  "binv X (b\<lparr>connNext := k\<rparr>) = binv X b" "binv X (crash b) = binv X b" "binv X (emit e b) = binv X b"
  "binv X (spawn g b) = binv X b" "binv X (bridgePublish el b) = binv X b" "binv X (b\<lparr>routes := rs\<rparr>) = binv X b"
  "binv X (counting z b) = binv X b"
  by (simp_all add: counting_def binv_def reg_inv_def subs_inv_def sess_inv_def ready_def own_subs_def entered_def owned_def
      crash_def emit_def spawn_def bridgePublish_def Let_def)

lemma binv_wpool: "binv X b \<Longrightarrow> pool_inv p \<Longrightarrow> binv X (b\<lparr>wpool := p\<rparr>)"
  by (simp add: binv_def reg_inv_def subs_inv_def sess_inv_def ready_def own_subs_def entered_def owned_def Let_def)

lemma binv_upd: "binv X b \<Longrightarrow> (\<And>x. same_core x (f x)) \<Longrightarrow> binv X (upd c f b)"
  using binv_expands expands_upd by blast

text \<open>What a loop over the topics of a packet also keeps of its client.\<close>

definition live :: "cref \<Rightarrow> ctype \<Rightarrow> broker \<Rightarrow> bool" where
  "live c ty b = (c < cnext b \<and> status (cheap b c) \<noteq> Disconnected \<and> ctyp (cheap b c) = ty)"

lemma live_fields [simp]:
  "live c ty (b\<lparr>bauth := a\<rparr>) = live c ty b" "live c ty (crash b) = live c ty b" "live c ty (emit e b) = live c ty b"
  "live c ty (bridgePublish el b) = live c ty b" "live c ty (b\<lparr>topicsMgr := tm\<rparr>) = live c ty b"
  "live c ty (b\<lparr>sessionMgr := sm\<rparr>) = live c ty b"
  by (simp_all add: live_def crash_def emit_def bridgePublish_def)

lemma live_upd: "live c ty b \<Longrightarrow> (\<And>x. status (f x) = status x \<and> ctyp (f x) = ctyp x) \<Longrightarrow> live c ty (upd d f b)"
  by (auto simp: live_def)

lemma brokerTopicAuth_binv:
  "brokerTopicAuth env act x t b = (b', ok) \<Longrightarrow> binv X b' = binv X b \<and> live c ty b' = live c ty b \<and> ready b' = ready b"
  by (auto simp: brokerTopicAuth_def ready_def split: option.splits prod.splits)

section \<open>Publishing\<close>

lemma retainIn_binv:
  assumes "binv X b"
  shows "binv X (retainIn p b)"
proof -
  have "mt_inv (topicsMgr b)" using assms by (simp add: binv_def subs_inv_def)
  then have "mt_inv (fst (mtRetain p (topicsMgr b)))" "mt_subs (fst (mtRetain p (topicsMgr b))) = mt_subs (topicsMgr b)"
    using mem_retained.retain_inv mem_topics.retain_subs by auto
  with assms show ?thesis
    by (simp add: retainIn_def binv_def reg_inv_def subs_inv_def sess_inv_def ready_def own_subs_def entered_def
        owned_def Let_def)
qed

lemma ProcessPublishMessage_binv:
  assumes "quiet w" "binv X b"
  shows "binv X (ProcessPublishMessage env w c p b)"
  using binv_expands [OF retainIn_binv [OF assms(2)] expands_delivers]
    ProcessPublishMessage_delivers [OF assms(1) binv_ready [OF assms(2)]] by blast

lemma writePacket_expands: "ready b \<Longrightarrow> expands b (fst (writePacket env c p b))"
  by (intro expands_only_trace quietD) auto

lemma writePacket_binv: "binv X b \<Longrightarrow> writePacket env c p b = (b', err) \<Longrightarrow> binv X b'"
  using binv_expands [OF _ writePacket_expands [OF binv_ready]] by (metis fst_conv)

lemma writePacket_binv_fst: "binv X b \<Longrightarrow> binv X (fst (writePacket env c p b))"
  using writePacket_binv [of X b env c p] by (metis prod.collapse)

lemma processRouterPublish_binv: "binv X b \<Longrightarrow> binv X (processRouterPublish env c p b)"
  by (auto simp: processRouterPublish_def intro: ProcessPublishMessage_binv writePacket_binv split: prod.split)

lemma register_core: "registerPublishPacketId t i x = (y, e) \<Longrightarrow> same_core x y"
  by (auto simp: registerPublishPacketId_def same_core_def split: if_splits)

lemma binv_set: "binv X b \<Longrightarrow> same_core (cheap b c) y \<Longrightarrow> binv X (upd c (\<lambda>_. y) b)"
  by (rule binv_expands) (auto simp: expands_def same_rest_def)

lemma processClientPublish_binv:
  assumes "binv X b"
  shows "binv X (processClientPublish env c p b)"
proof -
  obtain b1 ok where auth: "brokerTopicAuth env aPUB (cheap b c) (TopicName p) b = (b1, ok)"
    by (cases "brokerTopicAuth env aPUB (cheap b c) (TopicName p) b")
  let ?b2 = "bridgePublish (element (cheap b1 c) bPublish (now env) (Payload p) (TopicName p)) b1"
  have b1: "binv X b1" using brokerTopicAuth_binv [OF auth] assms by blast
  then have b2: "binv X ?b2" by simp
  obtain y e where reg: "registerPublishPacketId (now env) (MessageID p) (cheap ?b2 c) = (y, e)"
    by (cases "registerPublishPacketId (now env) (MessageID p) (cheap ?b2 c)")
  have "binv X (upd c (\<lambda>_. y) ?b2)" using b2 register_core [OF reg] by (rule binv_set)
  note step3 = this
  have publish: "binv X (ProcessPublishMessage env (writePacket env) c p x)" if "binv X x" for x
    using quiet_writePacket that by (rule ProcessPublishMessage_binv)
  have acked: "binv X (case writePacket env c q x of (b3, err) \<Rightarrow> if err then b3 else ProcessPublishMessage env (writePacket env) c p b3)"
    if "binv X x" for q x
    using writePacket_binv [OF that, of env c q] publish by (cases "writePacket env c q x") simp
  show ?thesis
    using b1 b2 publish [OF b2] acked [OF b2] acked [OF step3]
    by (simp add: processClientPublish_def auth reg Let_def split: option.split)
qed

lemma CheckRemoteExist_expands: "expands b (fst (CheckRemoteExist rid url b))"
  by (auto simp: CheckRemoteExist_def same_core_def intro: expands_upd split: option.split)

lemma connectNode_expands:
  assumes "ready b"
  shows "expands b (connectNode env b (rid, rurl))"
proof (cases rurl)
  case (JString url)
  obtain b1 ex where r: "CheckRemoteExist rid url b = (b1, ex)" by (cases "CheckRemoteExist rid url b")
  then have 1: "expands b b1" using CheckRemoteExist_expands [of b rid url] by simp
  have "expands b1 (connectRouter env (writePacket env) rid url b1)"
    using quiet_writePacket ready_expands [OF assms 1] by (rule connectRouter_expands)
  with 1 have "expands b (connectRouter env (writePacket env) rid url b1)" by (rule expands_trans)
  with 1 show ?thesis by (simp add: connectNode_def JString r)
qed (simp add: connectNode_def)

lemma ProcessInfo_binv:
  assumes "binv X b"
  shows "binv X (ProcessInfo env c p b)"
proof -
  have nodes: "binv X (b\<lparr>nodes := rs\<rparr>)" for rs using assms by simp
  have "expands (b\<lparr>nodes := rs\<rparr>) (foldl (connectNode env) (b\<lparr>nodes := rs\<rparr>) rs)" for rs
    using binv_ready [OF nodes] by (rule expands_foldl) (metis connectNode_expands surj_pair)
  with nodes have "binv X (foldl (connectNode env) (b\<lparr>nodes := rs\<rparr>) rs)" for rs by (rule binv_expands)
  with assms show ?thesis by (simp add: ProcessInfo_def split: option.split)
qed

lemma ProcessPublish_binv: "binv X b \<Longrightarrow> binv X (ProcessPublish env c p b)"
  by (simp add: ProcessPublish_def processRemotePublish_def processClientPublish_binv processRouterPublish_binv
      ProcessInfo_binv split: ctype.split)

section \<open>Subscribing\<close>

lemma dropSub_binv:
  assumes "binv X b" "map_of (subMap (cheap b c)) t = Some r"
  shows "binv X (dropSub c t r b)"
proof -
  let ?b = "dropSub c t r b"
  have inv: "reg_inv X b" "subs_inv b" "sess_inv X b" "pool_inv (wpool b)" "\<not> stuck b" using assms(1) by (auto simp: binv_def)
  have mem: "(t, r) \<in> set (subMap (cheap b c))" using assms(2) by (rule map_of_SomeD)
  have own: "own_subs b d" for d using inv(2) by (simp add: subs_inv_def)
  have mt: "mt_inv (topicsMgr ?b)"
    and subs: "mt_subs (topicsMgr ?b) = mt_subs (topicsMgr b) - {(fs, subPtr r) | fs. topicLevels (stopic (sheap b r)) = Inr fs}"
    using unsubscribe_one [of "topicsMgr b" "stopic (sheap b r)" r] inv(2) by (auto simp: dropSub_def subs_inv_def)
  have heap: "cheap ?b = (cheap b)(c := (cheap b c)\<lparr>subMap := AList.delete t (subMap (cheap b c))\<rparr>)"
    "sheap ?b = sheap b" "snext ?b = snext b" "cnext ?b = cnext b" "clients ?b = clients b"
    "sessionMgr ?b = sessionMgr b" "wpool ?b = wpool b" "stuck ?b = stuck b"
    by (simp_all add: dropSub_def)
  have "entered ?b fs s" if "(fs, subPtr s) \<in> mt_subs (topicsMgr ?b)" for fs s
  proof -
    have e: "entered b fs s" using subs_inv_entry [OF inv(2)] that by (simp add: subs)
    have "s \<noteq> r" using that e by (auto simp: subs entered_def)
    have "(t', s) \<in> set (AList.delete t (subMap (cheap b c)))" if "(t', s) \<in> set (subMap (cheap b c))" for t'
    proof -
      have "t' \<noteq> t" using own [of c] mem that \<open>s \<noteq> r\<close> by (auto simp: own_subs_def go_map)
      with that show ?thesis by (auto simp: AList.delete_eq)
    qed
    with e show ?thesis by (auto simp: entered_def owned_def heap Let_def)
  qed
  moreover have "own_subs ?b d" for d
    using own [of d] set_delete_subset [of t "subMap (cheap b c)"]
    by (auto simp: own_subs_def heap intro: keys_intro)
  moreover have "\<exists>s. x = subPtr s" if "(fs, x) \<in> mt_subs (topicsMgr ?b)" for fs x
    using subs_inv_ptr [OF inv(2)] that by (auto simp: subs)
  ultimately have "subs_inv ?b" using mt by (intro subs_invI)
  moreover have "reg_inv X ?b"
    using reg_invD [OF inv(1)] by (intro reg_invI) (auto simp: heap ready_def)
  moreover have "sess_inv X ?b" using inv(3) by (auto simp: sess_inv_def heap)
  ultimately show ?thesis using inv by (simp add: binv_def heap)
qed

lemma dropSub_gone: "own_subs b c \<Longrightarrow> map_of (subMap (cheap (dropSub c t r b) c)) t = None"
  by (simp add: dropSub_def go_map)

lemma dropSub_live: "live c ty b \<Longrightarrow> live c ty (dropSub c t r b)"
  unfolding dropSub_def by (rule live_upd) auto

text \<open>The two outcomes of entering a subscription.\<close>

lemma enterSub_eqs:
  assumes "enterSub c topic q sh grp b = (b', r, res)"
  defines "b0 \<equiv> fst (allocSub \<lparr>sclient = c, stopic = topic, subQos = q, share = sh, groupName = grp\<rparr> b)"
  shows "r = snext b" "b' = b0\<lparr>topicsMgr := fst (mtSubscribe topic q (subPtr r) (topicsMgr b))\<rparr>"
    and "res = (case snd (snd (mtSubscribe topic q (subPtr r) (topicsMgr b))) of
                  None \<Rightarrow> Some (fst (snd (mtSubscribe topic q (subPtr r) (topicsMgr b)))) | Some e \<Rightarrow> None)"
  using assms by (auto simp: enterSub_def allocSub_def b0_def split: prod.splits option.splits)

lemma subscribe_one:
  assumes "mt_inv tm"
  shows "mt_inv (fst (mtSubscribe t q (subPtr r) tm))"
    and "snd (snd (mtSubscribe t q (subPtr r) tm)) = Some e \<Longrightarrow> mt_subs (fst (mtSubscribe t q (subPtr r) tm)) = mt_subs tm"
    and "snd (snd (mtSubscribe t q (subPtr r) tm)) = None \<Longrightarrow>
      ValidQos q \<and> (\<exists>fs. topicLevels t = Inr fs \<and> mt_subs (fst (mtSubscribe t q (subPtr r) tm)) = insert (fs, subPtr r) (mt_subs tm))"
  using assms mem_subs.subscribe_inv [of tm "subPtr r" t q] mem_subs.subscribe_ok [of tm "subPtr r" q t]
    mem_subs.subscribe_refused [of tm "subPtr r" q t]
  by (auto; cases "ValidQos q"; cases "topicLevels t"; auto)+

lemma enterSub_refused_binv:
  assumes "binv X b" "enterSub c topic q sh grp b = (b', r, None)"
  shows "binv X b'"
proof -
  note eqs = enterSub_eqs [OF assms(2)]
  obtain e where e: "snd (snd (mtSubscribe topic q (subPtr r) (topicsMgr b))) = Some e"
    using eqs(3) by (auto split: option.splits)
  have inv: "reg_inv X b" "subs_inv b" "sess_inv X b" "pool_inv (wpool b)" "\<not> stuck b" using assms(1) by (auto simp: binv_def)
  have mt0: "mt_inv (topicsMgr b)" using inv(2) by (simp add: subs_inv_def)
  have heap: "cheap b' = cheap b" "snext b' = snext b + 1" "cnext b' = cnext b" "clients b' = clients b"
    "sessionMgr b' = sessionMgr b" "wpool b' = wpool b" "stuck b' = stuck b" "\<And>s. s < snext b \<Longrightarrow> sheap b' s = sheap b s"
    and mt: "mt_inv (topicsMgr b')" "mt_subs (topicsMgr b') = mt_subs (topicsMgr b)"
    using eqs(1,2) subscribe_one(1) [OF mt0] subscribe_one(2) [OF mt0 e] by (auto simp: allocSub_def)
  have old: "entered b' fs s" if "entered b fs s" for fs s
    using that by (auto simp: entered_def owned_def heap Let_def)
  have "subs_inv b'"
  proof (rule subs_invI)
    show "entered b' fs s" if "(fs, subPtr s) \<in> mt_subs (topicsMgr b')" for fs s
      using subs_inv_entry [OF inv(2)] that old by (simp add: mt)
    show "own_subs b' d" for d using inv(2) by (fastforce simp: subs_inv_def own_subs_def heap)
  qed (use mt subs_inv_ptr [OF inv(2)] in auto)
  moreover have "reg_inv X b'" using reg_invD [OF inv(1)] by (intro reg_invI) (auto simp: heap ready_def)
  ultimately show ?thesis using inv by (simp add: binv_def sess_inv_def heap)
qed

lemma enterSub_entered_binv:
  assumes "binv X b" "enterSub c topic q sh grp b = (b', r, Some rq)" "c < cnext b" "status (cheap b c) \<noteq> Disconnected"
    and "ctyp (cheap b c) = CLIENT \<Longrightarrow> map_of (subMap (cheap b c)) t = None"
    and f: "\<And>x. ctyp (f x) = ctyp x \<and> conn (f x) = conn x \<and> clientID (f x) = clientID x \<and> status (f x) = status x
      \<and> csession (f x) = csession x \<and> subMap (f x) = AList.update t r (subMap x)"
  shows "binv X (upd c f b')"
proof -
  let ?b = "upd c f b'"
  note eqs = enterSub_eqs [OF assms(2)]
  have none: "snd (snd (mtSubscribe topic q (subPtr r) (topicsMgr b))) = None"
    using eqs(3) by (auto split: option.splits)
  have inv: "reg_inv X b" "subs_inv b" "sess_inv X b" "pool_inv (wpool b)" "\<not> stuck b" using assms(1) by (auto simp: binv_def)
  have mt0: "mt_inv (topicsMgr b)" using inv(2) by (simp add: subs_inv_def)
  obtain fs0 where lv: "topicLevels topic = Inr fs0"
    and subs: "mt_subs (fst (mtSubscribe topic q (subPtr r) (topicsMgr b))) = insert (fs0, subPtr r) (mt_subs (topicsMgr b))"
    using subscribe_one(3) [OF mt0 none] by blast
  have r: "r = snext b" by (rule eqs)
  have base: "cheap b' = cheap b" "snext b' = snext b + 1" "cnext b' = cnext b" "clients b' = clients b"
    "sessionMgr b' = sessionMgr b" "wpool b' = wpool b" "stuck b' = stuck b"
    using eqs(2) by (simp_all add: allocSub_def)
  have heap: "cheap ?b = (cheap b)(c := f (cheap b c))" "snext ?b = snext b + 1" "cnext ?b = cnext b" "clients ?b = clients b"
    "sessionMgr ?b = sessionMgr b" "wpool ?b = wpool b" "stuck ?b = stuck b" "\<And>s. s < snext b \<Longrightarrow> sheap ?b s = sheap b s"
    "sheap ?b r = \<lparr>sclient = c, stopic = topic, subQos = q, share = sh, groupName = grp\<rparr>"
    and mt: "mt_inv (topicsMgr ?b)" "mt_subs (topicsMgr ?b) = insert (fs0, subPtr r) (mt_subs (topicsMgr b))"
    using eqs(1,2) subscribe_one(1) [OF mt0] subs by (auto simp: allocSub_def)
  have core: "ctyp (cheap ?b d) = ctyp (cheap b d)" "conn (cheap ?b d) = conn (cheap b d)"
    "clientID (cheap ?b d) = clientID (cheap b d)" "status (cheap ?b d) = status (cheap b d)"
    "csession (cheap ?b d) = csession (cheap b d)"
    "subMap (cheap ?b d) = (if d = c then AList.update t r (subMap (cheap b c)) else subMap (cheap b d))" for d
    using f by (auto simp: base)
  have "map_of (AList.update t r (subMap (cheap b c))) t = Some r" by (simp add: go_map)
  then have "(t, r) \<in> set (AList.update t r (subMap (cheap b c)))" by (rule map_of_SomeD)
  moreover have "sclient (sheap ?b r) = c" "stopic (sheap ?b r) = topic" by (simp_all only: heap(9) subscription.simps)
  ultimately have new: "entered ?b fs0 r"
    using assms(3,4) lv r unfolding entered_def owned_def Let_def heap(2,3) core by auto
  have old: "entered ?b fs s" if "entered b fs s" for fs s
  proof -
    have s: "s < snext b" using that by (simp add: entered_def)
    have "(t', s) \<in> set (AList.update t r (subMap (cheap b c)))"
      if "(t', s) \<in> set (subMap (cheap b c))" "ctyp (cheap b c) = CLIENT" for t'
    proof -
      have "t' \<noteq> t" using that assms(5) by (auto simp: map_of_eq_None_iff image_iff)
      moreover have "distinct_keys (subMap (cheap b c))" using inv(2) by (simp add: subs_inv_def own_subs_def)
      ultimately show ?thesis using that(1) by (simp add: go_map distinct_keys_update flip: map_of_eq_Some_iff)
    qed
    then show ?thesis
      using that s unfolding entered_def owned_def Let_def heap(2,3) core heap(8) [OF s] by (auto split: if_splits)
  qed
  have "subs_inv ?b"
  proof (rule subs_invI)
    show "entered ?b fs s" if "(fs, subPtr s) \<in> mt_subs (topicsMgr ?b)" for fs s
      using subs_inv_entry [OF inv(2)] that [unfolded mt(2)] old new by auto
    show "own_subs ?b d" for d
    proof -
      have "own_subs b d" using inv(2) by (simp add: subs_inv_def)
      moreover have "own_subs b c" using inv(2) by (simp add: subs_inv_def)
      moreover have "s < snext b + 1 \<and> sclient (sheap ?b s) = c" if "(t', s) \<in> set (AList.update t r (subMap (cheap b c)))" for t' s
      proof (cases "s = r")
        case True
        have "sclient (sheap ?b r) = c" by (simp only: heap(9) subscription.simps)
        with True r show ?thesis by (simp only:) simp
      next
        case False
        then have "(t', s) \<in> set (subMap (cheap b c))" using set_update_other [OF that] by auto
        then have "s < snext b" "sclient (sheap b s) = c" using \<open>own_subs b c\<close> by (auto simp: own_subs_def)
        then show ?thesis by (simp only: heap(8)) simp
      qed
      moreover have "s < snext b + 1 \<and> sclient (sheap ?b s) = d" if "(t', s) \<in> set (subMap (cheap b d))" for t' s
      proof -
        have "s < snext b" "sclient (sheap b s) = d" using \<open>own_subs b d\<close> that by (auto simp: own_subs_def)
        then show ?thesis by (simp only: heap(8)) simp
      qed
      ultimately show ?thesis unfolding own_subs_def heap(2) core
        by (cases "d = c") (simp_all only: if_True if_False distinct_keys_update simp_thms, blast+)
    qed
    show "\<exists>s. x = subPtr s" if "(fs, x) \<in> mt_subs (topicsMgr ?b)" for fs x
      using subs_inv_ptr [OF inv(2)] that [unfolded mt(2)] by auto
  qed (rule mt(1))
  moreover have "reg_inv X ?b"
  proof (rule reg_invI)
    show "ready ?b" using reg_invD(1) [OF inv(1)] unfolding ready_def core .
    show "distinct_keys (clients ?b)" using reg_invD(2) [OF inv(1)] by (simp add: base)
    show "map_of (clients ?b) (clientID (cheap ?b d)) = Some d"
      if "d \<notin> X" "ctyp (cheap ?b d) = CLIENT" "status (cheap ?b d) \<noteq> Disconnected" for d
      using reg_invD(4) [OF inv(1), of d] that unfolding core heap(4) by simp
    show "d < cnext ?b \<and> ctyp (cheap ?b d) = CLIENT \<and> clientID (cheap ?b d) = i \<and> status (cheap ?b d) \<noteq> Disconnected"
      if "(i, d) \<in> set (clients ?b)" for i d
      using reg_invD(3) [OF inv(1), of i d] that unfolding core heap(3,4) by simp
    show "status (cheap ?b d) = Disconnected \<and> subMap (cheap ?b d) = []" if "cnext ?b \<le> d" for d
      using reg_invD(5) [OF inv(1), of d] that assms(3) unfolding core heap(3) by simp
  qed
  moreover have "sess_inv X ?b" using inv(3) unfolding sess_inv_def heap(5) core .
  ultimately show ?thesis using inv unfolding binv_def heap(6,7) by simp
qed

end
