(* ===== verification/Connections.thy ===== *)
theory Connections
  imports Client_Handlers
begin

text \<open>
  The life of a connection (\<^verbatim>\<open>handleConnection\<close>, \<^verbatim>\<open>getSession\<close>, \<^verbatim>\<open>readLoop\<close>,
  \<^verbatim>\<open>SubmitWork\<close>) and the steps a broker can take: each is one turn of one of its goroutines, run
  to the next point where it waits.
\<close>

section \<open>Handing a packet to the workers\<close>

text \<open>
  \<^verbatim>\<open>SubmitWork\<close>. Without an HTTP port \<^verbatim>\<open>b.metrics\<close> is nil and counting the message panics.
  \<open>None\<close>: the channel of the worker is full, or the one of the cluster is taken, and the reader waits.
\<close>

definition SubmitWork :: "env \<Rightarrow> string \<Rightarrow> message \<Rightarrow> broker \<Rightarrow> broker option" where
  "SubmitWork env cid m b =
     (if \<not> metricsOn b then Some (crash b)
      else
        (let b1 = counting (Inc MetricNumberOfMessages) b in
         if ctyp (cheap b1 (mclient m)) = CLUSTER then
           (if clusterPool b1 = [] then Some (b1\<lparr>clusterPool := [m]\<rparr>) else None)
         else map_option (\<lambda>p. b1\<lparr>wpool := p\<rparr>) (Submit (hashString env) cid (Some m) (wpool b1))))"

section \<open>Reading from a connection\<close>

text \<open>What a turn of \<^verbatim>\<open>readLoop\<close> meets.\<close>

datatype read_result = DeadlineErr | ReadErr | ReadPacket controlPacket

fun isDisconnect :: "controlPacket \<Rightarrow> bool" where
  "isDisconnect DisconnectP = True"
| "isDisconnect _ = False"

text \<open>
  One turn: what the read gave is handed to the workers, and the test of the context at the head of
  the loop follows. An error hands on a DISCONNECT and ends the loop; a DISCONNECT from the client
  clears the will and cancels the context. (The context may be cancelled while the reader waits for
  a packet, which is why the test comes at the end of the turn and not at its start.) When the loop
  of an accepted connection ends, the connection is no longer counted.
\<close>

definition stopReading :: "cref \<Rightarrow> broker \<Rightarrow> broker" where
  "stopReading c b =
     (let b1 = upd c (\<lambda>x. x\<lparr>reading := False\<rparr>) b in
      if ctyp (cheap b c) = CLIENT \<or> ctyp (cheap b c) = ROUTER then counting (Dec MetricNumberOfClients) b1 else b1)"

definition checkContext :: "cref \<Rightarrow> broker \<Rightarrow> broker" where
  "checkContext c b = (if cancelled (cheap b c) then stopReading c b else b)"

definition readTurn :: "env \<Rightarrow> cref \<Rightarrow> read_result \<Rightarrow> broker \<Rightarrow> broker option" where
  "readTurn env c res b =
     (let cid = clientID (cheap b c); bye = \<lparr>mclient = c, mpacket = DisconnectP\<rparr> in
      case res of
        DeadlineErr \<Rightarrow>
          if 0 < keepAlive (cheap b c) then map_option (stopReading c) (SubmitWork env cid bye b) else Some b
      | ReadErr \<Rightarrow> map_option (stopReading c) (SubmitWork env cid bye b)
      | ReadPacket p \<Rightarrow>
          map_option (checkContext c)
            (SubmitWork env cid \<lparr>mclient = c, mpacket = p\<rparr>
              (if isDisconnect p then upd c (\<lambda>x. x\<lparr>willMsg := None, cancelled := True\<rparr>) b else b)))"

section \<open>Accepting a connection\<close>

text \<open>
  \<^verbatim>\<open>getSession\<close>: the session stored for the identifier when the client wants it kept and there
  is one, a new one otherwise. The request is changed when it has no identifier.
\<close>

definition cleanRequest :: "connectPacket \<Rightarrow> connectPacket" where
  "cleanRequest req = (if length (ClientIdentifier req) = 0 then req\<lparr>CleanSession := True\<rparr> else req)"

definition getSession :: "env \<Rightarrow> cref \<Rightarrow> connectPacket \<Rightarrow> broker \<Rightarrow> broker \<times> session_error option" where
  "getSession env c req0 b =
     (let req = cleanRequest req0; cid = ClientIdentifier req;
          old = (if CleanSession req then None
                 else (case mpGet cid (sessionMgr b) of Inl e \<Rightarrow> None | Inr s \<Rightarrow> Some s))
      in case old of
           Some s \<Rightarrow>
             (upd c (\<lambda>x. x\<lparr>csession := Some s\<rparr>)
                (b\<lparr>sessionMgr := onSession s (\<lambda>s. fst (Update req s)) (sessionMgr b)\<rparr>), None)
         | None \<Rightarrow>
             (case managerNew (sessionRnd env) cid (sessionMgr b) of
                (mp, s) \<Rightarrow>
                  (upd c (\<lambda>x. x\<lparr>csession := Some s\<rparr>) (b\<lparr>sessionMgr := onSession s (\<lambda>s. fst (Init req s)) mp\<rparr>),
                   snd (Init req (sessHeap mp s)))))"

definition willOf :: "connectPacket \<Rightarrow> publishPacket option" where
  "willOf m =
     (if WillFlag m
      then Some (newPublish\<lparr>Qos := WillQos m, TopicName := WillTopic m, Retain := WillRetain m,
                   Payload := WillMessage m, Dup := HeaderDup m\<rparr>)
      else None)"

definition Accepted :: byte where "Accepted = 0"
definition ErrRefusedNotAuthorised :: byte where "ErrRefusedNotAuthorised = 5"

text \<open>The part of \<^verbatim>\<open>handleConnection\<close> after the CONNACK: the client enters its registry.\<close>

definition register :: "env \<Rightarrow> connectPacket \<Rightarrow> cref \<Rightarrow> broker \<Rightarrow> broker" where
  "register env msg c b =
     (let cid = clientID (cheap b c) in
      case ctyp (cheap b c) of
        CLIENT \<Rightarrow>
          (let b1 = (case map_of (clients b) cid of None \<Rightarrow> b | Some old \<Rightarrow> Close env old b);
               b2 = b1\<lparr>clients := AList.update cid c (clients b1)\<rparr>;
               b3 = OnlineOfflineNotification env (writePacket env) cid True b2
           in bridgePublish (element (cheap b3 c) bConnect (now env) [] []) b3)
      | ROUTER \<Rightarrow>
          (let b1 = (case map_of (routes b) cid of None \<Rightarrow> b | Some old \<Rightarrow> Close env old b)
           in b1\<lparr>routes := AList.update cid c (routes b1)\<rparr>)
      | _ \<Rightarrow> b)"

definition acceptClient :: "env \<Rightarrow> ctype \<Rightarrow> connId \<Rightarrow> connectPacket \<Rightarrow> broker \<Rightarrow> broker" where
  "acceptClient env ty k msg b =
     (let x = initClient ty k (ClientIdentifier msg) (Username msg) (Password msg) (Keepalive msg) (willOf msg)
                (connLocalIP env) (connRemoteIP env) [] [];
          (b1, c) = allocClient x b;
          (b2, err) = getSession env c msg b1
      in if err \<noteq> None then b2
         else
           (let b3 = register env msg c b2 in
            if \<not> metricsOn b3 then crash b3
            else upd c (\<lambda>x. x\<lparr>reading := True\<rparr>) (counting (Inc MetricNumberOfClients) b3)))"

text \<open>
  \<^verbatim>\<open>handleConnection\<close> on a new connection, given what was read from it: nothing, or a packet.
  The return code of the CONNACK is the packet library's verdict; a refused connection is left open.
\<close>

definition handleConnection :: "env \<Rightarrow> ctype \<Rightarrow> controlPacket option \<Rightarrow> broker \<Rightarrow> broker" where
  "handleConnection env ty packet b0 =
     (let k = connNext b0; b = b0\<lparr>connNext := k + 1\<rparr> in
      case packet of
        Some (ConnectP msg) \<Rightarrow>
          (let code = validateConnect env msg in
           if code \<noteq> Accepted then fst (rawWrite env k (ConnackP (CleanSession msg) code) b)
           else
             (let (b1, ok) = (if ty = CLIENT
                              then brokerConnectAuth env (ClientIdentifier msg) (Username msg) (Password msg) b
                              else (b, True))
              in if \<not> ok then fst (rawWrite env k (ConnackP (CleanSession msg) ErrRefusedNotAuthorised) b1)
                 else (case rawWrite env k (ConnackP (CleanSession msg) Accepted) b1 of
                   (b2, err) \<Rightarrow> if err then b2 else acceptClient env ty k msg b2)))
      | _ \<Rightarrow> b)"

section \<open>Steps\<close>

text \<open>
  One turn of a goroutine: a new connection on the client or the cluster port, a reader, a worker,
  the cluster loop, a goroutine started with \<^verbatim>\<open>go\<close>, a timer, the ping ticker, the connection
  deleted over HTTP, and the connection to the hub that \<^verbatim>\<open>Start\<close> makes.
  The HTTP server runs exactly when there are metrics.
\<close>

datatype event =
    EvAccept bool "controlPacket option"   \<comment> \<open>whether on the cluster port, what is read\<close>
  | EvRead cref read_result
  | EvWork nat
  | EvCluster
  | EvGo
  | EvRetry cref
  | EvExpireRel cref
  | EvPing bool cref   \<comment> \<open>whether the ticker fired, the client\<close>
  | EvDelete string
  | EvDiscover

definition runGo :: "env \<Rightarrow> goroutine \<Rightarrow> broker \<Rightarrow> broker" where
  "runGo env g b =
     (case g of
        GoBroadcast p \<Rightarrow> BroadcastSubOrUnsubMessage (writePacket env) p b
      | GoConnectRouter rid url \<Rightarrow> connectRouter env (writePacket env) rid url b)"

text \<open>The handler of \<^verbatim>\<open>DELETE api/v1/connections/:clientid\<close>.\<close>

definition deleteConnection :: "env \<Rightarrow> string \<Rightarrow> broker \<Rightarrow> broker" where
  "deleteConnection env clientid b =
     (case map_of (clients b) clientid of None \<Rightarrow> b | Some cli \<Rightarrow> Close env cli b)"

text \<open>
  A turn of \<^verbatim>\<open>StartPing\<close>: the ticker fired, or the context is done. When both are ready the
  \<^verbatim>\<open>select\<close> takes either.
\<close>

definition pingTurn :: "env \<Rightarrow> bool \<Rightarrow> cref \<Rightarrow> broker \<Rightarrow> broker" where
  "pingTurn env tick c b =
     (if tick then (case writePacket env c PingreqP b of (b1, err) \<Rightarrow> if err then Close env c b1 else b1)
      else if cancelled (cheap b c) then upd c (\<lambda>x. x\<lparr>pinging := False\<rparr>) b
      else b)"

text \<open>A turn of \<^verbatim>\<open>processClusterInfo\<close>, the loop that takes the hub's messages from their channel.\<close>

definition processClusterInfo :: "env \<Rightarrow> broker \<Rightarrow> broker option" where
  "processClusterInfo env b =
     (case clusterPool b of
        [] \<Rightarrow> None
      | m # ms \<Rightarrow> Some (ProcessMessage env m (b\<lparr>clusterPool := ms\<rparr>)))"

definition handleEvent :: "env \<Rightarrow> event \<Rightarrow> broker \<Rightarrow> broker option" where
  "handleEvent env e b =
     (if crashed b then None
      else (case e of
        EvAccept cluster packet \<Rightarrow> Some (handleConnection env (if cluster then ROUTER else CLIENT) packet b)
      | EvRead c res \<Rightarrow> if c < cnext b \<and> reading (cheap b c) then readTurn env c res b else None
      | EvWork i \<Rightarrow>
          (case takeTask i (wpool b) of
             None \<Rightarrow> None
           | Some (m, p) \<Rightarrow> Some (ProcessMessage env m (b\<lparr>wpool := p\<rparr>)))
      | EvCluster \<Rightarrow> processClusterInfo env b
      | EvGo \<Rightarrow>
          (case goroutines b of [] \<Rightarrow> None | g # gs \<Rightarrow> Some (runGo env g (b\<lparr>goroutines := gs\<rparr>)))
      | EvRetry c \<Rightarrow>
          if c < cnext b \<and> retryTimer (cheap b c) \<noteq> None then Some (retryDelivery env (writePacket env) c b) else None
      | EvExpireRel c \<Rightarrow> if c < cnext b then Some (upd c (expireAwaitingRel (now env)) b) else None
      | EvPing tick c \<Rightarrow> if c < cnext b \<and> pinging (cheap b c) then Some (pingTurn env tick c b) else None
      | EvDelete cid \<Rightarrow> if metricsOn b then Some (deleteConnection env cid b) else None
      | EvDiscover \<Rightarrow> Some (ConnectToDiscovery env (writePacket env) b)))"

inductive step :: "broker \<Rightarrow> broker \<Rightarrow> bool" where
  step_event: "handleEvent env e b = Some b' \<Longrightarrow> step b b'"

inductive reachable :: "broker \<Rightarrow> broker \<Rightarrow> bool" for b0 where
  reach_init: "reachable b0 b0"
| reach_step: "reachable b0 b \<Longrightarrow> step b b' \<Longrightarrow> reachable b0 b'"

inductive_cases stepE: "step b b'"
inductive_simps step_iff: "step b b'"

text \<open>Ending a reader changes nothing but the reader and what is counted.\<close>

lemma stopReading_same:
  "cheap (stopReading c b) = (cheap b)(c := cheap b c\<lparr>reading := False\<rparr>)" "wpool (stopReading c b) = wpool b"
  "clusterPool (stopReading c b) = clusterPool b" "cnext (stopReading c b) = cnext b"
  "counted (stopReading c b)
     = counted b @ (if ctyp (cheap b c) = CLIENT \<or> ctyp (cheap b c) = ROUTER then [Dec MetricNumberOfClients] else [])"
  by (simp_all add: stopReading_def Let_def)

end
