(* ===== verification/Step_Inv.thy ===== *)
theory Step_Inv
  imports Handler_Inv Connections
begin

text \<open>
  The loops over the topics of a packet, the dispatcher, the life of a connection and the steps keep
  the invariant; so it holds in every state a new broker can reach.
\<close>

section \<open>Subscribing and unsubscribing\<close>

lemma onSession_same [simp]:
  "cheap (onClientSession c f b) = cheap b" "topicsMgr (onClientSession c f b) = topicsMgr b"
  "live d ty (onClientSession c f b) = live d ty b"
  by (auto simp: onClientSession_def crash_def live_def split: option.split)

lemma onSession_inv:
  assumes "binv X b" "\<And>s. session_ok s \<Longrightarrow> session_ok (f s)"
  shows "binv X (onClientSession c f b)"
proof -
  have mp: "mp_inv (sessionMgr b)" using assms(1) by (simp add: binv_def sess_inv_def)
  have "mp_inv (onSession s f (sessionMgr b))" for s
    using mp assms(2) mem_sessions.inv_session [OF mp] by (intro mem_sessions.store_inv) auto
  with assms(1) show ?thesis
    by (auto simp: onClientSession_def binv_def reg_inv_def subs_inv_def sess_inv_def ready_def own_subs_def
        entered_def owned_def crash_def Let_def split: option.split)
qed

definition goes_on :: "cref set \<Rightarrow> cref \<Rightarrow> ctype \<Rightarrow> broker \<Rightarrow> bool" where
  "goes_on X c ty b = (binv X b \<and> live c ty b)"

lemma clientSubscribeTopic_inv:
  assumes "goes_on X c CLIENT b"
  shows "goes_on X c CLIENT (fst (clientSubscribeTopic env c qoss (b, rcs) (i, t)))"
proof -
  obtain b1 ok where auth: "brokerTopicAuth env aSUB (cheap b c) t b = (b1, ok)"
    by (cases "brokerTopicAuth env aSUB (cheap b c) t b")
  define b2 where "b2 = bridgePublish (element (cheap b1 c) bSubscribe (now env) [] t) b1"
  have 1: "goes_on X c CLIENT b1" using brokerTopicAuth_binv [OF auth, of X c CLIENT] assms by (simp add: goes_on_def)
  then have 2: "goes_on X c CLIENT b2" by (simp add: goes_on_def b2_def)
  define b3 where "b3 = (case map_of (subMap (cheap b2 c)) t of None \<Rightarrow> b2 | Some old \<Rightarrow> dropSub c t old b2)"
  have 3: "goes_on X c CLIENT b3" "map_of (subMap (cheap b3 c)) t = None"
    using 2 dropSub_binv [of X b2 c t] dropSub_live [of c CLIENT b2]
    by (auto simp: goes_on_def b3_def dropSub_def go_map split: option.splits)
  have entered: "goes_on X c CLIENT (fst (case enterSub c topic q sh grp b3 of
        (b4, r, None) \<Rightarrow> (b4, rcs @ [QosFailure])
      | (b4, r, Some rq) \<Rightarrow>
          (upd c (\<lambda>x. x\<lparr>rmsgs := fst (mtRetained topic (topicsMgr b4) (rmsgs x))\<rparr>)
             (onClientSession c (\<lambda>s. fst (AddTopic t q s))
               (upd c (\<lambda>x. x\<lparr>subMap := AList.update t r (subMap x)\<rparr>) b4)),
           rcs @ [rq])))" for topic q sh grp
  proof -
    obtain b4 r res where e: "enterSub c topic q sh grp b3 = (b4, r, res)" by (cases "enterSub c topic q sh grp b3") auto
    have heap: "cheap b4 = cheap b3" "cnext b4 = cnext b3" using enterSub_eqs(2) [OF e] by (auto simp: allocSub_def)
    then have live4: "live c CLIENT b4" using 3(1) by (simp add: goes_on_def live_def)
    have inv3: "binv X b3" "c < cnext b3" "status (cheap b3 c) \<noteq> Disconnected" using 3(1) by (auto simp: goes_on_def live_def)
    show ?thesis
    proof (cases res)
      case None
      with e inv3 live4 enterSub_refused_binv show ?thesis by (auto simp: goes_on_def)
    next
      case (Some rq)
      define b5 where "b5 = upd c (\<lambda>x. x\<lparr>subMap := AList.update t r (subMap x)\<rparr>) b4"
      define b6 where "b6 = onClientSession c (\<lambda>s. fst (AddTopic t q s)) b5"
      have "binv X b5" unfolding b5_def
        using enterSub_entered_binv [OF inv3(1) e [unfolded Some] inv3(2,3)] 3(2) by simp
      moreover have "live c CLIENT b5" unfolding b5_def using live4 by (rule live_upd) simp
      ultimately have 6: "goes_on X c CLIENT b6"
        using onSession_inv [of X b5 "\<lambda>s. fst (AddTopic t q s)" c] AddTopic_ok(1)
        by (simp add: goes_on_def b6_def)
      have "goes_on X c CLIENT (upd c (\<lambda>x. x\<lparr>rmsgs := g x\<rparr>) b6)" for g
        using 6 by (auto simp: goes_on_def same_core_def intro!: binv_upd live_upd)
      then show ?thesis by (simp add: e Some b5_def [symmetric] b6_def [symmetric])
    qed
  qed
  have "goes_on X c CLIENT (crash b3)" using 3(1) by (simp add: goes_on_def)
  then show ?thesis using 1 2 entered
    by (auto simp: clientSubscribeTopic_def auth b2_def [symmetric] b3_def [symmetric] Let_def split: option.split)
qed

lemma fold_fst:
  assumes "P b" "\<And>b rcs x. P b \<Longrightarrow> P (fst (f (b, rcs) x))"
  shows "P (fst (foldl f (b, rcs) xs))"
  using assms(1)
proof (induction xs arbitrary: b rcs)
  case Nil
  then show ?case by simp
next
  case (Cons x xs)
  obtain b1 rcs1 where step: "f (b, rcs) x = (b1, rcs1)" by (cases "f (b, rcs) x")
  then have "P b1" using assms(2) [OF Cons.prems, of rcs x] by simp
  with Cons.IH step show ?case by simp
qed

lemma fold_state:
  assumes "P b" "\<And>b x. P b \<Longrightarrow> P (f b x)"
  shows "P (foldl f b xs)"
  using assms(1) by (induction xs arbitrary: b) (auto simp: assms(2))

lemma goes_on_start: "binv X b \<Longrightarrow> ctyp (cheap b c) = ty \<Longrightarrow> status (cheap b c) \<noteq> Disconnected \<Longrightarrow> goes_on X c ty b"
  using reg_invD(5) [of X b c] by (auto simp: goes_on_def live_def binv_def not_le [symmetric])

lemma processClientSubscribe_binv:
  assumes "binv X b" "ctyp (cheap b c) = CLIENT"
  shows "binv X (processClientSubscribe env c mid topics qoss b)"
proof (cases "status (cheap b c) = Disconnected")
  case True
  with assms show ?thesis by (simp add: processClientSubscribe_def)
next
  case False
  obtain b1 rcs where f: "foldl (clientSubscribeTopic env c qoss) (b, []) (enumerate 0 topics) = (b1, rcs)"
    by (cases "foldl (clientSubscribeTopic env c qoss) (b, []) (enumerate 0 topics)")
  have "goes_on X c CLIENT (fst (foldl (clientSubscribeTopic env c qoss) (b, []) (enumerate 0 topics)))"
    using goes_on_start [OF assms False] by (rule fold_fst) (use clientSubscribeTopic_inv in force)
  then have 1: "binv X b1" by (simp add: f goes_on_def)
  obtain b2 err where w: "writePacket env c (SubackP mid rcs) b1 = (b2, err)" by (cases "writePacket env c (SubackP mid rcs) b1")
  have 2: "binv X b2" using writePacket_binv [OF 1 w] .
  then have "binv X (spawn g b2)" for g by simp
  then have "binv X (foldl (\<lambda>b rm. fst (writePacket env c (PublishP rm) b)) (spawn g b2) rms)" for g rms
    by (rule fold_state) (rule writePacket_binv_fst)
  with 2 False f w show ?thesis by (simp add: processClientSubscribe_def)
qed

lemma routerSubscribeTopic_inv:
  assumes "goes_on X c ty b" "ty \<noteq> CLIENT"
  shows "goes_on X c ty (fst (routerSubscribeTopic c qoss (b, rcs) (i, t)))"
proof -
  have entered: "goes_on X c ty (fst (case enterSub c topic q sh grp b of
        (b1, r, None) \<Rightarrow> (b1, rcs @ [QosFailure])
      | (b1, r, Some rq) \<Rightarrow>
          (upd c (\<lambda>x. x\<lparr>subMap := AList.update t r (subMap x), routeSubMap := addSubMap topic (routeSubMap x)\<rparr>) b1,
           rcs @ [rq])))" for topic q sh grp
  proof -
    obtain b1 r res where e: "enterSub c topic q sh grp b = (b1, r, res)" by (cases "enterSub c topic q sh grp b") auto
    have heap: "cheap b1 = cheap b" "cnext b1 = cnext b" using enterSub_eqs(2) [OF e] by (auto simp: allocSub_def)
    then have live1: "live c ty b1" using assms(1) by (simp add: goes_on_def live_def)
    have inv: "binv X b" "c < cnext b" "status (cheap b c) \<noteq> Disconnected" "ctyp (cheap b c) \<noteq> CLIENT"
      using assms by (auto simp: goes_on_def live_def)
    show ?thesis
    proof (cases res)
      case None
      with e inv live1 enterSub_refused_binv show ?thesis by (auto simp: goes_on_def)
    next
      case (Some rq)
      let ?f = "\<lambda>x. x\<lparr>subMap := AList.update t r (subMap x), routeSubMap := addSubMap topic (routeSubMap x)\<rparr>"
      have "binv X (upd c ?f b1)" using enterSub_entered_binv [OF inv(1) e [unfolded Some] inv(2,3)] inv(4) by simp
      moreover have "live c ty (upd c ?f b1)" using live1 by (rule live_upd) simp
      ultimately show ?thesis by (simp add: e Some goes_on_def)
    qed
  qed
  have "goes_on X c ty (crash b)" using assms(1) by (simp add: goes_on_def)
  then show ?thesis using assms(1) entered by (auto simp: routerSubscribeTopic_def Let_def split: option.split)
qed

lemma processRouterSubscribe_binv:
  assumes "binv X b" "ctyp (cheap b c) \<noteq> CLIENT"
  shows "binv X (processRouterSubscribe env c mid topics qoss b)"
proof (cases "status (cheap b c) = Disconnected")
  case True
  with assms show ?thesis by (simp add: processRouterSubscribe_def)
next
  case False
  obtain b1 rcs where f: "foldl (routerSubscribeTopic c qoss) (b, []) (enumerate 0 topics) = (b1, rcs)"
    by (cases "foldl (routerSubscribeTopic c qoss) (b, []) (enumerate 0 topics)")
  have "goes_on X c (ctyp (cheap b c)) (fst (foldl (routerSubscribeTopic c qoss) (b, []) (enumerate 0 topics)))"
    using goes_on_start [OF assms(1) refl False] by (rule fold_fst) (use routerSubscribeTopic_inv assms(2) in force)
  then have "binv X b1" by (simp add: f goes_on_def)
  with False f show ?thesis by (simp add: processRouterSubscribe_def writePacket_binv_fst)
qed

lemma ProcessSubscribe_binv: "binv X b \<Longrightarrow> binv X (ProcessSubscribe env c mid topics qoss b)"
  using processClientSubscribe_binv [of X b c] processRouterSubscribe_binv [of X b c]
  by (cases "ctyp (cheap b c)") (simp_all add: ProcessSubscribe_def)

lemma routerUnsubscribeTopic_binv: "binv X b \<Longrightarrow> binv X (routerUnsubscribeTopic c b t)"
proof -
  assume b: "binv X b"
  obtain m n where d: "delSubMap t (routeSubMap (cheap b c)) = (m, n)" by (cases "delSubMap t (routeSubMap (cheap b c))")
  let ?b1 = "upd c (\<lambda>x. x\<lparr>routeSubMap := m\<rparr>) b"
  have "binv X ?b1" using b by (rule binv_upd) (simp add: same_core_def)
  then have "map_of (subMap (cheap b c)) t = Some r \<Longrightarrow> binv X (dropSub c t r ?b1)" for r
    by (rule dropSub_binv) simp
  with b \<open>binv X ?b1\<close> show ?thesis by (simp add: routerUnsubscribeTopic_def d Let_def split: option.split)
qed

lemma clientUnsubscribeTopic_binv: "binv X b \<Longrightarrow> binv X (clientUnsubscribeTopic env c b t)"
proof -
  assume b: "binv X b"
  define b1 where "b1 = bridgePublish (element (cheap b c) bUnsubscribe (now env) [] t) b"
  have 1: "binv X b1" using b by (simp add: b1_def)
  have s: "binv X (onClientSession c (\<lambda>s. fst (RemoveTopic t s)) b1)" using 1 RemoveTopic_ok(1) by (rule onSession_inv)
  have "map_of (subMap (cheap b1 c)) t = Some r \<Longrightarrow> binv X (dropSub c t r (onClientSession c (\<lambda>s. fst (RemoveTopic t s)) b1))" for r
    using s by (rule dropSub_binv) simp
  with 1 show ?thesis by (simp add: clientUnsubscribeTopic_def b1_def [symmetric] Let_def split: option.split)
qed

lemma ProcessUnSubscribe_binv: "binv X b \<Longrightarrow> binv X (ProcessUnSubscribe env c mid topics b)"
proof -
  assume b: "binv X b"
  have r: "binv X (foldl (routerUnsubscribeTopic c) b topics)"
    using b by (rule fold_state) (rule routerUnsubscribeTopic_binv)
  have k: "binv X (foldl (clientUnsubscribeTopic env c) b topics)"
    using b by (rule fold_state) (rule clientUnsubscribeTopic_binv)
  obtain b1 err where w: "writePacket env c (UnsubackP mid) (foldl (clientUnsubscribeTopic env c) b topics) = (b1, err)"
    by (cases "writePacket env c (UnsubackP mid) (foldl (clientUnsubscribeTopic env c) b topics)")
  have 1: "binv X b1" using writePacket_binv [OF k w] .
  then have "binv X (BroadcastSubOrUnsubMessage (writePacket env) p b1)" for p
    using binv_expands [OF _ expands_only_trace [OF Broadcast_quiet]] binv_ready by blast
  with b r 1 w show ?thesis
    by (simp add: ProcessUnSubscribe_def processRouterUnSubscribe_def processClientUnSubscribe_def writePacket_binv_fst
        split: ctype.split)
qed

section \<open>The dispatcher\<close>

lemma same_core_acks [simp]:
  "same_core x (onPuback i x)" "same_core x (onPubcomp i x)" "same_core x (onPubrec t i x)"
  "same_core x (fst (pubRel i x))" "same_core x (expireAwaitingRel t x)" "same_core x (ensureRetryTimer n x)"
  "same_core x (resetRetryTimer x)" "same_core x (x\<lparr>reading := v\<rparr>)" "same_core x (x\<lparr>pinging := v\<rparr>)"
  "same_core x (x\<lparr>inflight := fl\<rparr>)"
  by (rule same_client_core, simp)+ (auto simp: pubRel_def expireAwaitingRel_def same_core_def ensureRetryTimer_def resetRetryTimer_def)

lemma processPacket_binv:
  assumes "binv X b" "c \<notin> X"
  shows "binv X (processPacket env c p b)"
proof (cases p)
  case (PubrecP mid)
  have "binv X (upd c (onPubrec (now env) mid) b)" using assms(1) by (rule binv_upd) simp
  then show ?thesis by (simp add: processPacket_def PubrecP writePacket_binv_fst)
next
  case (PubrelP mid)
  have "binv X (upd c (\<lambda>x. fst (pubRel mid x)) b)" using assms(1) by (rule binv_upd) simp
  then show ?thesis by (simp add: processPacket_def PubrelP writePacket_binv_fst)
qed (use assms in \<open>auto simp: processPacket_def ProcessPublish_binv ProcessSubscribe_binv ProcessUnSubscribe_binv
    ProcessPing_def writePacket_binv_fst Close_binv intro: binv_upd\<close>)

lemma ProcessMessage_binv: "binv X b \<Longrightarrow> mclient m \<notin> X \<Longrightarrow> binv X (ProcessMessage env m b)"
  by (auto simp: ProcessMessage_def Let_def processPacket_binv split: option.split)

section \<open>Timers and goroutines\<close>

lemma retryElem_expands: "ready b \<Longrightarrow> expands b (retryElem env (writePacket env) c b ke)"
proof -
  assume b: "ready b"
  have touch: "expands x (upd c (\<lambda>x. x\<lparr>inflight := g x\<rparr>) x)" "expands x (upd c (ensureRetryTimer n) x)" for g n x
    by (rule expands_upd, simp)+
  have "expands b (upd c (\<lambda>x. x\<lparr>inflight := g x\<rparr>) (fst (writePacket env c p b)))" for g p
    using writePacket_expands [OF b] touch(1) by (rule expands_trans)
  then show ?thesis using touch(2) by (simp add: retryElem_def Let_def split: prod.split InflightStatus.split)
qed

lemma retryDelivery_binv: "binv X b \<Longrightarrow> binv X (retryDelivery env (writePacket env) c b)"
proof -
  assume b: "binv X b"
  define b1 where "b1 = upd c resetRetryTimer b"
  have 1: "binv X b1" unfolding b1_def using b by (rule binv_upd) simp
  have "expands b1 (foldl (retryElem env (writePacket env) c) b1 xs)" for xs
    using binv_ready [OF 1] by (rule expands_foldl) (rule retryElem_expands)
  then have "binv X (foldl (retryElem env (writePacket env) c) b1 xs)" for xs using 1 binv_expands by blast
  then have "binv X (upd c (ensureRetryTimer n) (foldl (retryElem env (writePacket env) c) b1 xs))" for xs n
    by (rule binv_upd) simp
  with 1 show ?thesis by (simp add: retryDelivery_def b1_def [symmetric] Let_def)
qed

lemma runGo_binv: "binv X b \<Longrightarrow> binv X (runGo env g b)"
  using binv_expands [OF _ expands_only_trace [OF Broadcast_quiet]] binv_expands [OF _ connectRouter_expands] binv_ready
  by (cases g) (auto simp: runGo_def)

lemma pingTurn_binv: "binv X b \<Longrightarrow> c \<notin> X \<Longrightarrow> binv X (pingTurn env tick c b)"
  using writePacket_binv [of X b env c PingreqP]
  by (auto simp: pingTurn_def Close_binv intro: binv_upd split: prod.split)

end
