(* ===== verification/Broker_Steps.thy ===== *)
theory Broker_Steps
  imports Step_Inv
begin

text \<open>
  Accepting a connection keeps the invariant, hence so does every step, and every state a new broker
  can reach satisfies it.
\<close>

section \<open>Accepting\<close>

definition fresh_client :: "client \<Rightarrow> bool" where
  "fresh_client x = (conn x \<noteq> None \<and> status x = Connected \<and> subMap x = [])"

text \<open>The client being accepted: connected, in no registry, and it alone is exempt.\<close>

definition pending_client :: "cref \<Rightarrow> ctype \<Rightarrow> string \<Rightarrow> broker \<Rightarrow> bool" where
  "pending_client c ty cid b =
     (binv {c} b \<and> live c ty b \<and> clientID (cheap b c) = cid \<and> c \<notin> snd ` set (clients b))"

lemma alloc_pending:
  assumes "binv {} b" "allocClient x b = (b', c)" "fresh_client x"
  shows "pending_client c (ctyp x) (clientID x) b'"
proof -
  have c: "c = cnext b" and b': "b' = b\<lparr>cheap := (cheap b)(c := x), cnext := cnext b + 1\<rparr>"
    using assms(2) by (auto simp: allocClient_def)
  have inv: "reg_inv {} b" "subs_inv b" "sess_inv {} b" "pool_inv (wpool b)" "\<not> stuck b" using assms(1) by (auto simp: binv_def)
  note reg = reg_invD [OF inv(1)]
  have notin: "c \<notin> snd ` set (clients b)" using reg(3) by (force simp: c)
  have "reg_inv {c} b'"
  proof (rule reg_invI)
    show "ready b'" using reg(1) assms(3) by (auto simp: ready_def b' fresh_client_def)
    show "distinct_keys (clients b')" using reg(2) by (simp add: b')
    show "d < cnext b' \<and> ctyp (cheap b' d) = CLIENT \<and> clientID (cheap b' d) = i \<and> status (cheap b' d) \<noteq> Disconnected"
      if "(i, d) \<in> set (clients b')" for i d using reg(3) [of i d] that by (simp add: b' c)
    show "map_of (clients b') (clientID (cheap b' d)) = Some d"
      if "d \<notin> {c}" "ctyp (cheap b' d) = CLIENT" "status (cheap b' d) \<noteq> Disconnected" for d
      using reg(4) [of d] that by (simp add: b')
    show "status (cheap b' d) = Disconnected \<and> subMap (cheap b' d) = []" if "cnext b' \<le> d" for d
      using reg(5) [of d] that by (simp add: b' c)
  qed
  moreover have "subs_inv b'"
  proof (rule subs_invI)
    show "mt_inv (topicsMgr b')" using inv(2) by (simp add: subs_inv_def b')
    show "\<exists>r. v = subPtr r" if "(fs, v) \<in> mt_subs (topicsMgr b')" for fs v
      using subs_inv_ptr [OF inv(2)] that by (simp add: b')
    show "entered b' fs r" if "(fs, subPtr r) \<in> mt_subs (topicsMgr b')" for fs r
      using subs_inv_entry [OF inv(2), of fs r] that by (auto simp: b' entered_def owned_def c Let_def)
    show "own_subs b' d" for d
      using inv(2) assms(3) by (simp add: subs_inv_def own_subs_def b' fresh_client_def)
  qed
  moreover have "sess_inv {c} b'" using inv(3) by (simp add: sess_inv_def b')
  ultimately show ?thesis
    using inv assms(3) notin by (simp add: pending_client_def binv_def b' live_def c fresh_client_def)
qed

lemma pending_fields [simp]:
  "pending_client c ty cid (crash b) = pending_client c ty cid b"
  by (simp add: pending_client_def) (simp add: crash_def)

lemma session_pending:
  assumes "pending_client c ty cid b" "mp_inv mp"
  shows "pending_client c ty cid (upd c (\<lambda>x. x\<lparr>csession := Some s\<rparr>) (b\<lparr>sessionMgr := mp\<rparr>))"
proof -
  let ?b = "upd c (\<lambda>x. x\<lparr>csession := Some s\<rparr>) (b\<lparr>sessionMgr := mp\<rparr>)"
  have inv: "reg_inv {c} b" "subs_inv b" "sess_inv {c} b" "pool_inv (wpool b)" "\<not> stuck b"
    using assms(1) by (auto simp: pending_client_def binv_def)
  have core: "ctyp (cheap ?b d) = ctyp (cheap b d)" "conn (cheap ?b d) = conn (cheap b d)"
    "clientID (cheap ?b d) = clientID (cheap b d)" "status (cheap ?b d) = status (cheap b d)"
    "subMap (cheap ?b d) = subMap (cheap b d)" "d \<noteq> c \<Longrightarrow> csession (cheap ?b d) = csession (cheap b d)" for d
    by auto
  have "reg_inv {c} ?b" using inv(1) unfolding reg_inv_def ready_def core by simp
  moreover have "subs_inv ?b" using inv(2) unfolding subs_inv_def entered_def owned_def own_subs_def Let_def core by simp
  moreover have "sess_inv {c} ?b" using inv(3) assms(2) by (simp add: sess_inv_def)
  ultimately show ?thesis using assms(1) inv unfolding pending_client_def binv_def live_def core by simp
qed

lemma getSession_pending:
  assumes "pending_client c ty cid b" "getSession env c req b = (b', err)"
  shows "err = None \<and> pending_client c ty cid b' \<and> csession (cheap b' c) \<noteq> None"
proof -
  define r where "r = cleanRequest req"
  define i where "i = ClientIdentifier r"
  have mp: "mp_inv (sessionMgr b)" using assms(1) by (simp add: pending_client_def binv_def sess_inv_def)
  have upd: "mp_inv (onSession s (\<lambda>s. fst (Update r s)) (sessionMgr b))" for s
    using mp Update_ok(1) mem_sessions.inv_session [OF mp] by (intro mem_sessions.store_inv) auto
  obtain mp1 s where new: "managerNew (sessionRnd env) i (sessionMgr b) = (mp1, s)"
    by (cases "managerNew (sessionRnd env) i (sessionMgr b)")
  then obtain sid where n: "mpNew sid (sessionMgr b) = (mp1, s)" by (auto simp: managerNew_def)
  have init: "mp_inv (onSession s (\<lambda>s. fst (Init r s)) mp1)"
    using mem_sessions.init_new_inv [OF mp, of sid r] n by simp
  have "sessHeap mp1 s = zeroSession sid" using mem_sessions.new_zero [of sid "sessionMgr b"] n by simp
  then have ok: "snd (Init r (sessHeap mp1 s)) = None" by (simp add: Init_fresh)
  show ?thesis
    using assms session_pending [OF assms(1) upd] session_pending [OF assms(1) init] new ok
    by (auto simp: getSession_def r_def [symmetric] i_def [symmetric] Let_def split: option.splits sum.splits)
qed

lemma Close_pending:
  assumes "pending_client c CLIENT cid b" "map_of (clients b) cid = Some old"
  shows "pending_client c CLIENT cid (Close env old b)" "map_of (clients (Close env old b)) cid = None"
    "csession (cheap (Close env old b) c) = csession (cheap b c)"
proof -
  have b: "binv {c} b" using assms(1) by (simp add: pending_client_def)
  note reg = reg_invD [of "{c}" b]
  have inv: "reg_inv {c} b" using b by (simp add: binv_def)
  have mem: "(cid, old) \<in> set (clients b)" using assms(2) by (rule map_of_SomeD)
  then have old: "old \<noteq> c" "old < cnext b" "ctyp (cheap b old) = CLIENT" "clientID (cheap b old) = cid"
      "status (cheap b old) \<noteq> Disconnected"
    using assms(1) reg(3) [OF inv mem] by (force simp: pending_client_def)+
  have c: "c < cnext b" "c \<noteq> old" using assms(1) old by (auto simp: pending_client_def live_def)
  have core: "same_core (cheap b c) (cheap (Close env old b) c)" using Close_client(2) [OF reg(1) [OF inv] old(2) c] .
  have cl: "clients (Close env old b) = AList.delete cid (clients b)" using Close_clients [OF reg(1) [OF inv] old(5)] old by simp
  have "cnext b \<le> cnext (Close env old b)" using Close_client(3) [OF reg(1) [OF inv] old(2)] .
  moreover have "binv {c} (Close env old b)" using b old(1) by (intro Close_binv) auto
  moreover have "c \<notin> snd ` set (AList.delete cid (clients b))"
    using assms(1) set_delete_subset [of cid "clients b"] by (auto simp: pending_client_def)
  ultimately show "pending_client c CLIENT cid (Close env old b)" using assms(1) core cl
    by (auto simp: pending_client_def live_def same_core_def)
  show "map_of (clients (Close env old b)) cid = None" by (simp add: cl go_map)
  show "csession (cheap (Close env old b) c) = csession (cheap b c)" using core by (simp add: same_core_def)
qed

text \<open>Entering the registry ends the exemption.\<close>

lemma store_binv:
  assumes "pending_client c CLIENT cid b" "map_of (clients b) cid = None" "csession (cheap b c) \<noteq> None"
  shows "binv {} (b\<lparr>clients := AList.update cid c (clients b)\<rparr>)"
proof -
  let ?b = "b\<lparr>clients := AList.update cid c (clients b)\<rparr>"
  have inv: "reg_inv {c} b" "subs_inv b" "sess_inv {c} b" "pool_inv (wpool b)" "\<not> stuck b"
    and c: "c < cnext b" "status (cheap b c) \<noteq> Disconnected" "ctyp (cheap b c) = CLIENT" "clientID (cheap b c) = cid"
    using assms(1) by (auto simp: pending_client_def binv_def live_def)
  note reg = reg_invD [OF inv(1)]
  have "reg_inv {} ?b"
  proof (rule reg_invI)
    show "ready ?b" using reg(1) by (simp add: ready_def)
    show "distinct_keys (clients ?b)" using reg(2) by (simp add: distinct_keys_update)
    show "d < cnext ?b \<and> ctyp (cheap ?b d) = CLIENT \<and> clientID (cheap ?b d) = i \<and> status (cheap ?b d) \<noteq> Disconnected"
      if "(i, d) \<in> set (clients ?b)" for i d
      using set_update_other [of i d cid c "clients b"] that reg(3) [of i d] c by auto
    show "map_of (clients ?b) (clientID (cheap ?b d)) = Some d"
      if "d \<notin> {}" "ctyp (cheap ?b d) = CLIENT" "status (cheap ?b d) \<noteq> Disconnected" for d
    proof (cases "d = c")
      case True
      then show ?thesis by (simp add: go_map c)
    next
      case False
      then have "map_of (clients b) (clientID (cheap b d)) = Some d" using reg(4) [of d] that by simp
      moreover from this have "clientID (cheap b d) \<noteq> cid" using assms(2) by auto
      ultimately show ?thesis by (simp add: go_map)
    qed
    show "status (cheap ?b d) = Disconnected \<and> subMap (cheap ?b d) = []" if "cnext ?b \<le> d" for d
      using reg(5) [of d] that by simp
  qed
  moreover have "subs_inv ?b" using inv(2) by (simp add: subs_inv_def entered_def owned_def own_subs_def Let_def)
  moreover have "sess_inv {} ?b" using inv(3) assms(3) by (auto simp: sess_inv_def)
  ultimately show ?thesis using inv by (simp add: binv_def)
qed

lemma router_binv: "pending_client c ty cid b \<Longrightarrow> ty \<noteq> CLIENT \<Longrightarrow> binv {} b"
proof -
  assume p: "pending_client c ty cid b" and ty: "ty \<noteq> CLIENT"
  then have inv: "reg_inv {c} b" "sess_inv {c} b" "binv {c} b" and c: "ctyp (cheap b c) \<noteq> CLIENT"
    by (auto simp: pending_client_def binv_def live_def)
  have out: "d \<notin> {c}" if "ctyp (cheap b d) = CLIENT" for d using that c by auto
  have "reg_inv {} b"
  proof (rule reg_invI)
    show "map_of (clients b) (clientID (cheap b d)) = Some d"
      if "d \<notin> {}" "ctyp (cheap b d) = CLIENT" "status (cheap b d) \<noteq> Disconnected" for d
      using reg_invD(4) [OF inv(1) out] that by blast
  qed (use reg_invD [OF inv(1)] in blast)+
  moreover have "sess_inv {} b" using inv(2) out by (auto simp: sess_inv_def)
  ultimately show "binv {} b" using inv(3) by (simp add: binv_def)
qed

lemma register_binv:
  assumes "pending_client c ty cid b" "csession (cheap b c) \<noteq> None"
  shows "binv {} (register env msg c b)"
proof -
  have ty: "ctyp (cheap b c) = ty" and cid: "clientID (cheap b c) = cid"
    using assms(1) by (auto simp: pending_client_def live_def)
  show ?thesis
  proof (cases ty)
    case CLIENT
    define b1 where "b1 = (case map_of (clients b) cid of None \<Rightarrow> b | Some old \<Rightarrow> Close env old b)"
    have 1: "pending_client c CLIENT cid b1" "map_of (clients b1) cid = None" "csession (cheap b1 c) \<noteq> None"
      using assms Close_pending [of c cid b] by (auto simp: b1_def CLIENT split: option.splits)
    define b2 where "b2 = b1\<lparr>clients := AList.update cid c (clients b1)\<rparr>"
    have 2: "binv {} b2" unfolding b2_def using 1 by (rule store_binv)
    have "binv {} (OnlineOfflineNotification env (writePacket env) cid True b2)"
      using binv_expands [OF 2 expands_only_trace [OF OnlineOffline_quiet]] binv_ready [OF 2] by simp
    then show ?thesis
      by (simp add: register_def ty CLIENT cid b1_def [symmetric] b2_def [symmetric] Let_def)
  next
    case ROUTER
    have "binv {} b" using assms(1) ROUTER by (intro router_binv) auto
    then show ?thesis by (simp add: register_def ty ROUTER Let_def Close_binv split: option.split)
  next
    case REMOTE
    then show ?thesis using router_binv [OF assms(1)] by (simp add: register_def ty Let_def)
  next
    case CLUSTER
    then show ?thesis using router_binv [OF assms(1)] by (simp add: register_def ty Let_def)
  qed
qed

lemma acceptClient_binv:
  assumes "binv {} b"
  shows "binv {} (acceptClient env ty k msg b)"
proof -
  define x where "x = initClient ty k (ClientIdentifier msg) (Username msg) (Password msg) (Keepalive msg) (willOf msg)
    (connLocalIP env) (connRemoteIP env) [] []"
  obtain b1 c where a: "allocClient x b = (b1, c)" by (cases "allocClient x b")
  have "fresh_client x" "ctyp x = ty" by (auto simp: x_def fresh_client_def initClient_def)
  with alloc_pending [OF assms a] have 1: "pending_client c ty (clientID x) b1" by simp
  obtain b2 err where s: "getSession env c msg b1 = (b2, err)" by (cases "getSession env c msg b1")
  have 2: "err = None" "pending_client c ty (clientID x) b2" "csession (cheap b2 c) \<noteq> None"
    using getSession_pending [OF 1 s] by auto
  have 3: "binv {} (register env msg c b2)" using 2(2,3) by (rule register_binv)
  then have "binv {} (upd c (\<lambda>x. x\<lparr>reading := True\<rparr>) (counting z (register env msg c b2)))" for z
    by (intro binv_upd) simp_all
  with 3 2(1) a s show ?thesis by (simp add: acceptClient_def x_def [symmetric] Let_def)
qed

lemma rawWrite_binv: "binv X (fst (rawWrite env k p b)) = binv X b"
  by (simp add: rawWrite_def Let_def)

lemma handleConnection_binv:
  assumes "binv {} b"
  shows "binv {} (handleConnection env ty packet b)"
proof -
  have auth: "binv {} x \<Longrightarrow> binv {} (fst (brokerConnectAuth env i u p x))" for x i u p
    by (auto simp: brokerConnectAuth_def split: option.split prod.split)
  have acc: "binv {} x \<Longrightarrow> binv {} (case rawWrite env k p x of (b2, err) \<Rightarrow> if err then b2 else acceptClient env ty' k msg b2)"
    for x k p msg ty'
    using rawWrite_binv [of "{}" env k p x] acceptClient_binv by (cases "rawWrite env k p x") simp
  have b0: "binv {} (b\<lparr>connNext := k\<rparr>)" for k using assms by simp
  have connect: "binv {} (handleConnection env ty (Some (ConnectP msg)) b)" for msg
  proof -
    define b1 where "b1 = b\<lparr>connNext := connNext b + 1\<rparr>"
    have 1: "binv {} b1" using b0 by (simp add: b1_def)
    obtain b2 ok where a: "brokerConnectAuth env (ClientIdentifier msg) (Username msg) (Password msg) b1 = (b2, ok)"
      by (cases "brokerConnectAuth env (ClientIdentifier msg) (Username msg) (Password msg) b1")
    have 2: "binv {} b2" using auth [OF 1, of "ClientIdentifier msg" "Username msg" "Password msg"] a by simp
    show ?thesis
      using acc [OF 1] acc [OF 2] 1 2
      by (cases "ty = CLIENT") (simp_all add: handleConnection_def b1_def [symmetric] rawWrite_binv a Let_def del: One_nat_def)
  qed
  show ?thesis
  proof (cases packet)
    case None
    then show ?thesis using b0 by (simp add: handleConnection_def)
  next
    case (Some p)
    then show ?thesis using b0 connect by (cases p) (simp_all add: handleConnection_def)
  qed
qed

section \<open>Steps\<close>

lemma SubmitWork_binv:
  assumes "binv X b" "SubmitWork env cid m b = Some b'"
  shows "binv X b'"
proof -
  have "pool_inv (wpool b)" using assms(1) by (simp add: binv_def)
  then have "Submit (hashString env) cid (Some m) (wpool b) = Some p \<Longrightarrow> pool_inv p" for p
    by (rule fixpool.submit_inv)
  moreover have "binv X (counting z b)" for z using assms(1) by simp
  ultimately show ?thesis using assms by (auto simp: SubmitWork_def Let_def intro: binv_wpool split: if_splits)
qed

lemma readTurn_binv:
  assumes "binv X b" "readTurn env c res b = Some b'"
  shows "binv X b'"
proof -
  have stop: "binv X x \<Longrightarrow> binv X (stopReading c x)" for x
    by (simp add: stopReading_def binv_upd Let_def)
  have "binv X (upd c (\<lambda>x. x\<lparr>willMsg := None, cancelled := True\<rparr>) b)"
    using assms(1) by (rule binv_upd) (simp add: same_core_def)
  with assms stop SubmitWork_binv show ?thesis
    by (auto simp: readTurn_def checkContext_def Let_def split: read_result.splits if_splits)
qed

lemma takeTask_binv: "binv X b \<Longrightarrow> takeTask i (wpool b) = Some (m, p) \<Longrightarrow> binv X (b\<lparr>wpool := p\<rparr>)"
proof -
  assume b: "binv X b" and t: "takeTask i (wpool b) = Some (m, p)"
  have "pool_inv (wpool b)" using b by (simp add: binv_def)
  then have "pool_inv p" using t by (rule fixpool.take_inv)
  with b show "binv X (b\<lparr>wpool := p\<rparr>)" by (rule binv_wpool)
qed

lemma handleEvent_binv:
  assumes "binv {} b" "handleEvent env e b = Some b'"
  shows "binv {} b'"
proof (cases e)
  case (EvWork i)
  with assms show ?thesis
    by (auto simp: handleEvent_def intro!: ProcessMessage_binv takeTask_binv split: option.splits if_splits)
next
  case (EvDelete cid)
  with assms show ?thesis
    by (auto simp: handleEvent_def deleteConnection_def Close_binv split: option.splits if_splits)
next
  case EvDiscover
  with assms show ?thesis
    using binv_expands [OF assms(1) ConnectToDiscovery_expands [OF quiet_writePacket binv_ready [OF assms(1)]]]
    by (auto simp: handleEvent_def split: if_splits)
next
  case (EvExpireRel c)
  with assms show ?thesis by (auto simp: handleEvent_def intro: binv_upd split: if_splits)
qed (use assms in \<open>auto simp: handleEvent_def processClusterInfo_def handleConnection_binv runGo_binv pingTurn_binv retryDelivery_binv
    intro: readTurn_binv ProcessMessage_binv split: option.splits if_splits list.splits\<close>)

lemma step_binv: "step b b' \<Longrightarrow> binv {} b \<Longrightarrow> binv {} b'"
  using handleEvent_binv by (auto elim: stepE)

lemma NewBroker_binv:
  assumes "workers < 2 ^ 64"
  shows "binv {} (NewBroker bid cport router workers auth bridge metrics)"
proof -
  let ?b = "NewBroker bid cport router workers auth bridge metrics"
  have none: "status noClient = Disconnected" "subMap noClient = []" by (auto simp: noClient_def initClient_def)
  have "reg_inv {} ?b" by (rule reg_invI) (auto simp: NewBroker_def ready_def none)
  moreover have "subs_inv ?b"
    by (rule subs_invI) (auto simp: NewBroker_def mt_inv_new mt_subs_new own_subs_def none)
  ultimately show ?thesis
    using newPool_inv [OF assms] by (simp add: binv_def NewBroker_def sess_inv_def none)
qed

theorem reachable_binv:
  assumes "reachable (NewBroker bid cport router workers auth bridge metrics) b" "workers < 2 ^ 64"
  shows "binv {} b"
  using assms(1)
proof (induction rule: reachable.induct)
  case reach_init
  show ?case using assms(2) by (rule NewBroker_binv)
next
  case (reach_step b b')
  then show ?case using step_binv by blast
qed

end
