(* ===== verification/Delivery_Laws.thy ===== *)
theory Delivery_Laws
  imports Broker_Steps
begin

text \<open>
  What is written to whom: the packets a state's trace has sent, and the exact list of them that
  publishing and retrying add.
\<close>

section \<open>The packets sent\<close>

fun sent :: "effect list \<Rightarrow> (connId \<times> controlPacket) list" where
  "sent [] = []"
| "sent (Wrote k p ok # es) = (k, p) # sent es"
| "sent (_ # es) = sent es"

lemma sent_append [simp]: "sent (xs @ ys) = sent xs @ sent ys"
  by (induction xs rule: sent.induct) auto

definition sendsTo :: "broker \<Rightarrow> cref \<Rightarrow> controlPacket \<Rightarrow> (connId \<times> controlPacket) list" where
  "sendsTo b c p = (if status (cheap b c) = Disconnected then [] else [(the (conn (cheap b c)), p)])"

lemma WriterPacket_sent:
  "ready b \<Longrightarrow> sent (trace (fst (WriterPacket env close c p b))) = sent (trace b) @ sendsTo b c p"
  by (simp add: WriterPacket_ready sendsTo_def rawWrite_def emit_def Let_def)

lemma writePacket_sent:
  "ready b \<Longrightarrow> sent (trace (fst (writePacket env c p b))) = sent (trace b) @ sendsTo b c p"
  by (simp add: writePacket_def WriterPacket_sent)

lemma sendsTo_core: "same_core (cheap b c) (cheap b' c) \<Longrightarrow> sendsTo b' c p = sendsTo b c p"
  by (simp add: sendsTo_def same_core_def)

lemma sendsTo_delivers: "delivers b b' \<Longrightarrow> sendsTo b' c p = sendsTo b c p"
  using delivers_same(18) same_client_core sendsTo_core by blast

lemma bridge_sent [simp]: "sent (trace (bridgePublish e b)) = sent (trace b)"
  by (simp add: bridgePublish_def emit_def)

lemma publish_sent:
  assumes "ready b" "ValidQos (Qos p)"
  shows "sent (trace (publish env (writePacket env) r p b))
    = sent (trace b) @ sendsTo b (sclient (sheap b r)) (PublishP p)"
proof -
  let ?c = "sclient (sheap b r)"
  let ?b1 = "upd ?c (trackInflight (now env) p) b"
  have d: "delivers b ?b1" by (rule delivers_upd) simp
  have "sent (trace (fst (writePacket env ?c (PublishP p) ?b1))) = sent (trace b) @ sendsTo b ?c (PublishP p)"
    using writePacket_sent [OF ready_delivers [OF assms(1) d]] sendsTo_delivers [OF d] by simp
  then show ?thesis using assms by (auto simp: publish_def Let_def writePacket_sent ValidQos_def)
qed

section \<open>Who is sent a message\<close>

text \<open>Of the subscribers found, those the loop serves at once and those it collects, in order.\<close>

definition echoes :: "broker \<Rightarrow> ctype \<Rightarrow> subref \<Rightarrow> bool" where
  "echoes b ty r = (ctyp (cheap b (sclient (sheap b r))) = ROUTER \<and> ty \<noteq> CLIENT)"

definition directSubs :: "broker \<Rightarrow> ctype \<Rightarrow> gval list \<Rightarrow> subref list" where
  "directSubs b ty subs = filter (\<lambda>r. \<not> echoes b ty r \<and> \<not> share (sheap b r)) (List.map_filter asSub subs)"

definition sharedSubs :: "broker \<Rightarrow> ctype \<Rightarrow> gval list \<Rightarrow> subref list" where
  "sharedSubs b ty subs = filter (\<lambda>r. \<not> echoes b ty r \<and> share (sheap b r)) (List.map_filter asSub subs)"

definition sendsAll :: "broker \<Rightarrow> publishPacket \<Rightarrow> subref list \<Rightarrow> (connId \<times> controlPacket) list" where
  "sendsAll b p rs = concat (map (\<lambda>r. sendsTo b (sclient (sheap b r)) (PublishP p)) rs)"

lemma subs_delivers:
  assumes "delivers b b'"
  shows "directSubs b' ty subs = directSubs b ty subs" "sharedSubs b' ty subs = sharedSubs b ty subs"
    "sendsAll b' p rs = sendsAll b p rs"
proof -
  have "ctyp (cheap b' c) = ctyp (cheap b c)" for c using delivers_same(18) [OF assms, of c] by (rule same_clientD)
  moreover have "sheap b' = sheap b" using assms by (rule delivers_same)
  ultimately show "directSubs b' ty subs = directSubs b ty subs" "sharedSubs b' ty subs = sharedSubs b ty subs"
    "sendsAll b' p rs = sendsAll b p rs"
    using sendsTo_delivers [OF assms] by (simp_all add: directSubs_def sharedSubs_def echoes_def sendsAll_def)
qed

lemma deliverAll_sent:
  assumes "ready b" "ValidQos (Qos p)"
  shows "sent (trace (fst (foldl (deliverTo env (writePacket env) ty p) (b, q) subs)))
      = sent (trace b) @ sendsAll b p (directSubs b ty subs)
    \<and> snd (foldl (deliverTo env (writePacket env) ty p) (b, q) subs) = q @ sharedSubs b ty subs"
  using assms(1)
proof (induction subs arbitrary: b q)
  case Nil
  then show ?case by (simp add: directSubs_def sharedSubs_def sendsAll_def List.map_filter_def)
next
  case (Cons s subs)
  obtain b1 q1 where step: "deliverTo env (writePacket env) ty p (b, q) s = (b1, q1)"
    by (cases "deliverTo env (writePacket env) ty p (b, q) s")
  have d: "delivers b b1" using deliverTo_delivers [OF quiet_writePacket Cons.prems, of env env ty p q s] step by simp
  have here: "sent (trace b1) = sent (trace b) @ sendsAll b p (directSubs b ty [s]) \<and> q1 = q @ sharedSubs b ty [s]"
    using step publish_sent [OF Cons.prems assms(2), of env]
    by (auto simp: deliverTo_def Let_def directSubs_def sharedSubs_def sendsAll_def echoes_def List.map_filter_def
        split: option.splits if_splits)
  have split: "directSubs b ty (s # subs) = directSubs b ty [s] @ directSubs b ty subs"
    "sharedSubs b ty (s # subs) = sharedSubs b ty [s] @ sharedSubs b ty subs"
    by (auto simp: directSubs_def sharedSubs_def List.map_filter_def)
  have "sendsAll b p (xs @ ys) = sendsAll b p xs @ sendsAll b p ys" for xs ys by (simp add: sendsAll_def)
  then show ?case
    using Cons.IH [OF ready_delivers [OF Cons.prems d], of q1] here split subs_delivers [OF d] step by simp
qed

text \<open>The one of the collected subscribers that is served.\<close>

definition chosen :: "env \<Rightarrow> nat \<Rightarrow> subref list \<Rightarrow> subref list" where
  "chosen env n rs = (if rs = [] then [] else [rs ! (pick env n mod length rs)])"

lemma ProcessPublishMessage_sent:
  assumes "ready b" "mtSubscribers (TopicName p) (Qos p) (topicsMgr (retainIn p b)) (foundSubs (cheap b c)) = ((subs, qoss), None)"
    "ValidQos (Qos p)"
  shows "\<exists>n. sent (trace (ProcessPublishMessage env (writePacket env) c p b))
    = sent (trace b) @ sendsAll b p (directSubs b (ctyp (cheap b c)) subs
        @ chosen env n (sharedSubs b (ctyp (cheap b c)) subs))"
proof -
  let ?b1 = "retainIn p b" and ?ty = "ctyp (cheap b c)"
  define b2 where "b2 = upd c (\<lambda>x. x\<lparr>foundSubs := (subs, qoss)\<rparr>) ?b1"
  have ready1: "ready ?b1" using assms(1) by (simp add: ready_def)
  have d: "delivers ?b1 b2" unfolding b2_def by (rule delivers_upd) simp
  have ready2: "ready b2" by (rule ready_delivers [OF ready1 d])
  have base: "directSubs ?b1 ?ty subs = directSubs b ?ty subs" "sharedSubs ?b1 ?ty subs = sharedSubs b ?ty subs"
    "sendsAll ?b1 p rs = sendsAll b p rs" for rs
    by (simp_all add: directSubs_def sharedSubs_def sendsAll_def echoes_def sendsTo_def cong: if_cong)
  have same: "directSubs b2 ?ty subs = directSubs b ?ty subs" "sharedSubs b2 ?ty subs = sharedSubs b ?ty subs"
    "sendsAll b2 p rs = sendsAll b p rs" for rs
    by (simp_all only: subs_delivers [OF d] base)
  have "trace b2 = trace b" by (simp add: b2_def)
  note same = same this
  obtain b3 q where f: "foldl (deliverTo env (writePacket env) ?ty p) (b2, []) subs = (b3, q)"
    by (cases "foldl (deliverTo env (writePacket env) ?ty p) (b2, []) subs")
  note all = deliverAll_sent [OF ready2 assms(3), of env ?ty "[]" subs, unfolded f]
  have d3: "delivers b2 b3" using deliverAll_delivers [OF quiet_writePacket ready2, of env env ?ty p "[]" subs] f by simp
  have last: "sent (trace (publish env (writePacket env) r p b3)) = sent (trace b3) @ sendsAll b p [r]" for r
    using publish_sent [OF ready_delivers [OF ready2 d3] assms(3), of env r] subs_delivers(3) [OF d3, of p "[r]"] same(3) [of "[r]"]
    by (simp add: sendsAll_def)
  have split: "sendsAll b p (xs @ ys) = sendsAll b p xs @ sendsAll b p ys" for xs ys by (simp add: sendsAll_def)
  have empty: "subs = [] \<Longrightarrow> directSubs b ?ty subs = [] \<and> sharedSubs b ?ty subs = []"
    by (simp add: directSubs_def sharedSubs_def List.map_filter_def)
  have res: "ProcessPublishMessage env (writePacket env) c p b
      = (if subs = [] then b2 else if 0 < length q
         then publish env (writePacket env) (q ! (pick env (length (trace b3)) mod length q)) p b3 else b3)"
    using assms(2) f
    by (simp add: ProcessPublishMessage_def retainIn_def [symmetric] b2_def [symmetric] Let_def) (simp add: b2_def)
  show ?thesis
    using all last same split empty
    by (intro exI [of _ "length (trace b3)"]) (auto simp: res chosen_def sendsAll_def [of _ _ "[]"])
qed

section \<open>Retrying\<close>

text \<open>What is sent again for a message in flight, when it is old enough.\<close>

definition retryPacket :: "inflightElem \<Rightarrow> controlPacket" where
  "retryPacket e = (case istatus e of Publish \<Rightarrow> PublishP (ipacket e) | Pubrel \<Rightarrow> PubrelP (MessageID (ipacket e)))"

definition overdue :: "env \<Rightarrow> inflightElem \<Rightarrow> bool" where
  "overdue env e = (now env - itimestamp e \<ge> retryInterval)"

lemma retryElem_delivers: "ready b \<Longrightarrow> delivers b (retryElem env (writePacket env) c b ke)"
proof -
  assume b: "ready b"
  have touch: "delivers x (upd c (\<lambda>x. x\<lparr>inflight := g x\<rparr>) x)" "delivers x (upd c (ensureRetryTimer n) x)" for g n x
    by (rule delivers_upd, simp)+
  have "delivers b (fst (writePacket env c p b))" for p using quietD [OF quiet_writePacket b] by (rule delivers_only_trace)
  then have "delivers b (upd c (\<lambda>x. x\<lparr>inflight := g x\<rparr>) (fst (writePacket env c p b)))" for g p
    using touch(1) by (rule delivers_trans)
  then show ?thesis using touch(2) by (simp add: retryElem_def Let_def split: prod.split InflightStatus.split)
qed

lemma retryElem_sent:
  "ready b \<Longrightarrow> sent (trace (retryElem env (writePacket env) c b (k, e)))
    = sent (trace b) @ (if overdue env e then sendsTo b c (retryPacket e) else [])"
  by (simp add: retryElem_def overdue_def retryPacket_def writePacket_sent Let_def split: InflightStatus.split)

lemma retryAll_sent:
  assumes "ready b"
  shows "sent (trace (foldl (retryElem env (writePacket env) c) b es))
    = sent (trace b) @ concat (map (\<lambda>(k, e). if overdue env e then sendsTo b c (retryPacket e) else []) es)"
  using assms
proof (induction es arbitrary: b)
  case Nil
  then show ?case by simp
next
  case (Cons ke es)
  obtain k e where ke: "ke = (k, e)" by (cases ke)
  have d: "delivers b (retryElem env (writePacket env) c b ke)" using Cons.prems by (rule retryElem_delivers)
  show ?case
    using Cons.IH [OF ready_delivers [OF Cons.prems d [unfolded ke]]] retryElem_sent [OF Cons.prems, of env c k e]
      sendsTo_delivers [OF d [unfolded ke]]
    by (simp add: ke split_def cong: if_cong)
qed

end
