(* ===== verification/Life_Laws.thy ===== *)
theory Life_Laws
  imports Delivery_Laws
begin

text \<open>
  Closing and accepting in full: the fuel of \<open>Close\<close> does not matter, what closing an end user
  writes, and the registry after a connection is accepted.
\<close>

section \<open>The fuel of closing\<close>

text \<open>Two writers that agree where the program writes.\<close>

definition agree :: "writer \<Rightarrow> writer \<Rightarrow> bool" where
  "agree w v = (\<forall>c p b. ready b \<longrightarrow> w c p b = v c p b)"

lemma agreeD: "agree w v \<Longrightarrow> ready b \<Longrightarrow> w c p b = v c p b"
  by (simp add: agree_def)

lemma agree_WriterPacket: "agree (WriterPacket env cl) (WriterPacket env cl')"
  by (simp add: agree_def WriterPacket_ready)

lemma agree_foldl:
  assumes "ready b" "\<And>b x. ready b \<Longrightarrow> f b x = g b x \<and> only_trace b (g b x)"
  shows "foldl f b xs = foldl g b xs"
  using assms(1)
proof (induction xs arbitrary: b)
  case Nil
  then show ?case by simp
next
  case (Cons x xs)
  have "f b x = g b x" "ready (g b x)" using assms(2) [OF Cons.prems] ready_only_trace Cons.prems by blast+
  then show ?case using Cons.IH by simp
qed

locale writer_pair =
  fixes w v :: writer
  assumes agree: "agree w v" and quiet: "quiet v"
begin

lemma agree_Broadcast: "ready b \<Longrightarrow> BroadcastSubOrUnsubMessage w p b = BroadcastSubOrUnsubMessage v p b"
  unfolding BroadcastSubOrUnsubMessage_def
  by (rule agree_foldl) (auto simp: agreeD [OF agree] quietD [OF quiet])

lemma agree_PublishMessage: "ready b \<Longrightarrow> PublishMessage w p b = PublishMessage v p b"
  unfolding PublishMessage_def
  by (auto split: prod.split option.split intro!: agree_foldl simp: agreeD [OF agree] quietD [OF quiet])

lemma agree_startClient: "ready b \<Longrightarrow> startClient w i c b = startClient v i c b"
proof -
  assume b: "ready b"
  have "SendConnect w c b = SendConnect v c b" "\<And>x. ready x \<Longrightarrow> SendInfo w c x = SendInfo v c x"
    using b by (auto simp: SendConnect_def SendInfo_def agreeD [OF agree])
  moreover have "ready (SendConnect v c b)" using SendConnect_quiet [OF quiet b] ready_only_trace [OF b] by blast
  ultimately show ?thesis by (simp add: startClient_def Let_def)
qed

lemma agree_Discovery: "ready b \<Longrightarrow> ConnectToDiscovery env w b = ConnectToDiscovery env v b"
proof -
  assume b: "ready b"
  define b1 where "b1 = foldl (\<lambda>b d. emit (Slept d) (emit (Dialed (routerAddr b) False) b)) b (delays 20 0 (discoveryFails env))"
  define b2 where "b2 = emit (Dialed (routerAddr b1) True) b1"
  define x where "x = initClient CLUSTER (connNext b2) (brokerId b2) [] [] 60 None (connLocalIP env) (connRemoteIP env) [] []"
  obtain b3 c where a: "allocClient x (b2\<lparr>connNext := connNext b2 + 1\<rparr>) = (b3, c)"
    by (cases "allocClient x (b2\<lparr>connNext := connNext b2 + 1\<rparr>)")
  have "only_trace b b1"
    unfolding b1_def by (rule only_trace_foldl [where P = "\<lambda>_. True"]) (auto intro: only_trace_trans)
  then have "only_trace b b2" unfolding b2_def by (rule only_trace_trans) simp
  then have "ready b2" using b ready_only_trace by blast
  moreover have "outgoing x" unfolding x_def by (rule outgoing_init) simp
  then have "expands b2 b3" using expands_alloc a by simp
  ultimately have "ready b3" by (rule ready_expands)
  then show ?thesis
    unfolding ConnectToDiscovery_def Let_def b1_def [symmetric] b2_def [symmetric] x_def [symmetric] a
    by (simp add: agree_startClient)
qed

lemma agree_closeNotify: "ready b \<Longrightarrow> closeNotify env w c b = closeNotify env v c b"
proof -
  assume b: "ready b"
  define b0 where "b0 = BroadcastUnSubscribe v (subMap (cheap b c)) b"
  define b1 where "b1 = (if ctyp (cheap b c) = CLIENT
    then OnlineOfflineNotification env v (clientID (cheap b c)) False b0 else b)"
  define b2 where "b2 = (case willMsg (cheap b1 c) of None \<Rightarrow> b1 | Some m \<Rightarrow> PublishMessage v m b1)"
  have 0: "BroadcastUnSubscribe w (subMap (cheap b c)) b = b0" "ready b0"
    using b agree_Broadcast [OF b] BroadcastUnSubscribe_quiet [OF quiet b] ready_only_trace [OF b]
    by (auto simp: BroadcastUnSubscribe_def b0_def Let_def)
  have 1: "OnlineOfflineNotification env w i o' b0 = OnlineOfflineNotification env v i o' b0" "ready b1" for i o'
    using 0(2) b OnlineOffline_quiet [OF quiet 0(2)] ready_only_trace [OF 0(2)]
    by (auto simp: OnlineOfflineNotification_def agree_PublishMessage b1_def)
  have 2: "(case willMsg (cheap b1 c) of None \<Rightarrow> b1 | Some m \<Rightarrow> PublishMessage w m b1) = b2" "ready b2"
    using 1(2) agree_PublishMessage [OF 1(2)] PublishMessage_quiet [OF quiet 1(2)] ready_only_trace [OF 1(2)]
    by (auto simp: b2_def split: option.split)
  show ?thesis
    using agree_Discovery [OF 2(2), of env]
    unfolding closeNotify_def Let_def 0(1) 1(1) b0_def [symmetric] b1_def [symmetric] b2_def [symmetric] 2(1)
    by (simp split: if_split)
qed

end

text \<open>The writers of the broker, which differ in what they call to close a client.\<close>

interpretation closers: writer_pair "WriterPacket env cl" "WriterPacket env cl'"
  by unfold_locales (auto simp: agree_WriterPacket)

lemma CloseWith_fuel: "ready b \<Longrightarrow> CloseWith (Suc n) env c b = CloseWith (Suc m) env c b"
  using closers.agree_closeNotify [OF closeSelf_ready] by simp

section \<open>What closing writes\<close>

text \<open>The subscriptions a message of the broker goes to.\<close>

definition foundRefs :: "broker \<Rightarrow> publishPacket \<Rightarrow> subref list" where
  "foundRefs b p =
     (case mtSubscribers (TopicName p) (Qos p) (topicsMgr b) ([], []) of
        (_, Some e) \<Rightarrow> []
      | ((subs, qoss), None) \<Rightarrow> List.map_filter asSub subs)"

definition broadcastTo :: "broker \<Rightarrow> controlPacket \<Rightarrow> (connId \<times> controlPacket) list" where
  "broadcastTo b p = concat (map (\<lambda>(rid, r). sendsTo b r p) (routes b))"

definition offlineMsg :: "env \<Rightarrow> string \<Rightarrow> publishPacket" where
  "offlineMsg env cid =
     newPublish\<lparr>TopicName := sysClients @ cid, Qos := 0, Payload := onlinePayload cid False (clock env)\<rparr>"

lemma sendsTo_cheap: "cheap b' = cheap b \<Longrightarrow> sendsTo b' c p = sendsTo b c p"
  by (simp add: sendsTo_def)

lemma sends_only_trace:
  assumes "only_trace b b'"
  shows "sendsAll b' p rs = sendsAll b p rs" "foundRefs b' p = foundRefs b p" "broadcastTo b' q = broadcastTo b q"
proof -
  have "sendsTo b' c k = sendsTo b c k" for c k
    using only_trace_same(1) [OF assms] by (rule sendsTo_cheap)
  then show "sendsAll b' p rs = sendsAll b p rs" "foundRefs b' p = foundRefs b p" "broadcastTo b' q = broadcastTo b q"
    using only_trace_same [OF assms] by (simp_all add: sendsAll_def foundRefs_def broadcastTo_def)
qed

lemma foldl_sent:
  assumes "ready b" "\<And>b x. ready b \<Longrightarrow> only_trace b (f b x) \<and> sent (trace (f b x)) = sent (trace b) @ g b x"
    and "\<And>b b' x. only_trace b b' \<Longrightarrow> g b' x = g b x"
  shows "sent (trace (foldl f b xs)) = sent (trace b) @ concat (map (g b) xs)"
  using assms(1)
proof (induction xs arbitrary: b)
  case Nil
  then show ?case by simp
next
  case (Cons x xs)
  have step: "only_trace b (f b x)" "sent (trace (f b x)) = sent (trace b) @ g b x" using assms(2) Cons.prems by auto
  have "g (f b x) = g b" using assms(3) [OF step(1)] by blast
  with Cons.IH [OF ready_only_trace [OF Cons.prems step(1)]] step(2) show ?case by simp
qed

lemma Broadcast_sent:
  assumes "ready b"
  shows "sent (trace (BroadcastSubOrUnsubMessage (WriterPacket env cl) p b)) = sent (trace b) @ broadcastTo b p"
proof -
  have same: "sendsTo b' c p = sendsTo b c p" if "only_trace b b'" for b b' c
    using only_trace_same(1) [OF that] by (rule sendsTo_cheap)
  show ?thesis
    unfolding BroadcastSubOrUnsubMessage_def broadcastTo_def
    by (rule foldl_sent [OF assms]) (auto simp: WriterPacket_sent quietD [OF quiet_WriterPacket] same)
qed

lemma PublishMessage_sent:
  assumes "ready b"
  shows "sent (trace (PublishMessage (WriterPacket env cl) p b)) = sent (trace b) @ sendsAll b p (foundRefs b p)"
proof -
  obtain subs qoss err where m: "mtSubscribers (TopicName p) (Qos p) (topicsMgr b) ([], []) = ((subs, qoss), err)"
    by (cases "mtSubscribers (TopicName p) (Qos p) (topicsMgr b) ([], [])") auto
  define g where "g = (\<lambda>b sub. case asSub sub of None \<Rightarrow> [] | Some r \<Rightarrow> sendsTo b (sclient (sheap b r)) (PublishP p))"
  have same: "g b' x = g b x" if "only_trace b b'" for b b' x
    using only_trace_same [OF that] sendsTo_cheap [of b' b] by (simp add: g_def split: option.split)
  have "sent (trace (foldl (\<lambda>b sub. case asSub sub of None \<Rightarrow> b
      | Some r \<Rightarrow> fst (WriterPacket env cl (sclient (sheap b r)) (PublishP p) b)) b subs))
    = sent (trace b) @ concat (map (g b) subs)"
    by (rule foldl_sent [OF assms])
      (simp_all add: same, auto simp: WriterPacket_sent quietD [OF quiet_WriterPacket] g_def split: option.split)
  also have "concat (map (g b) subs) = sendsAll b p (List.map_filter asSub subs)"
    by (induction subs) (auto simp: g_def sendsAll_def List.map_filter_simps split: option.splits)
  finally show ?thesis using m by (simp add: PublishMessage_def foundRefs_def sendsAll_def split: option.split)
qed

text \<open>Whom a message of the broker finds: the subscriptions with a matching filter.\<close>

lemma foundRefs_set:
  assumes "subs_inv b" "ValidQos (Qos p)" "topicLevels (TopicName p) = Inr ts"
  shows "set (foundRefs b p) = {r. \<exists>fs. matches fs ts \<and> (fs, subPtr r) \<in> mt_subs (topicsMgr b)}"
proof -
  have inv: "mt_inv (topicsMgr b)" using assms(1) by (simp add: subs_inv_def)
  obtain subs qoss where m: "mtSubscribers (TopicName p) (Qos p) (topicsMgr b) ([], []) = ((subs, qoss), None)"
    using mem_subs.subscribers_ok [OF inv assms(2,3), of "([], [])"] by blast
  have "set subs = {s. \<exists>fs. matches fs ts \<and> (fs, s) \<in> mt_subs (topicsMgr b)}"
    using mem_subs.subscribers_set [OF inv assms(2,3) m] .
  moreover have "r \<in> set (List.map_filter asSub subs) \<longleftrightarrow> subPtr r \<in> set subs" for r
    by (induction subs) (auto simp: List.map_filter_simps asSub_Some split: option.split)
  ultimately show ?thesis by (auto simp: foundRefs_def m)
qed

text \<open>
  Closing an end user writes, after the connection is gone: the cancelled topics to the routers,
  the offline notification, and the will, each to whoever subscribes to it by then.
\<close>

lemma closeNotify_client:
  assumes "ready b" "ctyp (cheap b c) = CLIENT"
  shows "only_trace b (closeNotify env (WriterPacket env cl) c b)"
    and "sent (trace (closeNotify env (WriterPacket env cl) c b)) = sent (trace b)
      @ (if subMap (cheap b c) = [] then [] else broadcastTo b (UnsubscribeP 0 (map fst (subMap (cheap b c)))))
      @ sendsAll b (offlineMsg env (clientID (cheap b c))) (foundRefs b (offlineMsg env (clientID (cheap b c))))
      @ (case willMsg (cheap b c) of None \<Rightarrow> [] | Some m \<Rightarrow> sendsAll b m (foundRefs b m))"
proof -
  let ?w = "WriterPacket env cl" and ?m = "offlineMsg env (clientID (cheap b c))"
  define b0 where "b0 = BroadcastUnSubscribe ?w (subMap (cheap b c)) b"
  define b1 where "b1 = OnlineOfflineNotification env ?w (clientID (cheap b c)) False b0"
  define b2 where "b2 = (case willMsg (cheap b1 c) of None \<Rightarrow> b1 | Some m \<Rightarrow> PublishMessage ?w m b1)"
  have 0: "only_trace b b0" unfolding b0_def using assms(1) by (intro BroadcastUnSubscribe_quiet) auto
  have s0: "sent (trace b0) = sent (trace b)
      @ (if subMap (cheap b c) = [] then [] else broadcastTo b (UnsubscribeP 0 (map fst (subMap (cheap b c)))))"
    using Broadcast_sent [OF assms(1)] by (simp add: b0_def BroadcastUnSubscribe_def Let_def)
  note ready0 = ready_only_trace [OF assms(1) 0]
  have 1: "only_trace b0 b1" unfolding b1_def using ready0 by (intro OnlineOffline_quiet) auto
  have s1: "sent (trace b1) = sent (trace b0) @ sendsAll b ?m (foundRefs b ?m)"
    using PublishMessage_sent [OF ready0] sends_only_trace [OF 0]
    by (simp add: b1_def OnlineOfflineNotification_def offlineMsg_def)
  have 01: "only_trace b b1" using 0 1 by (rule only_trace_trans)
  note ready1 = ready_only_trace [OF assms(1) 01]
  have cheap1: "cheap b1 = cheap b" using only_trace_same(1) [OF 01] .
  have 2: "only_trace b1 b2"
    unfolding b2_def using PublishMessage_quiet [OF quiet_WriterPacket ready1] by (simp split: option.split)
  have s2: "sent (trace b2) = sent (trace b1) @ (case willMsg (cheap b c) of None \<Rightarrow> [] | Some m \<Rightarrow> sendsAll b m (foundRefs b m))"
    using PublishMessage_sent [OF ready1] sends_only_trace [OF 01] by (simp add: b2_def cheap1 split: option.split)
  have cheap2: "cheap b2 = cheap b" using only_trace_same(1) [OF 2] cheap1 by simp
  have res: "closeNotify env ?w c b = b2"
    unfolding closeNotify_def Let_def b0_def [symmetric] assms(2) simp_thms if_True b1_def [symmetric] b2_def [symmetric] cheap2
    by (simp add: assms(2) cheap2)
  show "only_trace b (closeNotify env ?w c b)" unfolding res using 01 2 by (rule only_trace_trans)
  show "sent (trace (closeNotify env ?w c b)) = sent (trace b)
      @ (if subMap (cheap b c) = [] then [] else broadcastTo b (UnsubscribeP 0 (map fst (subMap (cheap b c)))))
      @ sendsAll b ?m (foundRefs b ?m)
      @ (case willMsg (cheap b c) of None \<Rightarrow> [] | Some m \<Rightarrow> sendsAll b m (foundRefs b m))"
    unfolding res s2 s1 s0 by simp
qed

lemma closeSelf_sent:
  "conn (cheap b c) = Some k \<Longrightarrow> sent (trace (closeSelf env c b)) = sent (trace b)
    \<and> last (trace (closeSelf env c b)) = ConnClosed k"
  by (auto simp: closeSelf_def Let_def unsubscribeAll_def removeClient_def closeConn_def bridgePublish_def emit_def upd_def
      split: ctype.splits)

lemma Close_client_sent:
  fixes env :: env
  assumes "ready b" "status (cheap b c) \<noteq> Disconnected" "ctyp (cheap b c) = CLIENT"
  defines "b' \<equiv> Close env c b" and "m \<equiv> offlineMsg env (clientID (cheap b c))" and "topics \<equiv> map fst (subMap (cheap b c))"
  shows "only_trace (closeSelf env c b) b'"
    and "sent (trace b') = sent (trace b)
      @ (if topics = [] then [] else broadcastTo b' (UnsubscribeP 0 topics))
      @ sendsAll b' m (foundRefs b' m)
      @ (case willMsg (cheap b c) of None \<Rightarrow> [] | Some w \<Rightarrow> sendsAll b' w (foundRefs b' w))"
proof -
  let ?b = "closeSelf env c b"
  obtain k where k: "conn (cheap b c) = Some k" using assms(1,2) by (auto simp: ready_def)
  note eqs = closeSelf_eqs [OF k, of env]
  have ready: "ready ?b" using assms(1,2) by (rule closeSelf_ready)
  have x: "ctyp (cheap ?b c) = CLIENT" "subMap (cheap ?b c) = subMap (cheap b c)"
    "clientID (cheap ?b c) = clientID (cheap b c)" "willMsg (cheap ?b c) = willMsg (cheap b c)"
    using assms(3) by (simp_all add: eqs(1))
  have b': "b' = closeNotify env (WriterPacket env (CloseWith (cnext b) env)) c ?b"
    using assms(2) by (simp add: b'_def Close_def)
  show only: "only_trace ?b b'" unfolding b' by (rule closeNotify_client(1) [OF ready x(1)])
  note same = sends_only_trace [OF only]
  show "sent (trace b') = sent (trace b)
      @ (if topics = [] then [] else broadcastTo b' (UnsubscribeP 0 topics))
      @ sendsAll b' m (foundRefs b' m)
      @ (case willMsg (cheap b c) of None \<Rightarrow> [] | Some w \<Rightarrow> sendsAll b' w (foundRefs b' w))"
    unfolding same unfolding b' closeNotify_client(2) [OF ready x(1)]
    by (simp add: x closeSelf_sent [OF k] m_def topics_def cong: option.case_cong)
qed

section \<open>Accepting a client\<close>

lemma getSession_eq:
  assumes "getSession env c req b = (b', err)"
  shows "\<exists>s mp. b' = upd c (\<lambda>x. x\<lparr>csession := Some s\<rparr>) (b\<lparr>sessionMgr := mp\<rparr>)"
proof -
  obtain mp s where m: "managerNew (sessionRnd env) (ClientIdentifier (cleanRequest req)) (sessionMgr b) = (mp, s)"
    by (cases "managerNew (sessionRnd env) (ClientIdentifier (cleanRequest req)) (sessionMgr b)")
  show ?thesis using assms by (auto simp: getSession_def Let_def m split: option.splits)
qed

lemma connectAuth_eq:
  assumes "brokerConnectAuth env i u p b = (b', ok)"
  shows "b' = b\<lparr>bauth := bauth b'\<rparr>"
  using assms by (auto simp: brokerConnectAuth_def split: option.splits prod.splits)

lemma topicAuth_eq:
  assumes "brokerTopicAuth env act x t b = (b', ok)"
  shows "b' = b\<lparr>bauth := bauth b'\<rparr>"
  using assms by (auto simp: brokerTopicAuth_def split: option.splits prod.splits)

lemma closeSelf_trace: "\<exists>es. trace (closeSelf env c b) = trace b @ es"
  by (simp add: closeSelf_def Let_def unsubscribeAll_def removeClient_def closeConn_def bridgePublish_def emit_def upd_def
      split: ctype.split option.split)

text \<open>An end user enters the registry: the holder of its identifier, if any, is closed first.\<close>

lemma register_client:
  fixes env :: env and msg :: connectPacket
  assumes "pending_client c CLIENT cid b"
  defines "b' \<equiv> register env msg c b"
  shows "map_of (clients b') = (map_of (clients b))(cid \<mapsto> c)" "same_core (cheap b c) (cheap b' c)"
    and "map_of (clients b) cid = Some old \<Longrightarrow> status (cheap b' old) = Disconnected"
    and "d < cnext b \<Longrightarrow> map_of (clients b) cid \<noteq> Some d \<Longrightarrow> same_core (cheap b d) (cheap b' d)"
    and "\<exists>es. trace b' = trace b @ es" "metricsOn b' = metricsOn b"
proof -
  have c: "ctyp (cheap b c) = CLIENT" "clientID (cheap b c) = cid" "c < cnext b"
    and inv: "binv {c} b" using assms(1) by (auto simp: pending_client_def live_def)
  note ready = binv_ready [OF inv]
  define b1 where "b1 = (case map_of (clients b) cid of None \<Rightarrow> b | Some old \<Rightarrow> Close env old b)"
  define b2 where "b2 = b1\<lparr>clients := AList.update cid c (clients b1)\<rparr>"
  define b3 where "b3 = OnlineOfflineNotification env (writePacket env) cid True b2"
  have b': "b' = bridgePublish (element (cheap b3 c) bConnect (now env) [] []) b3"
    by (simp add: b'_def register_def c b1_def [symmetric] b2_def [symmetric] b3_def [symmetric] Let_def)
  have 1: "ready b1 \<and> map_of (clients b1) = (map_of (clients b))(cid := None) \<and> metricsOn b1 = metricsOn b
      \<and> (\<exists>es. trace b1 = trace b @ es)
      \<and> (\<forall>d. d < cnext b \<and> map_of (clients b) cid \<noteq> Some d \<longrightarrow> same_core (cheap b d) (cheap b1 d))
      \<and> (\<forall>old. map_of (clients b) cid = Some old \<longrightarrow> status (cheap b1 old) = Disconnected)"
  proof (cases "map_of (clients b) cid")
    case None
    then show ?thesis using ready by (auto simp: b1_def)
  next
    case (Some old)
    then have mem: "(cid, old) \<in> set (clients b)" by (rule map_of_SomeD)
    have reg: "reg_inv {c} b" using inv by (simp add: binv_def)
    have old: "old < cnext b" "ctyp (cheap b old) = CLIENT" "status (cheap b old) \<noteq> Disconnected" "clientID (cheap b old) = cid"
      using reg_invD(3) [OF reg mem] by auto
    obtain k where k: "conn (cheap b old) = Some k" using ready old(3) by (auto simp: ready_def)
    have b1: "b1 = Close env old b" using Some by (simp add: b1_def)
    note only = Close_client_sent(1) [OF ready old(3,2), of env, folded b1]
    have "ready b1" using ready_only_trace [OF closeSelf_ready [OF ready old(3)] only] .
    moreover have "map_of (clients b1) = (map_of (clients b))(cid := None)"
      using Close_clients [OF ready old(3), of env] old by (simp add: b1 go_map)
    moreover have "\<exists>es. trace b1 = trace b @ es"
      using only closeSelf_trace [of env old b] by (auto elim!: only_traceE)
    moreover have "metricsOn b1 = metricsOn b" using only_trace_same(18) [OF only] by (simp add: closeSelf_eqs [OF k])
    moreover have "same_core (cheap b d) (cheap b1 d)" if "d < cnext b" "d \<noteq> old" for d
      using Close_client(2) [OF ready old(1) that] by (simp add: b1)
    moreover have "status (cheap b1 old) = Disconnected" using Close_client(1) [OF ready old(1)] by (simp add: b1)
    ultimately show ?thesis using Some by auto
  qed
  have "ready b2" using 1 by (simp add: b2_def ready_def)
  then have "only_trace b2 b3" unfolding b3_def by (intro OnlineOffline_quiet) auto
  then have only: "only_trace b2 b'" unfolding b' by (rule only_trace_trans) simp
  have cheap: "cheap b' = cheap b1" "metricsOn b' = metricsOn b1" "clients b' = AList.update cid c (clients b1)"
    using only_trace_same [OF only] by (simp_all add: b2_def)
  show "map_of (clients b') = (map_of (clients b))(cid \<mapsto> c)" using 1 by (simp add: cheap go_map)
  show "\<exists>es. trace b' = trace b @ es" using only 1 by (auto simp: b2_def elim!: only_traceE)
  show "metricsOn b' = metricsOn b" using 1 cheap by simp
  show "map_of (clients b) cid = Some old \<Longrightarrow> status (cheap b' old) = Disconnected" using 1 cheap by simp
  show others: "d < cnext b \<Longrightarrow> map_of (clients b) cid \<noteq> Some d \<Longrightarrow> same_core (cheap b d) (cheap b' d)" for d
    using 1 cheap by simp
  have "map_of (clients b) cid \<noteq> Some c"
    using assms(1) by (force simp: pending_client_def dest: map_of_SomeD)
  with others c(3) show "same_core (cheap b c) (cheap b' c)" by blast
qed

lemma acceptClient_client:
  fixes env :: env and msg :: connectPacket and k :: connId
  assumes "binv {} b" "metricsOn b"
  defines "b' \<equiv> acceptClient env CLIENT k msg b" and "c \<equiv> cnext b" and "cid \<equiv> ClientIdentifier msg"
  shows "map_of (clients b') = (map_of (clients b))(cid \<mapsto> c)"
    and "ctyp (cheap b' c) = CLIENT \<and> clientID (cheap b' c) = cid \<and> status (cheap b' c) = Connected
      \<and> conn (cheap b' c) = Some k \<and> csession (cheap b' c) \<noteq> None \<and> reading (cheap b' c)"
    and "map_of (clients b) cid = Some old \<Longrightarrow> status (cheap b' old) = Disconnected"
    and "d < c \<Longrightarrow> map_of (clients b) cid \<noteq> Some d \<Longrightarrow> same_core (cheap b d) (cheap b' d)"
    and "\<exists>es. trace b' = trace b @ es"
proof -
  define x where "x = initClient CLIENT k cid (Username msg) (Password msg) (Keepalive msg) (willOf msg)
    (connLocalIP env) (connRemoteIP env) [] []"
  define b1 where "b1 = b\<lparr>cheap := (cheap b)(c := x), cnext := cnext b + 1\<rparr>"
  have a: "allocClient x b = (b1, c)" by (simp add: allocClient_def b1_def c_def)
  have x: "fresh_client x" "ctyp x = CLIENT" "clientID x = cid" "status x = Connected" "conn x = Some k"
    by (auto simp: x_def fresh_client_def initClient_def)
  have p1: "pending_client c CLIENT cid b1" using alloc_pending [OF assms(1) a x(1)] x by simp
  obtain b2 err where s: "getSession env c msg b1 = (b2, err)" by (cases "getSession env c msg b1")
  have p2: "err = None" "pending_client c CLIENT cid b2" "csession (cheap b2 c) \<noteq> None"
    using getSession_pending [OF p1 s] by auto
  obtain r mp where b2: "b2 = upd c (\<lambda>x. x\<lparr>csession := Some r\<rparr>) (b1\<lparr>sessionMgr := mp\<rparr>)" using getSession_eq [OF s] by blast
  have b2_eqs: "clients b2 = clients b" "trace b2 = trace b" "metricsOn b2 = metricsOn b" "cnext b2 = Suc c"
    "cheap b2 = (cheap b)(c := x\<lparr>csession := Some r\<rparr>)"
    by (simp_all add: b2 b1_def c_def)
  define b3 where "b3 = register env msg c b2"
  note reg = register_client [OF p2(2), where env = env and msg = msg, folded b3_def]
  have b': "b' = upd c (\<lambda>x. x\<lparr>reading := True\<rparr>) (counting (Inc MetricNumberOfClients) b3)"
    using a s p2(1) reg(6) assms(2) b2_eqs
    by (simp add: b'_def acceptClient_def x_def [symmetric] cid_def [symmetric] b3_def [symmetric] Let_def)
  have new: "d < cnext b" if "map_of (clients b) i = Some d" for d i
    using map_of_SomeD [OF that] reg_invD(3) assms(1) by (auto simp: binv_def)
  show "map_of (clients b') = (map_of (clients b))(cid \<mapsto> c)" using reg(1) by (simp add: b' b2_eqs)
  show "ctyp (cheap b' c) = CLIENT \<and> clientID (cheap b' c) = cid \<and> status (cheap b' c) = Connected
      \<and> conn (cheap b' c) = Some k \<and> csession (cheap b' c) \<noteq> None \<and> reading (cheap b' c)"
    using reg(2) x by (simp add: b' b2_eqs same_core_def)
  show "map_of (clients b) cid = Some old \<Longrightarrow> status (cheap b' old) = Disconnected"
    using reg(3) new [of cid old] by (auto simp: b' b2_eqs c_def)
  show "d < c \<Longrightarrow> map_of (clients b) cid \<noteq> Some d \<Longrightarrow> same_core (cheap b d) (cheap b' d)"
    using reg(4) [of d] by (simp add: b' b2_eqs)
  show "\<exists>es. trace b' = trace b @ es" using reg(5) by (simp add: b' b2_eqs)
qed

end
