(* ===== verification/Broker_Examples.thy ===== *)
theory Broker_Examples
  imports Delivery_Laws
begin

text \<open>
  A small broker, for instances of the properties: one client, alone on a broker with metrics, after
  its CONNECT and after a SUBSCRIBE. The environment is one where every write succeeds.
\<close>

definition calm :: env where
  "calm = \<lparr>now = 0, clock = [], writeOk = (\<lambda>_. True), pick = (\<lambda>_. 0), authCacheGet = (\<lambda>_ _. None),
     authServer = (\<lambda>_. StatusCode 200), validateConnect = (\<lambda>_. 0), parseInfo = (\<lambda>_. None), dialOk = (\<lambda>_. True),
     discoveryFails = 0, uuid = (\<lambda>_. ''u''), sessionRnd = ''r'', connLocalIP = ''l'', connRemoteIP = ''p'',
     hashString = (\<lambda>_. 0)\<rparr>"

definition quietBroker :: broker where
  "quietBroker = NewBroker ''b'' [] [] 1 None False True"

definition hello :: connectPacket where
  "hello = newConnect\<lparr>ClientIdentifier := ''x'', CleanSession := True\<rparr>"

text \<open>The state after a list of events that can all happen.\<close>

fun runs :: "env \<Rightarrow> event list \<Rightarrow> broker \<Rightarrow> broker option" where
  "runs env [] b = Some b"
| "runs env (e # es) b = (case handleEvent env e b of None \<Rightarrow> None | Some b1 \<Rightarrow> runs env es b1)"

lemma runs_reachable: "runs env es b = Some b' \<Longrightarrow> reachable b0 b \<Longrightarrow> reachable b0 b'"
  by (induction es arbitrary: b) (auto split: option.splits dest: step_event reach_step)

definition after :: "event list \<Rightarrow> broker" where
  "after es = the (runs calm es quietBroker)"

lemma reach_after: "\<not> Option.is_none (runs calm es quietBroker) \<Longrightarrow> reachable quietBroker (after es)"
  by (auto simp: after_def Option.is_none_def intro: runs_reachable reach_init)

abbreviation hears :: "controlPacket \<Rightarrow> event list" where
  "hears p \<equiv> [EvRead 0 (ReadPacket p), EvWork 0]"

definition oneClient :: broker where
  "oneClient = after [EvAccept False (Some (ConnectP hello))]"

definition subscribed1 :: broker where
  "subscribed1 = after (EvAccept False (Some (ConnectP hello)) # hears (SubscribeP 7 [''a''] [QosAtLeastOnce]))"

lemma reach_examples:
  "reachable quietBroker quietBroker" "reachable quietBroker oneClient" "reachable quietBroker subscribed1"
  unfolding oneClient_def subscribed1_def by (rule reach_init reach_after; code_simp)+

lemmas reach_new = reach_examples [unfolded quietBroker_def]

lemma one_client:
  "cheap oneClient 0 = (initClient CLIENT 0 ''x'' [] [] 0 None ''l'' ''p'' [] [])\<lparr>csession := Some 0, reading := True\<rparr>"
  "clients oneClient = [(''x'', 0)]" "crashed oneClient = False" "bauth oneClient = None" "cnext oneClient = 1"
  "trace oneClient = [Wrote 0 (ConnackP True 0) True]" "bridgeMQ oneClient = False"
  "topicsMgr oneClient = NewMemProvider"
  by code_simp+

lemma subscribed_client:
  "ctyp (cheap subscribed1 0) = CLIENT" "status (cheap subscribed1 0) = Connected" "clientID (cheap subscribed1 0) = ''x''"
  "subMap (cheap subscribed1 0) = [(''a'', 0)]" "clients subscribed1 = [(''x'', 0)]" "crashed subscribed1 = False"
  "trace subscribed1 = trace oneClient @ [Wrote 0 (SubackP 7 [QosAtLeastOnce]) True]" "conn (cheap subscribed1 0) = Some 0"
  "sheap subscribed1 0 = \<lparr>sclient = 0, stopic = ''a'', subQos = QosAtLeastOnce, share = False, groupName = []\<rparr>"
  by code_simp+

end
