(* ===== verification/Life_Properties.thy ===== *)
theory Life_Properties
  imports Life_Laws Broker_Examples
begin

text \<open>
  The properties of the life of a client: the registry, accepting, taking over, refusing and closing,
  over every state a new broker can reach.
\<close>





text \<open>
  C21. Closing always comes to an end: in every reachable state one unit of fuel is enough for
  \<open>Close\<close> and more makes no difference, so the recursion of \<^verbatim>\<open>Close\<close> through \<^verbatim>\<open>WriterPacket\<close> never
  goes round, and the flag for spent fuel is never up, not even while closing.
\<close>

theorem close_terminates:
  assumes "reachable (NewBroker bid cport router workers auth bridge metrics) b" "workers < 2 ^ 64"
  shows "CloseWith (Suc n) env c b = Close env c b \<and> \<not> stuck b \<and> \<not> stuck (Close env c b)"
proof -
  have b: "binv {} b" using reachable_binv [OF assms] .
  then have "binv {} (Close env c b)" by (intro Close_binv) auto
  with b CloseWith_fuel [OF binv_ready [OF b], of n env c "cnext b"] show ?thesis by (simp add: Close_def binv_def)
qed

lemma close_terminates_witness:
  "CloseWith (Suc 0) calm 0 subscribed1 = Close calm 0 subscribed1 \<and> \<not> stuck subscribed1 \<and> \<not> stuck (Close calm 0 subscribed1)"
  by (rule close_terminates [OF reach_new(3)]) simp

text \<open>
  C16. Closing a connected client: it is disconnected and its connection is gone, an end user is
  out of the registry and has no subscription in the index, every other client is as before in all
  that counts, and closing again does nothing.
\<close>

theorem close_effect:
  assumes "reachable (NewBroker bid cport router workers auth bridge metrics) b" "workers < 2 ^ 64"
    and "c < cnext b" "status (cheap b c) \<noteq> Disconnected"
  shows "status (cheap (Close env c b) c) = Disconnected \<and> conn (cheap (Close env c b) c) = None
    \<and> Close env' c (Close env c b) = Close env c b
    \<and> (\<forall>d < cnext b. d = c \<or> same_core (cheap b d) (cheap (Close env c b) d))
    \<and> (ctyp (cheap b c) = CLIENT \<longrightarrow>
         map_of (clients (Close env c b)) (clientID (cheap b c)) = None
         \<and> (\<forall>fs r. (fs, subPtr r) \<in> mt_subs (topicsMgr (Close env c b)) \<longrightarrow> sclient (sheap b r) \<noteq> c))"
proof -
  have b: "binv {} b" using reachable_binv [OF assms(1,2)] .
  note ready = binv_ready [OF b]
  obtain k where k: "conn (cheap b c) = Some k" using ready assms(4) by (auto simp: ready_def)
  let ?b = "Close env c b"
  note ex = Close_expands [OF ready assms(4), of env]
  have "same_core (cheap (closeSelf env c b) c) (cheap ?b c)"
    using expands_client [OF ex, of c] assms(3) by (simp add: closeSelf_eqs(7) [OF k])
  then have "conn (cheap ?b c) = None" by (simp add: same_core_def closeSelf_eqs(1) [OF k])
  moreover have dis: "status (cheap ?b c) = Disconnected" using Close_client(1) [OF ready assms(3)] .
  moreover have "Close env' c ?b = ?b" using dis by (rule Close_idle)
  moreover have "d = c \<or> same_core (cheap b d) (cheap ?b d)" if "d < cnext b" for d
    using Close_client(2) [OF ready assms(3) that] by blast
  moreover have "topicsMgr ?b = topicsMgr (closeSelf env c b)" using ex by (simp add: expands_def same_rest_def)
  with closeSelf_binv(2) [OF b assms(4), where env = env]
  have "sclient (sheap b r) \<noteq> c" if "ctyp (cheap b c) = CLIENT" "(fs, subPtr r) \<in> mt_subs (topicsMgr ?b)" for fs r
    using that by auto
  ultimately show ?thesis using Close_clients [OF ready assms(4), of env] by (auto simp: go_map)
qed

lemma close_effect_witness:
  "status (cheap (Close calm 0 subscribed1) 0) = Disconnected \<and> clients (Close calm 0 subscribed1) = []"
proof
  have "cnext subscribed1 = 1" "clients (Close calm 0 subscribed1) = []" by code_simp+
  then show "clients (Close calm 0 subscribed1) = []" "status (cheap (Close calm 0 subscribed1) 0) = Disconnected"
    using close_effect [OF reach_new(3), of 0 calm calm] by (simp_all add: subscribed_client)
qed

text \<open>
  C22. What closing an end user tells the others, exactly and in order: the routers are told the
  topics it had subscribed to, then the offline notification goes to whoever follows that topic,
  then its will, when it still has one, to the subscribers of the will's topic; it is itself no
  longer among them.
\<close>

theorem close_announces:
  assumes "reachable (NewBroker bid cport router workers auth bridge metrics) b" "workers < 2 ^ 64"
    and "status (cheap b c) \<noteq> Disconnected" "ctyp (cheap b c) = CLIENT"
  shows "sent (trace (Close env c b)) = sent (trace b)
    @ (if subMap (cheap b c) = [] then []
       else broadcastTo (Close env c b) (UnsubscribeP 0 (map fst (subMap (cheap b c)))))
    @ sendsAll (Close env c b) (offlineMsg env (clientID (cheap b c)))
        (foundRefs (Close env c b) (offlineMsg env (clientID (cheap b c))))
    @ (case willMsg (cheap b c) of
         None \<Rightarrow> [] | Some will \<Rightarrow> sendsAll (Close env c b) will (foundRefs (Close env c b) will))"
  using Close_client_sent(2) [OF binv_ready [OF reachable_binv [OF assms(1,2)]] assms(3,4), of env] by simp

lemma close_announces_witness:
  "sent (trace (Close calm 0 subscribed1)) = sent (trace subscribed1)
    @ broadcastTo (Close calm 0 subscribed1) (UnsubscribeP 0 [''a''])
    @ sendsAll (Close calm 0 subscribed1) (offlineMsg calm ''x'') (foundRefs (Close calm 0 subscribed1) (offlineMsg calm ''x''))"
proof -
  have "willMsg (cheap subscribed1 0) = None" by code_simp
  then show ?thesis
    using close_announces [OF reach_new(3), of 0 calm] by (simp add: subscribed_client)
qed

text \<open>
  C33. A client that says goodbye has no will: reading a DISCONNECT takes the will away and ends the
  reader before the packet is handed to a worker, so closing later does not publish it; a reader
  that meets an error leaves the will in place and hands on a DISCONNECT of its own.
\<close>

theorem goodbye_drops_will:
  assumes "readTurn env c (ReadPacket DisconnectP) b = Some b'" "readTurn env c ReadErr b = Some b''"
  shows "willMsg (cheap b' c) = None \<and> cancelled (cheap b' c) \<and> \<not> reading (cheap b' c)
    \<and> willMsg (cheap b'' c) = willMsg (cheap b c) \<and> \<not> reading (cheap b'' c)
    \<and> wpool b'' = wpool b'"
proof -
  have same: "cheap x' = cheap x" if "SubmitWork env i m x = Some x'" for x x' i m
    using that by (auto simp: SubmitWork_def crash_def Let_def split: if_splits)
  let ?b = "upd c (\<lambda>x. x\<lparr>willMsg := None, cancelled := True\<rparr>) b" and ?bye = "\<lparr>mclient = c, mpacket = DisconnectP\<rparr>"
  obtain b1 where 1: "SubmitWork env (clientID (cheap b c)) ?bye ?b = Some b1" "b' = checkContext c b1"
    using assms(1) by (auto simp: readTurn_def)
  obtain b2 where 2: "SubmitWork env (clientID (cheap b c)) ?bye b = Some b2" "b'' = stopReading c b2"
    using assms(2) by (auto simp: readTurn_def)
  have "wpool b2 = wpool b1"
    using 1(1) 2(1) by (auto simp: SubmitWork_def crash_def Let_def split: if_splits)
  then show ?thesis
    using same [OF 1(1)] same [OF 2(1)] by (simp add: 1(2) 2(2) checkContext_def stopReading_same)
qed

lemma goodbye_drops_will_witness:
  "willMsg (cheap (the (readTurn calm 0 (ReadPacket DisconnectP) oneClient)) 0) = None"
proof -
  have "\<not> Option.is_none (readTurn calm 0 (ReadPacket DisconnectP) oneClient)"
    "\<not> Option.is_none (readTurn calm 0 ReadErr oneClient)" by code_simp+
  then obtain b1 b2 where r: "readTurn calm 0 (ReadPacket DisconnectP) oneClient = Some b1"
    "readTurn calm 0 ReadErr oneClient = Some b2" by (cases "readTurn calm 0 (ReadPacket DisconnectP) oneClient";
      cases "readTurn calm 0 ReadErr oneClient"; simp)
  show ?thesis using goodbye_drops_will [OF r] by (simp add: r(1))
qed

text \<open>
  C17. An accepted CONNECT: the CONNACK is written first; the new client is the registered one of
  its identifier, connected, with a session and a reader; whoever held the identifier before is
  closed; and all other identifiers and clients are left alone.
\<close>

theorem connect_takes_over:
  assumes "reachable (NewBroker bid cport router workers auth bridge metrics) b" "workers < 2 ^ 64" "metricsOn b"
    and "validateConnect env msg = Accepted" "writeOk env (length (trace b))"
    and "snd (brokerConnectAuth env (ClientIdentifier msg) (Username msg) (Password msg) (b\<lparr>connNext := connNext b + 1\<rparr>))"
    and "b' = handleConnection env CLIENT (Some (ConnectP msg)) b" "cid = ClientIdentifier msg" "c = cnext b"
  shows "map_of (clients b') = (map_of (clients b))(cid \<mapsto> c)
    \<and> ctyp (cheap b' c) = CLIENT \<and> clientID (cheap b' c) = cid \<and> status (cheap b' c) = Connected
    \<and> conn (cheap b' c) = Some (connNext b) \<and> csession (cheap b' c) \<noteq> None \<and> reading (cheap b' c)
    \<and> (\<forall>old. map_of (clients b) cid = Some old \<longrightarrow> status (cheap b' old) = Disconnected)
    \<and> (\<forall>d < c. map_of (clients b) cid = Some d \<or> same_core (cheap b d) (cheap b' d))
    \<and> (\<exists>es. trace b' = trace b @ Wrote (connNext b) (ConnackP (CleanSession msg) Accepted) True # es)"
proof -
  let ?b0 = "b\<lparr>connNext := connNext b + 1\<rparr>"
  obtain b1 ok where a: "brokerConnectAuth env (ClientIdentifier msg) (Username msg) (Password msg) ?b0 = (b1, ok)"
    by (cases "brokerConnectAuth env (ClientIdentifier msg) (Username msg) (Password msg) ?b0")
  have ok: "ok" using assms(6) a by simp
  define b2 where "b2 = emit (Wrote (connNext b) (ConnackP (CleanSession msg) Accepted) True) b1"
  obtain v where b1: "b1 = ?b0\<lparr>bauth := v\<rparr>" using connectAuth_eq [OF a] by blast
  have b: "binv {} b" using reachable_binv [OF assms(1,2)] .
  then have inv: "binv {} b2" "metricsOn b2" using assms(3) by (simp_all add: b2_def b1) (simp add: emit_def)
  have b2: "clients b2 = clients b" "cheap b2 = cheap b" "cnext b2 = cnext b"
    "trace b2 = trace b @ [Wrote (connNext b) (ConnackP (CleanSession msg) Accepted) True]"
    by (simp_all add: b2_def b1 emit_def)
  have "rawWrite env (connNext b) (ConnackP (CleanSession msg) Accepted) b1 = (b2, False)"
    using assms(5) by (simp add: rawWrite_def b2_def Let_def b1)
  then have "b' = acceptClient env CLIENT (connNext b) msg b2"
    using assms(4) a ok by (simp add: assms(7) handleConnection_def Let_def)
  with acceptClient_client [OF inv, where env = env and k = "connNext b" and msg = msg] show ?thesis
    by (auto simp: b2 assms(8,9))
qed

lemma connect_takes_over_witness:
  "map_of (clients (handleConnection calm CLIENT (Some (ConnectP hello)) subscribed1)) ''x'' = Some (cnext subscribed1)
   \<and> status (cheap (handleConnection calm CLIENT (Some (ConnectP hello)) subscribed1) 0) = Disconnected"
proof -
  have m: "metricsOn subscribed1" and a: "snd (brokerConnectAuth calm (ClientIdentifier hello) (Username hello) (Password hello)
       (subscribed1\<lparr>connNext := connNext subscribed1 + 1\<rparr>))" by code_simp+
  have v: "validateConnect calm hello = Accepted" "writeOk calm (length (trace subscribed1))"
    by (simp_all add: calm_def Accepted_def)
  have "ClientIdentifier hello = ''x''" "map_of (clients subscribed1) ''x'' = Some 0"
    by (simp_all add: hello_def subscribed_client)
  then show ?thesis
    using connect_takes_over [OF reach_new(3) _ m v a refl refl refl] by simp
qed

text \<open>
  A refused CONNECT, by the packet library's verdict or by the authorisation, is answered with
  its return code and nothing else happens: no client, no session, no registry entry; only the
  plugin's own state may have changed.
\<close>

theorem refused_connect:
  assumes "refused = (if validateConnect env msg \<noteq> Accepted then Some (validateConnect env msg)
      else if ty = CLIENT \<and> \<not> snd (brokerConnectAuth env (ClientIdentifier msg) (Username msg) (Password msg)
               (b\<lparr>connNext := connNext b + 1\<rparr>)) then Some ErrRefusedNotAuthorised else None)"
    and "refused = Some code"
  shows "\<exists>a ok. handleConnection env ty (Some (ConnectP msg)) b
    = b\<lparr>connNext := connNext b + 1, bauth := a, trace := trace b @ [Wrote (connNext b) (ConnackP (CleanSession msg) code) ok]\<rparr>"
proof (cases "validateConnect env msg = Accepted")
  case False
  then have "code = validateConnect env msg" using assms by simp
  with False show ?thesis
    by (intro exI [of _ "bauth b"] exI [of _ "writeOk env (length (trace b))"])
      (simp add: handleConnection_def rawWrite_def emit_def Let_def)
next
  case True
  let ?b0 = "b\<lparr>connNext := connNext b + 1\<rparr>"
  obtain b1 ok where a: "brokerConnectAuth env (ClientIdentifier msg) (Username msg) (Password msg) ?b0 = (b1, ok)"
    by (cases "brokerConnectAuth env (ClientIdentifier msg) (Username msg) (Password msg) ?b0")
  obtain v where b1: "b1 = ?b0\<lparr>bauth := v\<rparr>" using connectAuth_eq [OF a] by blast
  have "ty = CLIENT" "\<not> ok" "code = ErrRefusedNotAuthorised" using True assms a by (auto split: if_splits)
  with True a show ?thesis
    by (intro exI [of _ v] exI [of _ "writeOk env (length (trace b))"])
      (simp add: handleConnection_def rawWrite_def emit_def Let_def b1)
qed

lemma refused_connect_witness:
  "\<exists>a ok. handleConnection (calm\<lparr>validateConnect := (\<lambda>_. 2)\<rparr>) CLIENT (Some (ConnectP hello)) quietBroker
    = quietBroker\<lparr>connNext := connNext quietBroker + 1, bauth := a,
        trace := trace quietBroker @ [Wrote (connNext quietBroker) (ConnackP (CleanSession hello) 2) ok]\<rparr>"
  by (rule refused_connect [OF refl]) (simp add: Accepted_def)

end
