(* ===== verification/Qos_Frame.thy ===== *)
theory Qos_Frame
  imports Life_Laws
begin

text \<open>
  What every operation keeps of the delivery guarantees: the tables of awaited releases, the messages
  in flight and the retry timers. An operation is \<open>steady\<close> when it releases no awaited id, takes no
  message out of flight, and leaves no message in flight to a connected client without a timer. The
  exceptions are the acknowledgements, which a client sends for itself.
\<close>

section \<open>The frame\<close>

definition armed :: "client \<Rightarrow> bool" where
  "armed x = (inflight x = [] \<or> retryTimer x \<noteq> None \<or> conn x = None)"

text \<open>What is true of every client. The bound on awaited releases is never set: there is none.\<close>

definition qos_ok :: "client \<Rightarrow> bool" where
  "qos_ok x = (distinct_keys (awaitingRel x) \<and> maxAwaitingRel x = 0 \<and> armed x)"

definition qos_keeps :: "client \<Rightarrow> client \<Rightarrow> bool" where
  "qos_keeps x y =
     (awaitingRel y = awaitingRel x \<and> maxAwaitingRel y = maxAwaitingRel x
      \<and> (\<forall>i. flying x i \<noteq> None \<longrightarrow> flying y i \<noteq> None) \<and> (qos_ok x \<longrightarrow> qos_ok y))"

lemma qos_keeps_refl [simp]: "qos_keeps x x"
  by (simp add: qos_keeps_def)

lemma qos_keeps_trans: "qos_keeps x y \<Longrightarrow> qos_keeps y z \<Longrightarrow> qos_keeps x z"
  by (auto simp: qos_keeps_def)

lemma qos_keeps_other:
  "inflight y = inflight x \<Longrightarrow> retryTimer y = retryTimer x \<Longrightarrow> conn y = conn x \<or> conn y = None \<Longrightarrow>
   awaitingRel y = awaitingRel x \<Longrightarrow> maxAwaitingRel y = maxAwaitingRel x \<Longrightarrow> qos_keeps x y"
  by (auto simp: qos_keeps_def qos_ok_def armed_def flying_def)

definition qframe :: "broker \<Rightarrow> broker \<Rightarrow> bool" where
  "qframe b b' =
     (cnext b \<le> cnext b'
      \<and> (\<forall>d < cnext b'. if d < cnext b then qos_keeps (cheap b d) (cheap b' d) else qos_ok (cheap b' d)))"

definition steady :: "broker \<Rightarrow> broker \<Rightarrow> bool" where
  "steady b b' = (ready b \<longrightarrow> ready b' \<and> qframe b b')"

lemma qframe_trans:
  assumes "qframe a b" "qframe b c"
  shows "qframe a c"
proof -
  have le: "cnext a \<le> cnext b" "cnext b \<le> cnext c" using assms by (auto simp: qframe_def)
  have "if d < cnext a then qos_keeps (cheap a d) (cheap c d) else qos_ok (cheap c d)" if d: "d < cnext c" for d
  proof -
    have ab: "d < cnext b \<Longrightarrow> if d < cnext a then qos_keeps (cheap a d) (cheap b d) else qos_ok (cheap b d)"
      using assms(1) by (simp add: qframe_def)
    have bc: "if d < cnext b then qos_keeps (cheap b d) (cheap c d) else qos_ok (cheap c d)"
      using assms(2) d by (simp add: qframe_def)
    consider "d < cnext a" | "\<not> d < cnext a" "d < cnext b" | "\<not> d < cnext b" by blast
    then show ?thesis
    proof cases
      case 1
      then show ?thesis using ab bc le qos_keeps_trans by auto
    next
      case 2
      then have "qos_ok (cheap b d)" "qos_keeps (cheap b d) (cheap c d)" using ab bc by auto
      with 2 show ?thesis by (simp add: qos_keeps_def)
    next
      case 3
      then show ?thesis using bc le by auto
    qed
  qed
  with le show ?thesis by (simp add: qframe_def)
qed

lemma steady_refl [simp]: "steady b b"
  by (simp add: steady_def qframe_def)

lemma steady_trans [trans]: "steady a b \<Longrightarrow> steady b c \<Longrightarrow> steady a c"
  using qframe_trans by (auto simp: steady_def)

lemma steady_cheap: "cheap b' = cheap b \<Longrightarrow> cnext b' = cnext b \<Longrightarrow> steady b b'"
  by (simp add: steady_def qframe_def ready_def)

lemma steady_only_trace: "(ready b \<Longrightarrow> only_trace b b') \<Longrightarrow> steady b b'"
  by (auto simp: steady_def ready_only_trace only_trace_same qframe_def)

lemma steady_upd:
  assumes "\<And>x. qos_keeps x (f x) \<and> status (f x) = status x \<and> conn (f x) = conn x"
  shows "steady b (upd c f b)"
  using assms by (simp add: steady_def qframe_def ready_def)

lemma steady_upd_other:
  assumes "\<And>x. inflight (f x) = inflight x \<and> retryTimer (f x) = retryTimer x \<and> conn (f x) = conn x
    \<and> awaitingRel (f x) = awaitingRel x \<and> maxAwaitingRel (f x) = maxAwaitingRel x \<and> status (f x) = status x"
  shows "steady b (upd c f b)"
  using assms by (intro steady_upd) (simp add: qos_keeps_other)

lemma steady_foldl: "(\<And>b x. steady b (f b x)) \<Longrightarrow> steady b (foldl f b xs)"
proof (induction xs arbitrary: b)
  case Nil
  then show ?case by simp
next
  case (Cons x xs)
  then show ?case using steady_trans [of b "f b x" "foldl f (f b x) xs"] by simp
qed

lemma steady_fold_fst: "(\<And>b rcs x. steady b (fst (f (b, rcs) x))) \<Longrightarrow> steady b (fst (foldl f (b, rcs) xs))"
proof (induction xs arbitrary: b rcs)
  case Nil
  then show ?case by simp
next
  case (Cons x xs)
  obtain b1 rcs1 where f: "f (b, rcs) x = (b1, rcs1)" by (cases "f (b, rcs) x")
  have "steady b b1" using Cons.prems [of b rcs x] by (simp add: f)
  moreover have "steady b1 (fst (foldl f (b1, rcs1) xs))" using Cons by blast
  ultimately show ?case using f steady_trans by simp
qed

lemma steady_alloc:
  assumes "allocClient x b = (b', c)" "qos_ok x" "status x \<noteq> Disconnected \<longrightarrow> conn x \<noteq> None"
  shows "steady b b'"
proof -
  have "b' = b\<lparr>cheap := (cheap b)(cnext b := x), cnext := cnext b + 1\<rparr>" using assms(1) by (auto simp: allocClient_def)
  then show ?thesis using assms(2,3) by (auto simp: steady_def qframe_def ready_def)
qed

section \<open>Writing, connecting, closing\<close>

lemma steady_quiet: "quiet w \<Longrightarrow> steady b (fst (w c p b))"
  by (rule steady_only_trace) (rule quietD)

lemma steady_write [simp]: "steady b (fst (writePacket env c p b))"
  by (rule steady_quiet) simp

lemma steady_Broadcast: "quiet w \<Longrightarrow> steady b (BroadcastSubOrUnsubMessage w p b)"
  by (rule steady_only_trace) (rule Broadcast_quiet)

lemma steady_start: "quiet w \<Longrightarrow> steady b (startClient w i c b)"
proof -
  assume w: "quiet w"
  have 1: "steady b (SendConnect w c b)" by (rule steady_only_trace) (rule SendConnect_quiet [OF w])
  have "steady x (SendInfo w c x)" for x by (rule steady_only_trace) (rule SendInfo_quiet [OF w])
  with 1 have "steady b (if i then SendInfo w c (SendConnect w c b) else SendConnect w c b)"
    using steady_trans by auto
  moreover have "steady x (upd c (\<lambda>x. x\<lparr>reading := True, pinging := True\<rparr>) x)" for x
    by (rule steady_upd_other) simp
  ultimately show ?thesis unfolding startClient_def Let_def by (rule steady_trans)
qed

lemma steady_pauses: "steady b (foldl (\<lambda>b d. emit (Slept d) (emit (Dialed a False) b)) b ds)"
  by (rule steady_foldl) (simp add: steady_cheap emit_def)

lemma steady_init:
  "allocClient (initClient ty k i u p ka wl lip rip rid url) b = (b', c) \<Longrightarrow> steady b b'"
  by (erule steady_alloc) (auto simp: initClient_def qos_ok_def armed_def distinct_keys_def)

lemma steady_Discovery: "quiet w \<Longrightarrow> steady b (ConnectToDiscovery env w b)"
proof -
  assume w: "quiet w"
  define b1 where "b1 = foldl (\<lambda>b d. emit (Slept d) (emit (Dialed (routerAddr b) False) b)) b (delays 20 0 (discoveryFails env))"
  define b2 where "b2 = emit (Dialed (routerAddr b1) True) b1"
  define b2' where "b2' = b2\<lparr>connNext := connNext b2 + 1\<rparr>"
  define x where "x = initClient CLUSTER (connNext b2) (brokerId b2) [] [] 60 None (connLocalIP env) (connRemoteIP env) [] []"
  obtain b3 c where a: "allocClient x b2' = (b3, c)" by (cases "allocClient x b2'")
  have "steady b b1" unfolding b1_def by (rule steady_foldl) (simp add: steady_cheap emit_def)
  also have "steady b1 b2'" by (rule steady_cheap) (simp_all add: b2'_def b2_def emit_def)
  also have "steady b2' b3" using a unfolding x_def by (rule steady_init)
  also have "steady b3 (startClient w True c b3)" by (rule steady_start [OF w])
  finally show ?thesis
    unfolding ConnectToDiscovery_def Let_def b1_def [symmetric] b2_def [symmetric] x_def [symmetric] b2'_def [symmetric] a
    by simp
qed

lemma steady_connectRouter: "quiet w \<Longrightarrow> steady b (connectRouter env w rid addr b)"
proof -
  assume w: "quiet w"
  obtain pauses ok where d: "routerDial (dialOk env) 0 0 = (pauses, ok)" by (cases "routerDial (dialOk env) 0 0")
  define b1 where "b1 = emit (Dialed addr ok) (foldl (\<lambda>b d. emit (Slept d) (emit (Dialed addr False) b)) b pauses)"
  define b1' where "b1' = b1\<lparr>connNext := connNext b1 + 1\<rparr>"
  define cid where "cid = uuid env (cnext b1)"
  define x where "x = initClient REMOTE (connNext b1) cid [] [] 60 None (connLocalIP env) (connRemoteIP env) rid addr"
  obtain b2 c where a: "allocClient x b1' = (b2, c)" by (cases "allocClient x b1'")
  define b3 where "b3 = b2\<lparr>remotes := AList.update cid c (remotes b2)\<rparr>"
  have 1: "steady b b1"
    unfolding b1_def by (rule steady_trans [OF steady_pauses steady_cheap]) (simp_all add: emit_def)
  also have "steady b1 b1'" by (rule steady_cheap) (simp_all add: b1'_def)
  also have "steady b1' b2" using a unfolding x_def by (rule steady_init)
  also have "steady b2 b3" by (rule steady_cheap) (simp_all add: b3_def)
  also have "steady b3 (startClient w False c b3)" by (rule steady_start [OF w])
  finally show ?thesis using 1
    unfolding connectRouter_def Let_def d prod.case b1_def [symmetric] cid_def [symmetric] x_def [symmetric]
      b1'_def [symmetric] a b3_def [symmetric]
    by simp
qed

lemma steady_closeNotify: "quiet w \<Longrightarrow> steady b (closeNotify env w c b)"
proof -
  assume w: "quiet w"
  define b0 where "b0 = BroadcastUnSubscribe w (subMap (cheap b c)) b"
  define b1 where "b1 = (if ctyp (cheap b c) = CLIENT
    then OnlineOfflineNotification env w (clientID (cheap b c)) False b0 else b)"
  define b2 where "b2 = (case willMsg (cheap b1 c) of None \<Rightarrow> b1 | Some m \<Rightarrow> PublishMessage w m b1)"
  define b3 where "b3 = (if ctyp (cheap b2 c) = CLUSTER then ConnectToDiscovery env w b2 else b2)"
  have "steady b b0" unfolding b0_def by (rule steady_only_trace) (rule BroadcastUnSubscribe_quiet [OF w])
  moreover have "steady b0 (OnlineOfflineNotification env w i v b0)" for i v
    by (rule steady_only_trace) (rule OnlineOffline_quiet [OF w])
  ultimately have "steady b b1" using steady_trans by (simp add: b1_def)
  also have "steady b1 (PublishMessage w m b1)" for m by (rule steady_only_trace) (rule PublishMessage_quiet [OF w])
  then have "steady b1 b2" by (simp add: b2_def split: option.split)
  also have "steady b2 b3" using steady_Discovery [OF w] by (simp add: b3_def)
  finally have 3: "steady b b3" .
  also have "steady b3 (spawn g b3)" for g by (rule steady_cheap) (simp_all add: spawn_def)
  finally show ?thesis using 3
    unfolding closeNotify_def Let_def b0_def [symmetric] b1_def [symmetric] b2_def [symmetric] b3_def [symmetric]
    by simp
qed

lemma steady_Close [simp]: "steady b (Close env c b)"
proof (cases "ready b \<and> status (cheap b c) \<noteq> Disconnected")
  case True
  then obtain k where k: "conn (cheap b c) = Some k" by (auto simp: ready_def)
  have "qos_keeps (cheap b d) (cheap (closeSelf env c b) d)" for d
    by (auto simp: closeSelf_eqs [OF k] intro: qos_keeps_other)
  then have "qframe b (closeSelf env c b)" by (simp add: qframe_def closeSelf_eqs [OF k])
  then have "steady b (closeSelf env c b)" using True by (simp add: steady_def closeSelf_ready)
  also have "steady (closeSelf env c b) (Close env c b)"
    using True steady_closeNotify [OF quiet_WriterPacket] by (simp add: Close_def)
  finally show ?thesis .
next
  case False
  then show ?thesis by (auto simp: steady_def Close_idle qframe_def)
qed

end
