(* ===== verification/Qos_Steps.thy ===== *)
theory Qos_Steps
  imports Qos_Frame
begin

text \<open>
  The handlers are steady but for acknowledgements, and what a whole step does to a client's table of
  awaited releases: nothing, or one operation of the table, which only the client's own packets and
  the clock can cause.
\<close>

section \<open>Publishing and retrying\<close>

lemma flying_update: "flying (x\<lparr>inflight := AList.update k e (inflight x)\<rparr>) = (flying x)(k \<mapsto> e)"
  by (simp add: flying_def go_map)

lemma keeps_track: "qos_keeps x (ensureRetryTimer n (trackInflight t p x))"
  by (auto simp: qos_keeps_def qos_ok_def armed_def flying_simps ensureRetryTimer_def)
    (auto simp: trackInflight_def flying_def go_map)

lemma steady_publish:
  assumes "quiet w"
  shows "steady b (publish env w r p b)"
proof (cases "ready b")
  case True
  let ?c = "sclient (sheap b r)"
  let ?b1 = "upd ?c (trackInflight (now env) p) b"
  let ?b2 = "fst (w ?c (PublishP p) ?b1)"
  have "delivers b ?b1" by (rule delivers_upd) simp
  then have ready1: "ready ?b1" by (rule ready_delivers [OF True])
  have 2: "only_trace ?b1 ?b2" by (rule quietD [OF assms ready1])
  define b3 where "b3 = upd ?c (ensureRetryTimer retryInterval) ?b2"
  have cheap: "cheap b3 = (cheap b)(?c := ensureRetryTimer retryInterval (trackInflight (now env) p (cheap b ?c)))"
    unfolding b3_def cheap_upd only_trace_same(1) [OF 2] by simp
  have "ready b3" using True by (simp add: ready_def cheap ensureRetryTimer_def trackInflight_def)
  moreover have "cnext b3 = cnext b" using only_trace_same(8) [OF 2] by (simp add: b3_def)
  then have "qframe b b3" by (simp add: qframe_def cheap keeps_track)
  ultimately have "steady b b3" by (simp add: steady_def)
  moreover have "steady b (fst (w ?c (PublishP p) b))" by (rule steady_quiet [OF assms])
  ultimately show ?thesis by (simp add: publish_def Let_def b3_def)
qed (simp add: steady_def)

lemma steady_deliverTo: "quiet w \<Longrightarrow> steady b (fst (deliverTo env w ty p (b, q) s))"
  using steady_publish by (auto simp: deliverTo_def Let_def split: option.split)

lemma steady_ProcessPublishMessage: "quiet w \<Longrightarrow> steady b (ProcessPublishMessage env w c p b)"
proof -
  assume w: "quiet w"
  obtain out err where s: "mtSubscribers (TopicName p) (Qos p) (topicsMgr (retainIn p b)) (foundSubs (cheap b c)) = (out, err)"
    by (cases "mtSubscribers (TopicName p) (Qos p) (topicsMgr (retainIn p b)) (foundSubs (cheap b c))")
  define b2 where "b2 = upd c (\<lambda>x. x\<lparr>foundSubs := out\<rparr>) (retainIn p b)"
  obtain b3 q where f: "foldl (deliverTo env w (ctyp (cheap b c)) p) (b2, []) (fst out) = (b3, q)"
    by (cases "foldl (deliverTo env w (ctyp (cheap b c)) p) (b2, []) (fst out)")
  have "steady b (retainIn p b)" by (rule steady_cheap) simp_all
  also have "steady (retainIn p b) b2" unfolding b2_def by (rule steady_upd_other) simp
  finally have 2: "steady b b2" .
  also have "steady b2 b3"
    using steady_fold_fst [of "deliverTo env w (ctyp (cheap b c)) p" b2 "[]" "fst out"] steady_deliverTo [OF w] by (simp add: f)
  finally have 3: "steady b b3" .
  also have "steady b3 (publish env w r p b3)" for r by (rule steady_publish [OF w])
  finally have "steady b (publish env w r p b3)" for r .
  with 2 3 s f show ?thesis
    by (simp add: ProcessPublishMessage_def retainIn_def [symmetric] b2_def [symmetric] Let_def)
qed

text \<open>
  A round of retries drops nothing, and leaves a timer behind unless there is nothing to retry or
  nobody to send it to.
\<close>

lemma retryElem_flying:
  assumes "ready b" "flying (cheap b d) i \<noteq> None"
  shows "flying (cheap (retryElem env (writePacket env) c b ke) d) i \<noteq> None"
proof -
  have cheap: "cheap (fst (writePacket env c p b)) = cheap b" for p
    using only_trace_same(1) [OF quietD [OF quiet_writePacket assms(1)]] .
  show ?thesis using assms(2)
    by (cases ke) (auto simp: retryElem_def Let_def cheap flying_update flying_simps split: InflightStatus.split)
qed

lemma retryAll_frame:
  assumes "ready b"
  shows "delivers b (foldl (retryElem env (writePacket env) c) b es)
    \<and> (\<forall>d i. flying (cheap b d) i \<noteq> None \<longrightarrow> flying (cheap (foldl (retryElem env (writePacket env) c) b es) d) i \<noteq> None)"
  using assms
proof (induction es arbitrary: b)
  case Nil
  then show ?case by simp
next
  case (Cons e es)
  have d: "delivers b (retryElem env (writePacket env) c b e)" using Cons.prems by (rule retryElem_delivers)
  show ?case
    using Cons.IH [OF ready_delivers [OF Cons.prems d]] retryElem_flying [OF Cons.prems] delivers_trans [OF d] by auto
qed

lemma same_client_max: "same_client x y \<Longrightarrow> maxAwaitingRel y = maxAwaitingRel x"
  by (auto simp: same_client_def)

lemma steady_retry: "steady b (retryDelivery env (writePacket env) c b)"
proof (cases "ready b")
  case True
  define b1 where "b1 = upd c resetRetryTimer b"
  define b2 where "b2 = foldl (retryElem env (writePacket env) c) b1 (inflight (cheap b1 c))"
  define b3 where "b3 = upd c (ensureRetryTimer retryInterval) b2"
  have 1: "delivers b b1" unfolding b1_def by (rule delivers_upd) simp
  note ready1 = ready_delivers [OF True 1]
  note 2 = retryAll_frame [OF ready1, where c = c and es = "inflight (cheap b1 c)" and env = env, folded b2_def]
  have 3: "delivers b2 b3" unfolding b3_def by (rule delivers_upd) simp
  have all: "delivers b b3" using delivers_trans [OF 1 delivers_trans [OF _ 3]] 2 by blast
  have fl: "flying (cheap b d) i \<noteq> None \<Longrightarrow> flying (cheap b3 d) i \<noteq> None" for d i
    using 2 by (auto simp: b3_def b1_def flying_simps)
  have timer: "retryTimer (cheap b3 c) \<noteq> None" by (simp add: b3_def ensureRetryTimer_def)
  have others: "cheap b3 d = cheap b d" if "d \<noteq> c" for d
  proof -
    have "cheap (fst (writePacket env c p x)) d = cheap x d" if "ready x" for p x
      using only_trace_same(1) [OF quietD [OF quiet_writePacket that]] by metis
    then have step: "ready x \<Longrightarrow> cheap (retryElem env (writePacket env) c x e) d = cheap x d" for x e
      using that by (cases e) (auto simp: retryElem_def Let_def split: InflightStatus.split)
    have "ready x \<Longrightarrow> cheap (foldl (retryElem env (writePacket env) c) x es) d = cheap x d" for x es
      by (induction es arbitrary: x) (use step retryElem_delivers ready_delivers in \<open>force+\<close>)
    with ready1 show ?thesis using that by (simp add: b3_def b2_def b1_def)
  qed
  have keep: "qos_keeps (cheap b d) (cheap b3 d)" for d
    using same_clientD(9) [OF delivers_same(18) [OF all]] same_client_max [OF delivers_same(18) [OF all]] fl timer others [of d]
    by (cases "d = c") (auto simp: qos_keeps_def qos_ok_def armed_def)
  then have "steady b b3" using ready_delivers [OF True all] delivers_same(7) [OF all] by (simp add: steady_def qframe_def)
  moreover have "steady b b1" if "conn (cheap b1 c) = None \<or> inflight (cheap b1 c) = []"
  proof -
    have "qos_keeps (cheap b c) (cheap b1 c)" using that
      by (auto simp: b1_def qos_keeps_def qos_ok_def armed_def flying_def resetRetryTimer_def)
    then show ?thesis using ready1 by (simp add: steady_def qframe_def) (simp add: b1_def)
  qed
  ultimately show ?thesis
    by (simp add: retryDelivery_def b1_def [symmetric] b2_def [symmetric] b3_def [symmetric] Let_def)
qed (simp add: steady_def)

section \<open>The handlers\<close>

lemma steady_fields [simp]:
  "steady b (b\<lparr>bauth := a\<rparr>)" "steady b (b\<lparr>nodes := ns\<rparr>)" "steady b (b\<lparr>goroutines := gs\<rparr>)" "steady b (b\<lparr>connNext := k\<rparr>)"
  "steady b (crash b)" "steady b (emit e b)" "steady b (spawn g b)" "steady b (bridgePublish el b)" "steady b (b\<lparr>routes := rs\<rparr>)"
  "steady b (b\<lparr>clients := cs\<rparr>)" "steady b (b\<lparr>topicsMgr := tm\<rparr>)" "steady b (b\<lparr>sessionMgr := sm\<rparr>)" "steady b (b\<lparr>wpool := wp\<rparr>)"
  "steady b (b\<lparr>clusterPool := cp\<rparr>)" "steady b (onClientSession c f b)" "steady b (counting z b)"
  by (rule steady_cheap; simp add: crash_def emit_def spawn_def bridgePublish_def onClientSession_def split: option.split)+

lemma steady_auth: "brokerTopicAuth env act x t b = (b', ok) \<Longrightarrow> cheap b' = cheap b \<and> cnext b' = cnext b \<and> steady b b'"
  by (drule topicAuth_eq) (metis broker.surjective broker.update_convs(12) broker.select_convs(15,16) steady_fields(1))

lemma steady_write': "writePacket env c p b = (b', err) \<Longrightarrow> steady b b'"
  by (metis fst_conv steady_write)

lemmas steady_PPM = steady_ProcessPublishMessage [OF quiet_writePacket]

lemma steady_ack_then_publish:
  "writePacket env c ack b = (b1, err) \<Longrightarrow> steady b (if err then b1 else ProcessPublishMessage env (writePacket env) c p b1)"
  using steady_write' [of env c ack b b1 err] steady_trans [OF _ steady_PPM] by simp

lemma steady_processRouterPublish: "steady b (processRouterPublish env c p b)"
  using steady_ack_then_publish [of env c "PubackP (MessageID p)" b] steady_PPM
  by (auto simp: processRouterPublish_def split: prod.split)

lemma steady_connectNode: "steady b (connectNode env b kv)"
proof -
  have "steady b (fst (CheckRemoteExist rid url b))" for rid url
    by (auto simp: CheckRemoteExist_def intro: steady_upd_other split: option.split)
  then show ?thesis
    using steady_trans [OF _ steady_connectRouter [OF quiet_writePacket]]
    by (auto simp: connectNode_def split: prod.splits jvalue.split) (metis fst_conv)+
qed

lemma steady_ProcessInfo: "steady b (ProcessInfo env c p b)"
  using steady_trans [OF steady_fields(2) steady_foldl [OF steady_connectNode]]
  by (auto simp: ProcessInfo_def split: option.split)

lemma steady_enterSub: "enterSub c topic q sh grp b = (b', r, res) \<Longrightarrow> steady b b'"
  by (drule enterSub_eqs(2)) (simp add: steady_cheap allocSub_def)

lemma steady_dropSub: "steady b (dropSub c t r b)"
  unfolding dropSub_def by (rule steady_trans [OF steady_fields(11)]) (rule steady_upd_other, simp)

lemma steady_clientSubscribeTopic: "steady b (fst (clientSubscribeTopic env c qoss (b, rcs) (i, t)))"
proof -
  obtain b1 ok where auth: "brokerTopicAuth env aSUB (cheap b c) t b = (b1, ok)"
    by (cases "brokerTopicAuth env aSUB (cheap b c) t b")
  define b2 where "b2 = bridgePublish (element (cheap b1 c) bSubscribe (now env) [] t) b1"
  define b3 where "b3 = (case map_of (subMap (cheap b2 c)) t of None \<Rightarrow> b2 | Some old \<Rightarrow> dropSub c t old b2)"
  have 1: "steady b b1" using steady_auth [OF auth] by blast
  also have "steady b1 b2" by (simp add: b2_def)
  finally have 2: "steady b b2" .
  also have "steady b2 b3" by (simp add: b3_def steady_dropSub split: option.split)
  finally have 3: "steady b b3" .
  have entered: "steady b3 (fst (case enterSub c topic q sh grp b3 of
        (b4, r, None) \<Rightarrow> (b4, rcs @ [QosFailure])
      | (b4, r, Some rq) \<Rightarrow>
          (upd c (\<lambda>x. x\<lparr>rmsgs := fst (mtRetained topic (topicsMgr b4) (rmsgs x))\<rparr>)
             (onClientSession c (\<lambda>s. fst (AddTopic t q s))
               (upd c (\<lambda>x. x\<lparr>subMap := AList.update t r (subMap x)\<rparr>) b4)),
           rcs @ [rq])))" for topic q sh grp
  proof -
    obtain b4 r res where e: "enterSub c topic q sh grp b3 = (b4, r, res)" by (cases "enterSub c topic q sh grp b3") auto
    define b5 where "b5 = upd c (\<lambda>x. x\<lparr>subMap := AList.update t r (subMap x)\<rparr>) b4"
    have 4: "steady b3 b4" using e by (rule steady_enterSub)
    also have "steady b4 b5" unfolding b5_def by (rule steady_upd_other) simp
    also have "steady b5 (onClientSession c (\<lambda>s. fst (AddTopic t q s)) b5)" by simp
    also have "steady x (upd c (\<lambda>x. x\<lparr>rmsgs := g x\<rparr>) x)" for x g by (rule steady_upd_other) simp
    finally have "steady b3 (upd c (\<lambda>x. x\<lparr>rmsgs := g x\<rparr>) (onClientSession c (\<lambda>s. fst (AddTopic t q s)) b5))" for g .
    with 4 show ?thesis by (simp add: e b5_def split: option.split)
  qed
  have "steady b (crash b3)" using 3 by (rule steady_trans) simp
  then show ?thesis using 1 2 steady_trans [OF 3 entered]
    by (auto simp: clientSubscribeTopic_def auth b2_def [symmetric] b3_def [symmetric] Let_def split: option.split)
qed

lemma steady_routerSubscribeTopic: "steady b (fst (routerSubscribeTopic c qoss (b, rcs) (i, t)))"
proof -
  have "steady b (fst (case enterSub c topic q sh grp b of
        (b1, r, None) \<Rightarrow> (b1, rcs @ [QosFailure])
      | (b1, r, Some rq) \<Rightarrow>
          (upd c (\<lambda>x. x\<lparr>subMap := AList.update t r (subMap x), routeSubMap := addSubMap topic (routeSubMap x)\<rparr>) b1,
           rcs @ [rq])))" for topic q sh grp
  proof -
    obtain b1 r res where e: "enterSub c topic q sh grp b = (b1, r, res)" by (cases "enterSub c topic q sh grp b") auto
    have 1: "steady b b1" using e by (rule steady_enterSub)
    also have "steady b1 (upd c (\<lambda>x. x\<lparr>subMap := AList.update t r (subMap x), routeSubMap := addSubMap topic (routeSubMap x)\<rparr>) b1)"
      by (rule steady_upd_other) simp
    finally show ?thesis using 1 by (simp add: e split: option.split)
  qed
  then show ?thesis by (auto simp: routerSubscribeTopic_def Let_def split: option.split)
qed

lemma steady_fold_pairs:
  "(\<And>b rcs i t. steady b (fst (f (b, rcs) (i, t)))) \<Longrightarrow> steady b (fst (foldl f (b, rcs) xs))"
  by (rule steady_fold_fst) (metis surj_pair)

lemma steady_ProcessSubscribe: "steady b (ProcessSubscribe env c mid topics qoss b)"
proof -
  obtain b1 rcs where f: "foldl (clientSubscribeTopic env c qoss) (b, []) (enumerate 0 topics) = (b1, rcs)"
    by (cases "foldl (clientSubscribeTopic env c qoss) (b, []) (enumerate 0 topics)")
  obtain b2 err where w: "writePacket env c (SubackP mid rcs) b1 = (b2, err)" by (cases "writePacket env c (SubackP mid rcs) b1")
  have "steady b b1"
    using steady_fold_pairs [of "clientSubscribeTopic env c qoss" b "[]" "enumerate 0 topics"] steady_clientSubscribeTopic f by simp
  also have "steady b1 b2" using w by (rule steady_write')
  finally have 2: "steady b b2" .
  also have "steady b2 (spawn g b2)" for g by simp
  also have "steady x (foldl (\<lambda>b rm. fst (writePacket env c (PublishP rm) b)) x rms)" for x rms by (rule steady_foldl) simp
  finally have cl: "steady b (processClientSubscribe env c mid topics qoss b)"
    using 2 by (simp add: processClientSubscribe_def f w)
  obtain b1' rcs' where f': "foldl (routerSubscribeTopic c qoss) (b, []) (enumerate 0 topics) = (b1', rcs')"
    by (cases "foldl (routerSubscribeTopic c qoss) (b, []) (enumerate 0 topics)")
  have "steady b b1'"
    using steady_fold_pairs [of "routerSubscribeTopic c qoss" b "[]" "enumerate 0 topics"] steady_routerSubscribeTopic f' by simp
  then have "steady b (processRouterSubscribe env c mid topics qoss b)"
    using steady_trans [OF _ steady_write] by (simp add: processRouterSubscribe_def f')
  with cl show ?thesis by (simp add: ProcessSubscribe_def split: ctype.split)
qed

lemma steady_ProcessUnSubscribe: "steady b (ProcessUnSubscribe env c mid topics b)"
proof -
  have "steady b (routerUnsubscribeTopic c b t)" for b t
  proof -
    obtain m n where d: "delSubMap t (routeSubMap (cheap b c)) = (m, n)" by (cases "delSubMap t (routeSubMap (cheap b c))")
    have "steady b (upd c (\<lambda>x. x\<lparr>routeSubMap := m\<rparr>) b)" by (rule steady_upd_other) simp
    then show ?thesis
      using steady_trans [OF _ steady_dropSub] by (simp add: routerUnsubscribeTopic_def d Let_def split: option.split)
  qed
  then have r: "steady b (foldl (routerUnsubscribeTopic c) b topics)" by (rule steady_foldl)
  have "steady b (clientUnsubscribeTopic env c b t)" for b t
  proof -
    have "steady b (dropSub c t r (onClientSession c f (bridgePublish e b)))" for r f e
      by (rule steady_trans [OF steady_trans [OF steady_fields(8) steady_fields(15)] steady_dropSub])
    then show ?thesis by (simp add: clientUnsubscribeTopic_def Let_def split: option.split)
  qed
  then have k: "steady b (foldl (clientUnsubscribeTopic env c) b topics)" by (rule steady_foldl)
  obtain b1 err where w: "writePacket env c (UnsubackP mid) (foldl (clientUnsubscribeTopic env c) b topics) = (b1, err)"
    by (cases "writePacket env c (UnsubackP mid) (foldl (clientUnsubscribeTopic env c) b topics)")
  have 1: "steady b b1" using k steady_write' [OF w] by (rule steady_trans)
  have "steady b (BroadcastSubOrUnsubMessage (writePacket env) p b1)" for p
    using steady_trans [OF 1 steady_Broadcast [OF quiet_writePacket]] .
  with 1 r show ?thesis
    using steady_trans [OF r steady_write]
    by (simp add: ProcessUnSubscribe_def processRouterUnSubscribe_def processClientUnSubscribe_def w split: ctype.split)
qed

section \<open>What a client's own packets do\<close>

definition ownAct :: "env \<Rightarrow> controlPacket \<Rightarrow> client \<Rightarrow> client" where
  "ownAct env p x =
     (case p of
        PublishP q \<Rightarrow>
          if ctyp x = CLIENT \<and> Qos q = QosExactlyOnce then fst (registerPublishPacketId (now env) (MessageID q) x) else x
      | PubackP i \<Rightarrow> onPuback i x
      | PubrelP i \<Rightarrow> fst (pubRel i x)
      | PubcompP i \<Rightarrow> onPubcomp i x
      | _ \<Rightarrow> x)"

text \<open>A change of one client's tables, by \<open>g\<close>, with a steady rest; or all steady.\<close>

definition acts :: "cref \<Rightarrow> (client \<Rightarrow> client) \<Rightarrow> broker \<Rightarrow> broker \<Rightarrow> bool" where
  "acts c g b b' = (steady b b' \<or> steady (upd c g b) b')"

lemma acts_steady: "steady b b' \<Longrightarrow> acts c g b b'"
  by (simp add: acts_def)

lemma acts_first: "cheap a = cheap b \<Longrightarrow> cnext a = cnext b \<Longrightarrow> acts c g b b' \<Longrightarrow> acts c g a b'"
proof -
  assume "cheap a = cheap b" "cnext a = cnext b"
  then have "steady a b" "steady (upd c g a) (upd c g b)" by (auto intro!: steady_cheap)
  then show "acts c g b b' \<Longrightarrow> acts c g a b'" using steady_trans by (auto simp: acts_def)
qed

lemma ProcessPublish_acts: "acts c (ownAct env (PublishP p)) b (ProcessPublish env c p b)"
proof (cases "ctyp (cheap b c) = CLIENT")
  case False
  have "steady b (processRemotePublish env c p b)" by (simp add: processRemotePublish_def steady_ProcessInfo)
  then have "steady b (ProcessPublish env c p b)"
    using False by (cases "ctyp (cheap b c)") (simp_all add: ProcessPublish_def steady_processRouterPublish)
  then show ?thesis by (rule acts_steady)
next
  case True
  obtain b1 ok where auth: "brokerTopicAuth env aPUB (cheap b c) (TopicName p) b = (b1, ok)"
    by (cases "brokerTopicAuth env aPUB (cheap b c) (TopicName p) b")
  define b2 where "b2 = bridgePublish (element (cheap b1 c) bPublish (now env) (Payload p) (TopicName p)) b1"
  have same: "cheap b2 = cheap b" "cnext b2 = cnext b"
    using steady_auth [OF auth] only_trace_same [OF only_trace_bridge] by (simp_all add: b2_def)
  have 1: "steady b b1" using steady_auth [OF auth] by blast
  have 2: "steady b b2" using 1 by (rule steady_trans) (simp add: b2_def)
  obtain x e where reg: "registerPublishPacketId (now env) (MessageID p) (cheap b2 c) = (x, e)"
    by (cases "registerPublishPacketId (now env) (MessageID p) (cheap b2 c)")
  obtain b3 err where w: "writePacket env c (PubackP (MessageID p)) b2 = (b3, err)"
    by (cases "writePacket env c (PubackP (MessageID p)) b2")
  obtain b4 err' where w': "writePacket env c (PubrecP (MessageID p)) (upd c (\<lambda>_. x) b2) = (b4, err')"
    by (cases "writePacket env c (PubrecP (MessageID p)) (upd c (\<lambda>_. x) b2)")
  have q0: "steady b (ProcessPublishMessage env (writePacket env) c p b2)" by (rule steady_trans [OF 2 steady_PPM])
  have q1: "steady b (if err then b3 else ProcessPublishMessage env (writePacket env) c p b3)"
    by (rule steady_trans [OF 2 steady_ack_then_publish [OF w]])
  have q2: "steady (upd c (ownAct env (PublishP p)) b) (if err' then b4 else ProcessPublishMessage env (writePacket env) c p b4)"
    if "Qos p = QosExactlyOnce"
  proof -
    have "ownAct env (PublishP p) (cheap b c) = x" using that True reg by (simp add: ownAct_def same)
    then have "steady (upd c (ownAct env (PublishP p)) b) (upd c (\<lambda>_. x) b2)" by (intro steady_cheap) (simp_all add: same)
    then show ?thesis by (rule steady_trans) (rule steady_ack_then_publish [OF w'])
  qed
  have res: "ProcessPublish env c p b =
    (if \<not> ok then b1
     else if Qos p = QosAtMostOnce then ProcessPublishMessage env (writePacket env) c p b2
     else if Qos p = QosAtLeastOnce then (if err then b3 else ProcessPublishMessage env (writePacket env) c p b3)
     else if Qos p = QosExactlyOnce then
       (case e of Some _ \<Rightarrow> b2 | None \<Rightarrow> if err' then b4 else ProcessPublishMessage env (writePacket env) c p b4)
     else b2)"
    using True
    by (simp add: ProcessPublish_def processClientPublish_def auth b2_def [symmetric] w w' reg Let_def split: option.split)
  show ?thesis
  proof (cases "ok \<and> Qos p = QosExactlyOnce \<and> e = None")
    case True
    then have "Qos p \<noteq> QosAtMostOnce" "Qos p \<noteq> QosAtLeastOnce" by (simp_all add: qos_defs)
    with True q2 show ?thesis by (simp add: res acts_def del: if_split)
  next
    case False
    then have "steady b (ProcessPublish env c p b)"
      unfolding res using 1 2 q0 q1
      by (cases e; cases ok; cases "Qos p = QosAtMostOnce"; cases "Qos p = QosAtLeastOnce"; cases "Qos p = QosExactlyOnce"; simp)
    then show ?thesis by (rule acts_steady)
  qed
qed

lemma keeps_pubrec: "qos_keeps x (onPubrec t i x)"
proof -
  have "flying x j \<noteq> None \<Longrightarrow> flying (onPubrec t i x) j \<noteq> None" for j by (auto simp: flying_pubrec)
  moreover have "inflight (onPubrec t i x) = [] \<longleftrightarrow> inflight x = []"
    by (auto simp: onPubrec_def go_map split: option.split)
  moreover have "retryTimer (onPubrec t i x) = retryTimer x" "conn (onPubrec t i x) = conn x"
    "awaitingRel (onPubrec t i x) = awaitingRel x" "maxAwaitingRel (onPubrec t i x) = maxAwaitingRel x"
    by (simp_all add: onPubrec_def split: option.split)
  ultimately show ?thesis by (simp add: qos_keeps_def qos_ok_def armed_def)
qed

lemma processPacket_acts: "acts c (ownAct env p) b (processPacket env c p b)"
proof (cases p)
  case (PublishP q)
  then show ?thesis using ProcessPublish_acts by (simp add: processPacket_def)
next
  case (PubrecP mid)
  have "steady b (upd c (onPubrec (now env) mid) b)"
    by (rule steady_upd) (use keeps_pubrec in \<open>simp add: onPubrec_def split: option.splits\<close>)
  then show ?thesis
    by (intro acts_steady) (auto simp: processPacket_def PubrecP intro: steady_trans)
next
  case (PubrelP mid)
  have "ownAct env (PubrelP mid) = (\<lambda>x. fst (pubRel mid x))" by (simp add: ownAct_def fun_eq_iff)
  with PubrelP show ?thesis by (simp add: processPacket_def acts_def)
next
  case (PubackP mid)
  have "ownAct env (PubackP mid) = onPuback mid" by (simp add: ownAct_def fun_eq_iff)
  with PubackP show ?thesis by (simp add: processPacket_def acts_def)
next
  case (PubcompP mid)
  have "ownAct env (PubcompP mid) = onPubcomp mid" by (simp add: ownAct_def fun_eq_iff)
  with PubcompP show ?thesis by (simp add: processPacket_def acts_def)
qed (auto simp: processPacket_def steady_ProcessSubscribe steady_ProcessUnSubscribe ProcessPing_def intro: acts_steady)

lemma ProcessMessage_acts: "acts (mclient m) (ownAct env (mpacket m)) b (ProcessMessage env m b)"
  using processPacket_acts by (auto simp: ProcessMessage_def Let_def acts_def split: option.split)

end
