(* ===== verification/Qos_Inv.thy ===== *)
theory Qos_Inv
  imports Qos_Steps
begin

text \<open>
  Whole steps: every event is steady but for one operation on the tables of one client, and what
  follows for all reachable states and along every run.
\<close>

section \<open>Connections\<close>

lemma steady_getSession: "getSession env c req b = (b', err) \<Longrightarrow> steady b b'"
proof -
  assume "getSession env c req b = (b', err)"
  then obtain s mp where "b' = upd c (\<lambda>x. x\<lparr>csession := Some s\<rparr>) (b\<lparr>sessionMgr := mp\<rparr>)" using getSession_eq by blast
  moreover have "steady (b\<lparr>sessionMgr := mp\<rparr>) (upd c (\<lambda>x. x\<lparr>csession := Some s\<rparr>) (b\<lparr>sessionMgr := mp\<rparr>))"
    by (rule steady_upd_other) simp
  ultimately show ?thesis using steady_trans [OF steady_fields(12)] by simp
qed

lemma steady_connectAuth: "brokerConnectAuth env i u p b = (b', ok) \<Longrightarrow> steady b b'"
proof -
  assume "brokerConnectAuth env i u p b = (b', ok)"
  then obtain a where "b' = b\<lparr>bauth := a\<rparr>" using connectAuth_eq by blast
  then show ?thesis by simp
qed

lemma steady_register: "steady b (register env msg c b)"
proof -
  define cid where "cid = clientID (cheap b c)"
  define b1 where "b1 = (case map_of (clients b) cid of None \<Rightarrow> b | Some old \<Rightarrow> Close env old b)"
  define b2 where "b2 = b1\<lparr>clients := AList.update cid c (clients b1)\<rparr>"
  define b3 where "b3 = OnlineOfflineNotification env (writePacket env) cid True b2"
  define a1 where "a1 = (case map_of (routes b) cid of None \<Rightarrow> b | Some old \<Rightarrow> Close env old b)"
  have "steady b b1" by (simp add: b1_def split: option.split)
  also have "steady b1 b2" by (simp add: b2_def)
  also have "steady b2 b3" unfolding b3_def by (rule steady_only_trace) (simp add: OnlineOffline_quiet)
  also have "steady b3 (bridgePublish el b3)" for el by simp
  finally have "steady b (bridgePublish el b3)" for el .
  moreover have "steady b a1" by (simp add: a1_def split: option.split)
  then have "steady b (a1\<lparr>routes := rs\<rparr>)" for rs by (rule steady_trans) simp
  ultimately show ?thesis
    unfolding register_def Let_def cid_def [symmetric] b1_def [symmetric] b2_def [symmetric] b3_def [symmetric]
      a1_def [symmetric]
    by (simp split: ctype.split)
qed

lemma steady_acceptClient: "steady b (acceptClient env ty k msg b)"
proof -
  let ?x = "initClient ty k (ClientIdentifier msg) (Username msg) (Password msg) (Keepalive msg) (willOf msg)
    (connLocalIP env) (connRemoteIP env) [] []"
  obtain b1 c where a: "allocClient ?x b = (b1, c)" by (cases "allocClient ?x b")
  obtain b2 err where s: "getSession env c msg b1 = (b2, err)" by (cases "getSession env c msg b1")
  define b3 where "b3 = register env msg c b2"
  have "steady b b1" using a by (rule steady_init)
  also have "steady b1 b2" using s by (rule steady_getSession)
  finally have 2: "steady b b2" .
  also have "steady b2 b3" unfolding b3_def by (rule steady_register)
  finally have 3: "steady b b3" .
  also have "steady b3 (counting z b3)" for z by simp
  also have "steady x (upd c (\<lambda>x. x\<lparr>reading := True\<rparr>) x)" for x by (rule steady_upd_other) simp
  finally have "steady b (upd c (\<lambda>x. x\<lparr>reading := True\<rparr>) (counting z b3))" for z .
  moreover have "steady b (crash b3)" using 3 by (rule steady_trans) simp
  ultimately show ?thesis using 2 a s by (simp add: acceptClient_def b3_def [symmetric] Let_def)
qed

lemma steady_rawWrite: "rawWrite env k p b = (b', err) \<Longrightarrow> steady b b'"
  by (auto simp: rawWrite_def Let_def)

lemma steady_handleConnection: "steady b (handleConnection env ty packet b)"
proof -
  define b0 where "b0 = b\<lparr>connNext := connNext b + 1\<rparr>"
  have 0: "steady b b0" by (simp add: b0_def)
  have "steady b (handleConnection env ty (Some (ConnectP msg)) b)" for msg
  proof -
    obtain b1 ok where a: "(if ty = CLIENT
        then brokerConnectAuth env (ClientIdentifier msg) (Username msg) (Password msg) b0 else (b0, True)) = (b1, ok)"
      by (cases "if ty = CLIENT
        then brokerConnectAuth env (ClientIdentifier msg) (Username msg) (Password msg) b0 else (b0, True)")
    obtain b2 err where w: "rawWrite env (connNext b) (ConnackP (CleanSession msg) Accepted) b1 = (b2, err)"
      by (cases "rawWrite env (connNext b) (ConnackP (CleanSession msg) Accepted) b1")
    have "steady b0 b1"
    proof (cases "ty = CLIENT")
      case True
      with a have "brokerConnectAuth env (ClientIdentifier msg) (Username msg) (Password msg) b0 = (b1, ok)" by simp
      then show ?thesis by (rule steady_connectAuth)
    next
      case False
      with a show ?thesis by simp
    qed
    with 0 have 1: "steady b b1" by (rule steady_trans)
    then have 2: "steady b b2" using steady_rawWrite [OF w] by (rule steady_trans)
    have raw: "steady x (fst (rawWrite env k p x))" for x k p using steady_rawWrite by (metis prod.collapse)
    have "steady b (fst (rawWrite env k p b0))" "steady b (fst (rawWrite env k p b1))" for k p
      using steady_trans [OF 0 raw] steady_trans [OF 1 raw] by auto
    with 2 steady_trans [OF 2 steady_acceptClient] show ?thesis
      unfolding handleConnection_def Let_def b0_def [symmetric] by (simp add: a w)
  qed
  then show ?thesis using 0
    by (cases packet) (auto simp: handleConnection_def b0_def [symmetric] Let_def split: controlPacket.split)
qed

lemma steady_SubmitWork: "SubmitWork env cid m b = Some b' \<Longrightarrow> steady b b'"
  by (auto simp: SubmitWork_def Let_def intro: steady_cheap split: if_splits)

lemma steady_readTurn: "readTurn env c res b = Some b' \<Longrightarrow> steady b b'"
proof -
  assume r: "readTurn env c res b = Some b'"
  have off: "steady x (upd c (\<lambda>x. x\<lparr>reading := False\<rparr>) x)" for x by (rule steady_upd_other) simp
  then have stop: "steady x (stopReading c x)" "steady x (checkContext c x)" for x
    using steady_trans [OF off steady_fields(16)] by (simp_all add: stopReading_def checkContext_def Let_def)
  have "steady b (upd c (\<lambda>x. x\<lparr>willMsg := None, cancelled := True\<rparr>) b)" by (rule steady_upd_other) simp
  with r show ?thesis
    by (auto simp: readTurn_def Let_def split: read_result.splits if_splits
        intro: steady_trans [OF steady_SubmitWork stop(1)] steady_trans [OF steady_SubmitWork stop(2)]
          steady_trans [OF _ steady_trans [OF steady_SubmitWork stop(2)]])
qed

section \<open>Steps\<close>

text \<open>The one operation on a client's tables an event can cause.\<close>

definition ownStep :: "env \<Rightarrow> event \<Rightarrow> broker \<Rightarrow> (cref \<times> (client \<Rightarrow> client)) option" where
  "ownStep env e b =
     (case e of
        EvWork i \<Rightarrow> map_option (\<lambda>(m, p). (mclient m, ownAct env (mpacket m))) (takeTask i (wpool b))
      | EvCluster \<Rightarrow> (case clusterPool b of [] \<Rightarrow> None | m # ms \<Rightarrow> Some (mclient m, ownAct env (mpacket m)))
      | EvExpireRel c \<Rightarrow> Some (c, expireAwaitingRel (now env))
      | _ \<Rightarrow> None)"

lemma handleEvent_acts:
  assumes "handleEvent env e b = Some b'"
  shows "steady b b' \<or> (\<exists>c g. ownStep env e b = Some (c, g) \<and> steady (upd c g b) b')"
proof (cases e)
  case (EvWork i)
  then obtain m p where t: "takeTask i (wpool b) = Some (m, p)" "b' = ProcessMessage env m (b\<lparr>wpool := p\<rparr>)"
    using assms by (auto simp: handleEvent_def split: if_splits option.splits)
  have "acts (mclient m) (ownAct env (mpacket m)) b b'"
    unfolding t(2) by (rule acts_first [OF _ _ ProcessMessage_acts]) simp_all
  with EvWork t show ?thesis by (auto simp: acts_def ownStep_def)
next
  case EvCluster
  then obtain m ms where t: "clusterPool b = m # ms" "b' = ProcessMessage env m (b\<lparr>clusterPool := ms\<rparr>)"
    using assms by (auto simp: handleEvent_def processClusterInfo_def split: if_splits list.splits)
  have "acts (mclient m) (ownAct env (mpacket m)) b b'"
    unfolding t(2) by (rule acts_first [OF _ _ ProcessMessage_acts]) simp_all
  with EvCluster t show ?thesis by (auto simp: acts_def ownStep_def)
next
  case (EvExpireRel c)
  with assms show ?thesis by (auto simp: handleEvent_def ownStep_def split: if_splits)
next
  case EvGo
  then obtain g gs where "goroutines b = g # gs" "b' = runGo env g (b\<lparr>goroutines := gs\<rparr>)"
    using assms by (auto simp: handleEvent_def split: if_splits list.splits)
  moreover have "steady x (runGo env g x)" for x
    using steady_Broadcast [OF quiet_writePacket] steady_connectRouter [OF quiet_writePacket]
    by (simp add: runGo_def split: goroutine.split)
  ultimately show ?thesis using steady_trans [OF steady_fields(3)] by blast
next
  case (EvPing tick c)
  obtain b1 err where w: "writePacket env c PingreqP b = (b1, err)" by (cases "writePacket env c PingreqP b")
  have 1: "steady b b1" using w by (rule steady_write')
  have "steady b (upd c (\<lambda>x. x\<lparr>pinging := False\<rparr>) b)" by (rule steady_upd_other) simp
  moreover have "steady b (Close env c b1)" using 1 by (rule steady_trans) simp
  ultimately show ?thesis using 1 EvPing assms w by (auto simp: handleEvent_def pingTurn_def split: if_splits)
qed (use assms in \<open>auto simp: handleEvent_def processClusterInfo_def steady_handleConnection steady_retry deleteConnection_def
    steady_Discovery split: if_splits option.splits intro: steady_readTurn\<close>)

section \<open>Invariants\<close>

definition qinv :: "broker \<Rightarrow> bool" where
  "qinv b = (\<forall>d < cnext b. qos_ok (cheap b d))"

lemma qinv_steady: "ready b \<Longrightarrow> steady b b' \<Longrightarrow> qinv b \<Longrightarrow> qinv b'"
  unfolding qinv_def steady_def qframe_def qos_keeps_def by metis

lemma qos_ok_own: "qos_ok x \<Longrightarrow> qos_ok (ownAct env p x)" "qos_ok x \<Longrightarrow> qos_ok (expireAwaitingRel t x)"
  by (auto simp: qos_ok_def armed_def ownAct_def registerPublishPacketId_def onPuback_def pubRel_def onPubcomp_def
      expireAwaitingRel_def intro: keys_intro split: controlPacket.splits)

lemma ownStep_ok: "ownStep env e b = Some (c, g) \<Longrightarrow> qos_ok x \<Longrightarrow> qos_ok (g x)"
  by (auto simp: ownStep_def qos_ok_own split: event.splits option.splits list.splits)

lemma ownStep_same: "ownStep env e b = Some (c, g) \<Longrightarrow> status (g x) = status x \<and> conn (g x) = conn x"
  by (auto simp: ownStep_def ownAct_def registerPublishPacketId_def onPuback_def pubRel_def onPubcomp_def
      expireAwaitingRel_def split: event.splits option.splits list.splits controlPacket.splits)

lemma ready_ownStep: "ready b \<Longrightarrow> ownStep env e b = Some (c, g) \<Longrightarrow> ready (upd c g b)"
  using ownStep_same by (auto simp: ready_def)

lemma handleEvent_qinv:
  assumes "ready b" "qinv b" "handleEvent env e b = Some b'"
  shows "qinv b'"
proof -
  consider "steady b b'" | c g where "ownStep env e b = Some (c, g)" "steady (upd c g b) b'"
    using handleEvent_acts [OF assms(3)] by blast
  then show ?thesis
  proof cases
    case 1
    then show ?thesis using assms qinv_steady by blast
  next
    case (2 c g)
    have "qinv (upd c g b)" using assms(2) ownStep_ok [OF 2(1)] by (simp add: qinv_def)
    then show ?thesis using qinv_steady [OF ready_ownStep [OF assms(1) 2(1)] 2(2)] by blast
  qed
qed

lemma reachable_qinv:
  assumes "reachable (NewBroker bid cport router workers auth bridge metrics) b" "workers < 2 ^ 64"
  shows "qinv b"
  using assms(1)
proof (induction rule: reachable.induct)
  case reach_init
  show ?case by (simp add: qinv_def NewBroker_def)
next
  case (reach_step b b')
  then show ?case
    using handleEvent_qinv [OF binv_ready [OF reachable_binv [OF reach_step.hyps(1) assms(2)]]] by (auto elim: stepE)
qed

end
