(* ===== verification/Runs.thy ===== *)
theory Runs
  imports Qos_Inv Broker_Examples
begin

text \<open>
  Runs of a broker as lists of events, each with the environment it meets, and what is kept along
  them: a property of one client that every operation keeps and that the client's own operations
  keep under a condition on the events.
\<close>

section \<open>Runs\<close>

fun plays :: "(env \<times> event) list \<Rightarrow> broker \<Rightarrow> broker option" where
  "plays [] b = Some b"
| "plays ((env, e) # es) b = (case handleEvent env e b of None \<Rightarrow> None | Some b1 \<Rightarrow> plays es b1)"

text \<open>A condition on each event of a run and the state it happens in.\<close>

fun along :: "(env \<Rightarrow> event \<Rightarrow> broker \<Rightarrow> bool) \<Rightarrow> (env \<times> event) list \<Rightarrow> broker \<Rightarrow> bool" where
  "along P [] b = True"
| "along P ((env, e) # es) b =
     (P env e b \<and> (case handleEvent env e b of None \<Rightarrow> True | Some b1 \<Rightarrow> along P es b1))"

lemma plays_reachable: "plays es b = Some b' \<Longrightarrow> reachable b0 b \<Longrightarrow> reachable b0 b'"
  by (induction es b rule: plays.induct) (auto split: option.splits dest: step_event reach_step)

lemma runs_plays: "plays (map (Pair env) es) b = runs env es b"
  by (induction es arbitrary: b) (auto split: option.split)

text \<open>The packet a worker takes up in a step, with the client it came from.\<close>

definition processed :: "event \<Rightarrow> broker \<Rightarrow> message option" where
  "processed e b =
     (case e of
        EvWork i \<Rightarrow> map_option fst (takeTask i (wpool b))
      | EvCluster \<Rightarrow> (case clusterPool b of [] \<Rightarrow> None | m # ms \<Rightarrow> Some m)
      | _ \<Rightarrow> None)"

lemma ownStep_cases:
  assumes "ownStep env e b = Some (c, g)"
  obtains m where "processed e b = Some m" "mclient m = c" "g = ownAct env (mpacket m)"
    | "e = EvExpireRel c" "g = expireAwaitingRel (now env)"
  using assms by (cases e) (auto simp: ownStep_def processed_def split: list.splits)

section \<open>What a client keeps along a run\<close>

lemma step_keeps:
  assumes "\<And>x y. K x \<Longrightarrow> qos_keeps x y \<Longrightarrow> K y"
    and "\<And>x m. K x \<Longrightarrow> qos_ok x \<Longrightarrow> processed e b = Some m \<Longrightarrow> mclient m = c \<Longrightarrow> K (ownAct env (mpacket m) x)"
    and "\<And>x. K x \<Longrightarrow> qos_ok x \<Longrightarrow> e = EvExpireRel c \<Longrightarrow> K (expireAwaitingRel (now env) x)"
    and "ready b" "qinv b" "c < cnext b" "K (cheap b c)" "handleEvent env e b = Some b'"
  shows "K (cheap b' c) \<and> c < cnext b'"
proof -
  have frame: "K (cheap b' c) \<and> c < cnext b'" if "steady a b'" "ready a" "c < cnext a" "K (cheap a c)" for a
  proof -
    have q: "qframe a b'" using that(1,2) by (simp add: steady_def)
    then have "c < cnext b'" using that(3) by (simp add: qframe_def)
    with q that(3,4) assms(1) show ?thesis by (auto simp: qframe_def)
  qed
  have ok: "qos_ok (cheap b c)" using assms(5,6) by (simp add: qinv_def)
  consider "steady b b'" | d g where "ownStep env e b = Some (d, g)" "steady (upd d g b) b'"
    using handleEvent_acts [OF assms(8)] by blast
  then show ?thesis
  proof cases
    case 1
    then show ?thesis using frame assms(4,6,7) by blast
  next
    case (2 d g)
    have "K (cheap (upd d g b) c)"
    proof (cases "d = c")
      case True
      from 2(1) have "K (g (cheap b c))" unfolding True
        by (cases rule: ownStep_cases) (use assms(2,3,7) ok in blast)+
      with True show ?thesis by simp
    next
      case False
      then show ?thesis using assms(7) by simp
    qed
    with frame [OF 2(2) ready_ownStep [OF assms(4) 2(1)]] assms(6) show ?thesis by simp
  qed
qed

lemma run_keeps:
  assumes "\<And>x y. K x \<Longrightarrow> qos_keeps x y \<Longrightarrow> K y"
    and "\<And>env e b x m. P env e b \<Longrightarrow> K x \<Longrightarrow> qos_ok x \<Longrightarrow> processed e b = Some m \<Longrightarrow> mclient m = c \<Longrightarrow>
           K (ownAct env (mpacket m) x)"
    and "\<And>env e b x. P env e b \<Longrightarrow> K x \<Longrightarrow> qos_ok x \<Longrightarrow> e = EvExpireRel c \<Longrightarrow> K (expireAwaitingRel (now env) x)"
    and "reachable (NewBroker bid cport router workers auth bridge metrics) b" "workers < 2 ^ 64"
    and "c < cnext b" "K (cheap b c)" "along P es b" "plays es b = Some b'"
  shows "K (cheap b' c)"
  using assms(4,6-9)
proof (induction es b rule: plays.induct)
  case (1 b)
  then show ?case by simp
next
  case (2 env e es b)
  obtain b1 where b1: "handleEvent env e b = Some b1" "plays es b1 = Some b'"
    using "2.prems"(5) by (auto split: option.splits)
  have P: "P env e b" "along P es b1" using "2.prems"(4) b1(1) by auto
  have "K (cheap b1 c) \<and> c < cnext b1"
    using assms(1) assms(2) [OF P(1)] assms(3) [OF P(1)]
      binv_ready [OF reachable_binv [OF "2.prems"(1) assms(5)]] reachable_qinv [OF "2.prems"(1) assms(5)]
      "2.prems"(2,3) b1(1)
    by (rule step_keeps)
  moreover have "reachable (NewBroker bid cport router workers auth bridge metrics) b1"
    using "2.prems"(1) step_event [OF b1(1)] by (rule reach_step)
  ultimately show ?case using "2.IH" [OF b1(1)] P(2) b1(2) by blast
qed

text \<open>A received QoS 2 id that is awaited, and a message in flight.\<close>

lemma ownAct_awaits:
  "awaits x i = Some t \<Longrightarrow> qos_ok x \<Longrightarrow> p \<noteq> PubrelP i \<Longrightarrow> awaits (ownAct env p x) i = Some t"
  using rel_step_awaits [of x i t "EvPublish (now env) _"] rel_step_awaits [of x i t "EvRelease _"]
  by (cases p) (auto simp: ownAct_def qos_ok_def awaits_def onPuback_def onPubcomp_def)

lemma expire_awaits:
  "awaits x i = Some t0 \<Longrightarrow> qos_ok x \<Longrightarrow> t - t0 < awaitRelTimeout \<Longrightarrow> awaits (expireAwaitingRel t x) i = Some t0"
  by (simp add: awaits_expire qos_ok_def)

lemma flying_other:
  "flying (fst (registerPublishPacketId t j x)) = flying x" "flying (fst (pubRel j x)) = flying x"
  "flying (expireAwaitingRel t x) = flying x"
  by (simp_all add: registerPublishPacketId_def pubRel_def expireAwaitingRel_def flying_def)

lemma ownAct_flying:
  "flying x i \<noteq> None \<Longrightarrow> p \<noteq> PubackP i \<Longrightarrow> p \<noteq> PubcompP i \<Longrightarrow> flying (ownAct env p x) i \<noteq> None"
  by (cases p) (auto simp: ownAct_def flying_simps flying_other)

end
