(* ===== verification/Qos_Properties.thy ===== *)
theory Qos_Properties
  imports Runs
begin

text \<open>
  The properties of the delivery guarantees: exactly-once reception, at-least-once delivery with its
  retries, over every reachable state and every run.
\<close>

section \<open>Received messages\<close>

lemma duplicate_publish:
  assumes "ctyp (cheap b c) = CLIENT" "Qos p = QosExactlyOnce" "awaits (cheap b c) (MessageID p) \<noteq> None"
  shows "\<exists>a es. ProcessPublish env c p b = b\<lparr>bauth := a, trace := trace b @ es\<rparr> \<and> sent es = []"
proof -
  obtain b1 ok where a: "brokerTopicAuth env aPUB (cheap b c) (TopicName p) b = (b1, ok)"
    by (cases "brokerTopicAuth env aPUB (cheap b c) (TopicName p) b")
  then obtain v where v: "b1 = b\<lparr>bauth := v\<rparr>" using topicAuth_eq by blast
  define b2 where "b2 = bridgePublish (element (cheap b1 c) bPublish (now env) (Payload p) (TopicName p)) b1"
  have "cheap b2 = cheap b" by (simp add: b2_def v bridgePublish_def emit_def)
  then have "registerPublishPacketId (now env) (MessageID p) (cheap b2 c)
      = (cheap b2 c, Some (if isAwaitingFull (cheap b c) then ErrTooManyAwaiting else ErrIdInUse))"
    using assms(3) by (simp add: registerPublishPacketId_def awaits_def)
  moreover have "Qos p \<noteq> QosAtMostOnce" "Qos p \<noteq> QosAtLeastOnce" by (simp_all add: assms(2) qos_defs)
  ultimately have r: "ProcessPublish env c p b = (if ok then b2 else b1)"
    using assms(1,2) a
    by (simp add: ProcessPublish_def processClientPublish_def b2_def [symmetric] Let_def)
  have "\<exists>es. b2 = b\<lparr>bauth := v, trace := trace b @ es\<rparr> \<and> sent es = []"
    by (intro exI [of _ "if bridgeMQ b then [Bridged (element (cheap b c) bPublish (now env) (Payload p) (TopicName p))] else []"])
      (simp add: b2_def bridgePublish_def emit_def v)
  moreover have "b1 = b\<lparr>bauth := v, trace := trace b @ []\<rparr>" by (simp add: v)
  ultimately show ?thesis unfolding r using sent.simps(1) by (cases ok) (force, metis)
qed

text \<open>
  C4. Exactly-once reception. Once a QoS 2 message of a client has been taken in, its packet id stays
  held along every run in which that client's PUBREL for it is not processed and the timer for it
  does not fire 20 seconds later or more; and as long as it is held, processing a PUBLISH with that
  id again forwards nothing and stores nothing: nothing is written to anybody and the state changes
  in the plugin and the reports to the bridge alone.
\<close>

theorem qos2_received_once:
  assumes "reachable (NewBroker bid cport router workers auth bridge metrics) b" "workers < 2 ^ 64"
    and "c < cnext b" "awaits (cheap b c) i = Some t0"
    and "along (\<lambda>env e b. processed e b \<noteq> Some \<lparr>mclient = c, mpacket = PubrelP i\<rparr>
           \<and> (e = EvExpireRel c \<longrightarrow> now env - t0 < 20)) es b"
    and "plays es b = Some b'"
    and "ctyp (cheap b' c) = CLIENT" "Qos p = QosExactlyOnce" "MessageID p = i"
  shows "awaits (cheap b' c) i = Some t0
    \<and> (\<exists>a xs. ProcessPublish env c p b' = b'\<lparr>bauth := a, trace := trace b' @ xs\<rparr> \<and> sent xs = [])"
proof -
  have "awaits (cheap b' c) i = Some t0"
  proof (rule run_keeps [where K = "\<lambda>x. awaits x i = Some t0", OF _ _ _ assms(1-6)])
    show "awaits x i = Some t0 \<Longrightarrow> qos_keeps x y \<Longrightarrow> awaits y i = Some t0" for x y
      by (simp add: qos_keeps_def awaits_def)
    show "awaits (ownAct env (mpacket m) x) i = Some t0"
      if P: "processed e b \<noteq> Some \<lparr>mclient = c, mpacket = PubrelP i\<rparr> \<and> (e = EvExpireRel c \<longrightarrow> now env - t0 < 20)"
        and x: "awaits x i = Some t0" "qos_ok x" and m: "processed e b = Some m" "mclient m = c" for env e b x m
    proof -
      have "mpacket m \<noteq> PubrelP i" using P m by (cases m) auto
      with x show ?thesis by (intro ownAct_awaits)
    qed
  qed (simp add: expire_awaits awaitRelTimeout_def)
  with duplicate_publish [of b' c p env] assms(7-9) show ?thesis by simp
qed

definition qos2Message :: publishPacket where
  "qos2Message = newPublish\<lparr>TopicName := ''a'', Qos := QosExactlyOnce, MessageID := 9, Payload := ''v''\<rparr>"

definition holding :: broker where
  "holding = after (EvAccept False (Some (ConnectP hello)) # hears (PublishP qos2Message))"

lemma holding_facts:
  "reachable quietBroker holding" "cnext holding = 1" "awaits (cheap holding 0) 9 = Some 0"
  "ctyp (cheap holding 0) = CLIENT" "crashed holding = False" "pinging (cheap holding 0) = False"
  by (unfold holding_def, rule reach_after) code_simp+

lemma qos2_received_once_witness:
  "awaits (cheap (the (plays [(calm\<lparr>now := 19\<rparr>, EvExpireRel 0)] holding)) 0) 9 = Some 0
   \<and> (\<exists>a xs. ProcessPublish calm 0 qos2Message (the (plays [(calm\<lparr>now := 19\<rparr>, EvExpireRel 0)] holding))
        = (the (plays [(calm\<lparr>now := 19\<rparr>, EvExpireRel 0)] holding))
            \<lparr>bauth := a, trace := trace (the (plays [(calm\<lparr>now := 19\<rparr>, EvExpireRel 0)] holding)) @ xs\<rparr>
        \<and> sent xs = [])"
proof -
  let ?b = "upd 0 (expireAwaitingRel 19) holding"
  have p: "plays [(calm\<lparr>now := 19\<rparr>, EvExpireRel 0)] holding = Some ?b"
    by (simp add: handleEvent_def holding_facts)
  have "ctyp (cheap ?b 0) = CLIENT" by (simp add: expireAwaitingRel_def holding_facts)
  moreover have "MessageID qos2Message = 9" "Qos qos2Message = QosExactlyOnce" by (simp_all add: qos2Message_def)
  ultimately show ?thesis
    unfolding p option.sel
    by (intro qos2_received_once [OF holding_facts(1) [unfolded quietBroker_def] _ _ holding_facts(3) _ p])
      (simp_all add: holding_facts processed_def split: option.split)
qed

section \<open>Messages in flight\<close>


definition qos1Message :: publishPacket where
  "qos1Message = newPublish\<lparr>TopicName := ''a'', Qos := QosAtLeastOnce, MessageID := 5, Payload := ''v''\<rparr>"

text \<open>A client that subscribed to a topic and published to it.\<close>

definition sending :: broker where
  "sending = after (EvAccept False (Some (ConnectP hello)) # hears (SubscribeP 7 [''a''] [QosAtLeastOnce])
     @ hears (PublishP qos1Message))"

lemma sending_facts:
  "reachable quietBroker sending" "cnext sending = 1"
  "inflight (cheap sending 0) = [(5, \<lparr>istatus = Publish, ipacket = qos1Message, itimestamp = 0\<rparr>)]"
  "crashed sending = False" "status (cheap sending 0) = Connected" "conn (cheap sending 0) = Some 0"
  "retryTimer (cheap sending 0) = Some 20"
  by (unfold sending_def, rule reach_after) code_simp+


text \<open>
  C11. At-least-once delivery, part two. While a connected client has messages in flight its retry
  timer is running, so a retry can always happen; and a retry writes to its connection exactly the
  messages that have been waiting for 20 seconds or more, in the order of the table, a PUBLISH or,
  after a PUBREC, a PUBREL, keeps all of them in flight, and starts the timer again.
\<close>

theorem retry_always_possible:
  assumes "reachable (NewBroker bid cport router workers auth bridge metrics) b" "workers < 2 ^ 64"
    and "\<not> crashed b" "c < cnext b" "status (cheap b c) \<noteq> Disconnected" "inflight (cheap b c) \<noteq> []"
  shows "\<exists>b'. handleEvent env (EvRetry c) b = Some b'
    \<and> sent (trace b') = sent (trace b)
        @ map (\<lambda>(i, m). (the (conn (cheap b c)), retryPacket m)) (filter (\<lambda>(i, m). overdue env m) (inflight (cheap b c)))
    \<and> (\<forall>i. flying (cheap b c) i \<noteq> None \<longrightarrow> flying (cheap b' c) i \<noteq> None)
    \<and> retryTimer (cheap b' c) \<noteq> None"
proof -
  note ready = binv_ready [OF reachable_binv [OF assms(1,2)]]
  obtain k where k: "conn (cheap b c) = Some k" using ready assms(5) by (auto simp: ready_def)
  have "armed (cheap b c)" using reachable_qinv [OF assms(1,2)] assms(4) by (simp add: qinv_def qos_ok_def)
  then have timer: "retryTimer (cheap b c) \<noteq> None" using assms(6) k by (simp add: armed_def)
  define b1 where "b1 = upd c resetRetryTimer b"
  have d: "delivers b b1" unfolding b1_def by (rule delivers_upd) simp
  have same: "conn (cheap b1 c) = Some k" "inflight (cheap b1 c) = inflight (cheap b c)"
    "sendsTo b1 c p = [(k, p)]" "trace b1 = trace b" for p
    using assms(5) k by (simp_all add: b1_def sendsTo_def resetRetryTimer_def)
  define b2 where "b2 = foldl (retryElem env (writePacket env) c) b1 (inflight (cheap b c))"
  have r: "retryDelivery env (writePacket env) c b = upd c (ensureRetryTimer retryInterval) b2"
    using assms(6) same by (simp add: retryDelivery_def b1_def [symmetric] b2_def Let_def)
  have pick: "concat (map (\<lambda>(i, m). if overdue env m then [(k, retryPacket m)] else []) xs)
      = map (\<lambda>(i, m). (k, retryPacket m)) (filter (\<lambda>(i, m). overdue env m) xs)" for xs
    by (induction xs) auto
  have "sent (trace b2) = sent (trace b)
      @ map (\<lambda>(i, m). (k, retryPacket m)) (filter (\<lambda>(i, m). overdue env m) (inflight (cheap b c)))"
    unfolding b2_def retryAll_sent [OF ready_delivers [OF ready d]] same(3,4) pick ..
  moreover have "flying (cheap b c) i \<noteq> None \<Longrightarrow> flying (cheap b2 c) i \<noteq> None" for i
  proof -
    assume "flying (cheap b c) i \<noteq> None"
    then have "flying (cheap b1 c) i \<noteq> None" by (simp add: b1_def flying_simps)
    then show "flying (cheap b2 c) i \<noteq> None"
      using retryAll_frame [OF ready_delivers [OF ready d], of env c "inflight (cheap b c)"] unfolding b2_def by blast
  qed
  moreover have "retryTimer (ensureRetryTimer retryInterval x) \<noteq> None" for x by (simp add: ensureRetryTimer_def)
  ultimately show ?thesis using assms(3,4) timer
    by (simp add: handleEvent_def r k flying_simps del: not_None_eq)
qed

lemma retry_always_possible_witness:
  "\<exists>b'. handleEvent (calm\<lparr>now := 20\<rparr>) (EvRetry 0) sending = Some b'
    \<and> sent (trace b') = sent (trace sending) @ [(0, PublishP qos1Message)]"
proof -
  have "overdue (calm\<lparr>now := 20\<rparr>) \<lparr>istatus = Publish, ipacket = qos1Message, itimestamp = 0\<rparr>"
    by (simp add: overdue_def retryInterval_def)
  then show ?thesis
    using retry_always_possible [OF sending_facts(1) [unfolded quietBroker_def], of 0 "calm\<lparr>now := 20\<rparr>"]
    by (auto simp: sending_facts retryPacket_def)
qed

end
