(* ===== verification/Routing.thy ===== *)
theory Routing
  imports Qos_Inv
begin

text \<open>
  Whom a client's message reaches: the subscriptions with a matching filter, those served one by one
  and those of which one is chosen, and what serving leaves behind in the tables of the served.
\<close>

section \<open>The subscriptions found\<close>

definition subscribedTo :: "broker \<Rightarrow> string list \<Rightarrow> subref set" where
  "subscribedTo b ts = {r. \<exists>fs. (fs, subPtr r) \<in> mt_subs (topicsMgr b) \<and> matches fs ts}"

lemma map_filter_asSub: "List.map_filter asSub (map subPtr rs) = rs"
  by (induction rs) (simp_all add: List.map_filter_def)

lemma subscribers_refs:
  assumes "subs_inv b" "mt_inv tm" "mt_subs tm = mt_subs (topicsMgr b)" "ValidQos q" "topicLevels t = Inr ts"
  shows "\<exists>subs qoss rs. mtSubscribers t q tm out = ((subs, qoss), None) \<and> subs = map subPtr rs
    \<and> distinct rs \<and> set rs = subscribedTo b ts"
proof -
  let ?S = "{e \<in> mt_subs tm. matches (fst e) ts}"
  obtain subs qoss where m: "mtSubscribers t q tm out = ((subs, qoss), None)"
    and ms: "mset subs = image_mset snd (mset_set ?S)"
    using mem_subs.subscribers_ok [OF assms(2,4,5), of out] by (auto simp: subscribers_spec_def)
  have fin: "finite ?S" using mem_subs.subs_finite [OF assms(2)] by simp
  have ptr: "\<exists>r. snd e = subPtr r" if "e \<in> ?S" for e
    using subs_inv_ptr [OF assms(1), of "fst e" "snd e"] that by (simp add: assms(3))
  have "inj_on snd ?S"
  proof (rule inj_onI)
    fix e e' assume e: "e \<in> ?S" "e' \<in> ?S" "snd e = snd e'"
    obtain r where r: "snd e = subPtr r" using ptr [OF e(1)] by blast
    have "(fst e, subPtr r) \<in> mt_subs (topicsMgr b)" "(fst e', subPtr r) \<in> mt_subs (topicsMgr b)"
      using e r unfolding assms(3) [symmetric] by (metis (mono_tags, lifting) mem_Collect_eq prod.collapse)+
    then have "entered b (fst e) r" "entered b (fst e') r" using subs_inv_entry [OF assms(1)] by blast+
    then have "fst e = fst e'" by (simp add: entered_def)
    with e(3) show "e = e'" by (simp add: prod_eq_iff)
  qed
  then have all: "mset subs = mset_set (snd ` ?S)" by (simp add: ms image_mset_mset_set)
  have d: "set subs = snd ` ?S" "length subs = card (snd ` ?S)"
    using arg_cong [OF all, of set_mset] arg_cong [OF all, of size] fin by simp_all
  then have "distinct subs" by (simp add: card_distinct)
  moreover have "\<exists>rs. subs = map subPtr rs"
  proof -
    have "\<forall>s \<in> set subs. \<exists>r. s = subPtr r" using d(1) ptr by auto
    then show ?thesis by (metis ex_map_conv)
  qed
  then obtain rs where rs: "subs = map subPtr rs" by blast
  ultimately have "distinct rs" by (simp add: distinct_map)
  moreover have "r \<in> set rs \<longleftrightarrow> r \<in> subscribedTo b ts" for r
  proof -
    have "r \<in> set rs \<longleftrightarrow> subPtr r \<in> set subs" by (auto simp: rs)
    then show ?thesis by (force simp: d(1) subscribedTo_def assms(3))
  qed
  ultimately show ?thesis using m rs by blast
qed

text \<open>
  The packets a message of a client of kind \<open>ty\<close> causes: one to each subscription that is not
  shared, and one to a single one of the shared ones, if there are any. A message that came from
  another broker does not go back to a router.
\<close>

definition forwards :: "env \<Rightarrow> broker \<Rightarrow> ctype \<Rightarrow> string list \<Rightarrow> publishPacket \<Rightarrow> (connId \<times> controlPacket) list \<Rightarrow> bool" where
  "forwards env b ty ts p ms =
     (\<exists>ds ss n. ms = sendsAll b p (ds @ chosen env n ss) \<and> distinct (ds @ ss)
        \<and> set ds = {r \<in> subscribedTo b ts. \<not> echoes b ty r \<and> \<not> share (sheap b r)}
        \<and> set ss = {r \<in> subscribedTo b ts. \<not> echoes b ty r \<and> share (sheap b r)})"

lemma forwards_same:
  assumes "\<And>d. same_core (cheap b d) (cheap b' d)" "sheap b' = sheap b" "topicsMgr b' = topicsMgr b"
  shows "forwards env b' ty ts p ms = forwards env b ty ts p ms"
proof -
  have "sendsTo b' d q = sendsTo b d q" for d q using assms(1) by (rule sendsTo_core)
  moreover have "echoes b' ty r = echoes b ty r" for r
    using assms(1) [of "sclient (sheap b r)"] by (simp add: echoes_def assms(2) same_core_def)
  ultimately show ?thesis by (simp add: forwards_def sendsAll_def subscribedTo_def assms(2,3))
qed

lemma retainIn_topics:
  assumes "subs_inv b"
  shows "mt_inv (topicsMgr (retainIn p b))" "mt_subs (topicsMgr (retainIn p b)) = mt_subs (topicsMgr b)"
  using assms mem_retained.retain_inv [of "topicsMgr b" p] mem_topics.retain_subs [of p "topicsMgr b"]
  by (auto simp: retainIn_def subs_inv_def)

lemma ProcessPublishMessage_forwards:
  assumes "binv X b" "ValidQos (Qos p)" "topicLevels (TopicName p) = Inr ts"
  shows "\<exists>ms. sent (trace (ProcessPublishMessage env (writePacket env) c p b)) = sent (trace b) @ ms
    \<and> forwards env b (ctyp (cheap b c)) ts p ms"
proof -
  let ?ty = "ctyp (cheap b c)"
  have inv: "subs_inv b" using assms(1) by (simp add: binv_def)
  obtain subs qoss rs where m: "mtSubscribers (TopicName p) (Qos p) (topicsMgr (retainIn p b)) (foundSubs (cheap b c)) = ((subs, qoss), None)"
    and rs: "subs = map subPtr rs" "distinct rs" "set rs = subscribedTo b ts"
    using subscribers_refs [OF inv retainIn_topics(1) [OF inv] retainIn_topics(2) [OF inv] assms(2,3)] by blast
  have "directSubs b ?ty subs = filter (\<lambda>r. \<not> echoes b ?ty r \<and> \<not> share (sheap b r)) rs"
    "sharedSubs b ?ty subs = filter (\<lambda>r. \<not> echoes b ?ty r \<and> share (sheap b r)) rs"
    by (simp_all add: directSubs_def sharedSubs_def rs(1) map_filter_asSub)
  moreover obtain n where "sent (trace (ProcessPublishMessage env (writePacket env) c p b))
    = sent (trace b) @ sendsAll b p (directSubs b ?ty subs @ chosen env n (sharedSubs b ?ty subs))"
    using ProcessPublishMessage_sent [OF binv_ready [OF assms(1)] m assms(2)] by blast
  ultimately show ?thesis
    unfolding forwards_def
    by (intro exI [of _ "sendsAll b p (directSubs b ?ty subs @ chosen env n (sharedSubs b ?ty subs))"] conjI
        exI [of _ "directSubs b ?ty subs"] exI [of _ "sharedSubs b ?ty subs"] exI [of _ n])
      (auto simp: rs(2,3))
qed

section \<open>What serving leaves behind\<close>

text \<open>A client that has the message in flight, just sent, with the timer running.\<close>

definition tracks :: "env \<Rightarrow> publishPacket \<Rightarrow> client \<Rightarrow> bool" where
  "tracks env p x =
     (flying x (MessageID p) = Some \<lparr>istatus = Publish, ipacket = p, itimestamp = now env\<rparr> \<and> retryTimer x \<noteq> None)"

lemma publish_tracks:
  assumes "ready b" "Qos p = QosAtLeastOnce \<or> Qos p = QosExactlyOnce"
  shows "tracks env p (cheap (publish env (writePacket env) r p b) (sclient (sheap b r)))
    \<and> (tracks env p (cheap b d) \<longrightarrow> tracks env p (cheap (publish env (writePacket env) r p b) d))"
proof -
  let ?c = "sclient (sheap b r)"
  define b1 where "b1 = upd ?c (trackInflight (now env) p) b"
  define b2 where "b2 = fst (writePacket env ?c (PublishP p) b1)"
  have "delivers b b1" unfolding b1_def by (rule delivers_upd) simp
  then have "only_trace b1 b2" unfolding b2_def using quietD [OF quiet_writePacket] ready_delivers [OF assms(1)] by blast
  then have "cheap b2 = cheap b1" by (rule only_trace_same)
  moreover have "Qos p \<noteq> QosAtMostOnce" using assms(2) by (auto simp: qos_defs)
  then have "publish env (writePacket env) r p b = upd ?c (ensureRetryTimer retryInterval) b2"
    using assms(2) by (simp add: publish_def b1_def [symmetric] b2_def Let_def)
  moreover have "retryTimer (ensureRetryTimer retryInterval x) \<noteq> None" for x by (simp add: ensureRetryTimer_def)
  ultimately show ?thesis by (simp add: b1_def tracks_def flying_simps del: not_None_eq)
qed

lemma deliverAll_tracks:
  assumes "ready b" "Qos p = QosAtLeastOnce \<or> Qos p = QosExactlyOnce"
  shows "(tracks env p (cheap b d) \<longrightarrow>
      tracks env p (cheap (fst (foldl (deliverTo env (writePacket env) ty p) (b, q) subs)) d))
    \<and> (\<forall>r. subPtr r \<in> set subs \<and> \<not> echoes b ty r \<and> \<not> share (sheap b r) \<longrightarrow>
      tracks env p (cheap (fst (foldl (deliverTo env (writePacket env) ty p) (b, q) subs)) (sclient (sheap b r))))"
  using assms(1)
proof (induction subs arbitrary: b q d)
  case Nil
  then show ?case by simp
next
  case (Cons s subs)
  obtain b1 q1 where step: "deliverTo env (writePacket env) ty p (b, q) s = (b1, q1)"
    by (cases "deliverTo env (writePacket env) ty p (b, q) s")
  have del: "delivers b b1" using deliverTo_delivers [OF quiet_writePacket Cons.prems, of env env ty p q s] step by simp
  have same: "sheap b1 = sheap b" "echoes b1 ty r = echoes b ty r" for r
    using delivers_same(1) [OF del] delivers_same(18) [OF del, THEN same_clientD(1)] by (simp_all add: echoes_def)
  have keep: "tracks env p (cheap b d) \<longrightarrow> tracks env p (cheap b1 d)" for d
    using step publish_tracks [OF Cons.prems assms(2), of env _ d]
    by (auto simp: deliverTo_def Let_def split: option.splits if_splits)
  have here: "tracks env p (cheap b1 (sclient (sheap b r)))" if "s = subPtr r" "\<not> echoes b ty r" "\<not> share (sheap b r)" for r
    using step that publish_tracks [OF Cons.prems assms(2), of env r]
    by (auto simp: deliverTo_def Let_def echoes_def)
  note ih = Cons.IH [OF ready_delivers [OF Cons.prems del], of _ q1]
  show ?case
    using keep here ih by (simp add: step same) (metis set_ConsD)
qed

lemma ProcessPublishMessage_tracks:
  assumes "binv X b" "Qos p = QosAtLeastOnce \<or> Qos p = QosExactlyOnce" "topicLevels (TopicName p) = Inr ts"
    and "r \<in> subscribedTo b ts" "\<not> echoes b (ctyp (cheap b c)) r" "\<not> share (sheap b r)"
  shows "tracks env p (cheap (ProcessPublishMessage env (writePacket env) c p b) (sclient (sheap b r)))"
proof -
  let ?ty = "ctyp (cheap b c)" and ?b1 = "retainIn p b" and ?d = "sclient (sheap b r)"
  have inv: "subs_inv b" using assms(1) by (simp add: binv_def)
  have q: "ValidQos (Qos p)" using assms(2) by auto
  obtain subs qoss rs where m: "mtSubscribers (TopicName p) (Qos p) (topicsMgr ?b1) (foundSubs (cheap b c)) = ((subs, qoss), None)"
    and rs: "subs = map subPtr rs" "distinct rs" "set rs = subscribedTo b ts"
    using subscribers_refs [OF inv retainIn_topics(1) [OF inv] retainIn_topics(2) [OF inv] q assms(3)] by blast
  define b2 where "b2 = upd c (\<lambda>x. x\<lparr>foundSubs := (subs, qoss)\<rparr>) ?b1"
  have "ready ?b1" using binv_ready [OF assms(1)] by (simp add: ready_def)
  moreover have d: "delivers ?b1 b2" unfolding b2_def by (rule delivers_upd) simp
  ultimately have ready2: "ready b2" by (rule ready_delivers)
  obtain b3 sh where f: "foldl (deliverTo env (writePacket env) ?ty p) (b2, []) subs = (b3, sh)"
    by (cases "foldl (deliverTo env (writePacket env) ?ty p) (b2, []) subs")
  have "subPtr r \<in> set subs" using rs assms(4) by auto
  moreover have "echoes b2 ?ty r = echoes b ?ty r" "sheap b2 = sheap b" by (simp_all add: b2_def echoes_def)
  ultimately have 3: "tracks env p (cheap b3 ?d)"
    using deliverAll_tracks [OF ready2 assms(2), of env _ ?ty "[]" subs] assms(5,6) by (simp add: f)
  have "delivers b2 b3" using deliverAll_delivers [OF quiet_writePacket ready2, of env env ?ty p "[]" subs] f by simp
  then have "ready b3" by (rule ready_delivers [OF ready2])
  from publish_tracks [OF this assms(2)] have "tracks env p (cheap (publish env (writePacket env) s p b3) ?d)" for s
    using 3 by blast
  moreover have "subs \<noteq> []" using \<open>subPtr r \<in> set subs\<close> by auto
  ultimately show ?thesis using 3 m f
    by (simp add: ProcessPublishMessage_def retainIn_def [symmetric] b2_def [symmetric] Let_def)
qed

end
