(* ===== verification/Message_Properties.thy ===== *)
theory Message_Properties
  imports Routing Broker_Examples
begin

text \<open>
  The properties of a client's messages: whom they reach, when they are acknowledged, what is kept of
  them, and what a message that is not allowed does. Also the resumption of a session and the
  dialling of other brokers.
\<close>

section \<open>Publishing\<close>

text \<open>
  C2. In every reachable state a message with a well-formed topic and a valid QoS is written exactly
  once for every subscription with a matching filter that is not a shared one, and for one of the
  shared ones with a matching filter when there are any, and for no other; a message of a client goes
  to routers as well, one of a router to no router. It is written to nobody who is disconnected.
\<close>

theorem publish_reaches_subscribers:
  assumes "reachable (NewBroker bid cport router workers auth bridge metrics) b" "workers < 2 ^ 64"
    and "ValidQos (Qos p)" "topicLevels (TopicName p) = Inr ts"
  shows "\<exists>ms. sent (trace (ProcessPublishMessage env (writePacket env) c p b)) = sent (trace b) @ ms
    \<and> forwards env b (ctyp (cheap b c)) ts p ms"
  using reachable_binv [OF assms(1,2)] assms(3,4) by (rule ProcessPublishMessage_forwards)

definition news :: publishPacket where
  "news = newPublish\<lparr>TopicName := ''a'', Qos := QosAtLeastOnce, MessageID := 5, Payload := ''v''\<rparr>"

lemma news_facts: "ValidQos (Qos news)" "TopicName news = ''a''" "topicLevels ''a'' = Inr [''a'']"
  "Qos news = QosAtLeastOnce" "MessageID news = 5"
  by code_simp+

lemma publish_reaches_subscribers_witness:
  "\<exists>ms. sent (trace (ProcessPublishMessage calm (writePacket calm) 0 news subscribed1)) = sent (trace subscribed1) @ ms
    \<and> forwards calm subscribed1 (ctyp (cheap subscribed1 0)) [''a''] news ms"
  by (rule publish_reaches_subscribers [OF reach_new(3)]) (simp_all add: news_facts)

lemma writePacket_ready:
  "ready b \<Longrightarrow> status (cheap b c) \<noteq> Disconnected \<Longrightarrow>
   writePacket env c p b
     = (emit (Wrote (the (conn (cheap b c))) p (writeOk env (length (trace b)))) b, \<not> writeOk env (length (trace b)))"
  by (simp add: writePacket_def WriterPacket_ready rawWrite_def Let_def)

lemma acknowledged_forward:
  assumes "binv X b" "status (cheap b c) \<noteq> Disconnected" "ValidQos (Qos p)" "topicLevels (TopicName p) = Inr ts"
    and "writePacket env c ack b = (b1, err)"
  shows "\<exists>ms. sent (trace (if err then b1 else ProcessPublishMessage env (writePacket env) c p b1))
      = sent (trace b) @ (the (conn (cheap b c)), ack) # ms
    \<and> (if writeOk env (length (trace b)) then forwards env b (ctyp (cheap b c)) ts p ms else ms = [])"
proof -
  let ?ok = "writeOk env (length (trace b))"
  have b1: "b1 = emit (Wrote (the (conn (cheap b c))) ack ?ok) b" "err = (\<not> ?ok)"
    using assms(5) writePacket_ready [OF binv_ready [OF assms(1)] assms(2)] by auto
  have "binv X b1" using assms(1) by (simp add: b1)
  from ProcessPublishMessage_forwards [OF this assms(3,4)] obtain ms where
    ms: "sent (trace (ProcessPublishMessage env (writePacket env) c p b1)) = sent (trace b1) @ ms"
      "forwards env b1 (ctyp (cheap b1 c)) ts p ms" by blast
  have same: "cheap b1 = cheap b" "sheap b1 = sheap b" "topicsMgr b1 = topicsMgr b"
    "sent (trace b1) = sent (trace b) @ [(the (conn (cheap b c)), ack)]"
    by (simp_all add: b1 emit_def)
  have "forwards env b1 ty ts p ms = forwards env b ty ts p ms" for ty
    by (rule forwards_same) (simp_all add: same)
  with ms same show ?thesis
    by (cases ?ok) (auto simp: b1(2) intro: exI [of _ "[]"])
qed

text \<open>
  Such a publication prepares a state that differs from the one before in the id held and in what
  was reported, writes the acknowledgement there, and goes on unless that failed.
\<close>

lemma permitted_publish:
  assumes "ctyp (cheap b c) = CLIENT" "snd (brokerTopicAuth env aPUB (cheap b c) (TopicName p) b)"
    and "Qos p = QosAtLeastOnce \<or> Qos p = QosExactlyOnce \<and> awaits (cheap b c) (MessageID p) = None"
    and "\<not> isAwaitingFull (cheap b c)" "binv {} b"
    and "ack = (if Qos p = QosAtLeastOnce then PubackP (MessageID p) else PubrecP (MessageID p))"
  obtains b3 x where "ProcessPublish env c p b
      = (case writePacket env c ack b3 of (b4, err) \<Rightarrow> if err then b4 else ProcessPublishMessage env (writePacket env) c p b4)"
    "binv {} b3" "same_core (cheap b c) x" "cheap b3 = (cheap b)(c := x)" "sheap b3 = sheap b" "topicsMgr b3 = topicsMgr b"
    "sent (trace b3) = sent (trace b)" "length (trace b3) = length (trace b) + (if bridgeMQ b then 1 else 0)"
proof -
  obtain b1 where a: "brokerTopicAuth env aPUB (cheap b c) (TopicName p) b = (b1, True)"
    using assms(2) by (cases "brokerTopicAuth env aPUB (cheap b c) (TopicName p) b") simp
  then obtain v where v: "b1 = b\<lparr>bauth := v\<rparr>" using topicAuth_eq by blast
  define b2 where "b2 = bridgePublish (element (cheap b1 c) bPublish (now env) (Payload p) (TopicName p)) b1"
  define x where "x = (if Qos p = QosAtLeastOnce then cheap b c
    else (cheap b c)\<lparr>awaitingRel := AList.update (MessageID p) (now env) (awaitingRel (cheap b c))\<rparr>)"
  have same2: "cheap b2 = cheap b" "sheap b2 = sheap b" "topicsMgr b2 = topicsMgr b" "sent (trace b2) = sent (trace b)"
    "length (trace b2) = length (trace b) + (if bridgeMQ b then 1 else 0)" "upd c (\<lambda>_. cheap b c) b2 = b2"
    by (simp_all add: b2_def v bridgePublish_def emit_def upd_def)
  have core: "same_core (cheap b c) x" by (simp add: x_def same_core_def)
  have "binv {} b2" using assms(5) by (simp add: b2_def v)
  then have b3: "binv {} (upd c (\<lambda>_. x) b2)" by (rule binv_set) (simp add: same2 core)
  show thesis
  proof (rule that [OF _ b3 core])
    show "ProcessPublish env c p b = (case writePacket env c ack (upd c (\<lambda>_. x) b2) of
        (b4, err) \<Rightarrow> if err then b4 else ProcessPublishMessage env (writePacket env) c p b4)"
    proof (cases "Qos p = QosAtLeastOnce")
      case True
      then have "Qos p \<noteq> QosAtMostOnce" "upd c (\<lambda>_. x) b2 = b2" by (simp_all add: qos_defs x_def same2)
      with True show ?thesis using assms(1,6) a
        by (simp add: ProcessPublish_def processClientPublish_def b2_def [symmetric] Let_def)
    next
      case False
      then have q2: "Qos p = QosExactlyOnce" "awaits (cheap b c) (MessageID p) = None" using assms(3) by auto
      then have "registerPublishPacketId (now env) (MessageID p) (cheap b2 c) = (x, None)"
        using assms(4) by (simp add: register_ok x_def same2 qos_defs)
      moreover have "Qos p \<noteq> QosAtMostOnce" by (simp add: q2 qos_defs)
      ultimately show ?thesis using assms(1,6) a False q2(1)
        by (simp add: ProcessPublish_def processClientPublish_def b2_def [symmetric] Let_def)
    qed
  qed (simp_all add: same2)
qed






definition closedBroker :: broker where
  "closedBroker = oneClient\<lparr>bauth := Some (AuthFilePlugin \<lparr>File = ''f'', Info = []\<rparr>)\<rparr>"


section \<open>Sessions\<close>



end
