(* ===== verification/Subscribe_Laws.thy ===== *)
theory Subscribe_Laws
  imports Routing
begin

text \<open>
  What one turn of the loops over the topics of a SUBSCRIBE and an UNSUBSCRIBE does: to the index, to
  the client's own table, to the answer; and that it neither writes to anyone nor panics.
\<close>

section \<open>What a turn keeps\<close>

definition same_turn :: "cref \<Rightarrow> broker \<Rightarrow> broker \<Rightarrow> bool" where
  "same_turn c b b' =
     (crashed b' = crashed b \<and> sent (trace b') = sent (trace b) \<and> cnext b' = cnext b
      \<and> (\<forall>d. d \<noteq> c \<longrightarrow> cheap b' d = cheap b d)
      \<and> conn (cheap b' c) = conn (cheap b c) \<and> csession (cheap b' c) = csession (cheap b c))"

lemma same_turn_refl [simp]: "same_turn c b b"
  by (simp add: same_turn_def)

lemma same_turn_trans [trans]: "same_turn c a b \<Longrightarrow> same_turn c b d \<Longrightarrow> same_turn c a d"
  by (simp add: same_turn_def)

lemma same_turn_upd:
  "(\<And>x. conn (f x) = conn x \<and> csession (f x) = csession x) \<Longrightarrow> same_turn c b (upd c f b)"
  by (simp add: same_turn_def)

lemma same_turn_fields [simp]:
  "same_turn c b (b\<lparr>bauth := a\<rparr>)" "same_turn c b (b\<lparr>topicsMgr := tm\<rparr>)" "same_turn c b (b\<lparr>sessionMgr := sm\<rparr>)"
  "same_turn c b (bridgePublish el b)" "same_turn c b (fst (allocSub s b))"
  by (simp_all add: same_turn_def bridgePublish_def emit_def allocSub_def)

lemma same_turn_auth: "brokerTopicAuth env act x t b = (b', ok) \<Longrightarrow> same_turn c b b'"
  by (metis topicAuth_eq same_turn_fields(1))

lemma same_turn_drop: "same_turn c b (dropSub c t r b)"
proof -
  define b1 where "b1 = b\<lparr>topicsMgr := fst (mtUnsubscribe (stopic (sheap b r)) (subPtr r) (topicsMgr b))\<rparr>"
  have "same_turn c b b1" by (simp add: b1_def)
  moreover have "same_turn c b1 (upd c (\<lambda>x. x\<lparr>subMap := AList.delete t (subMap x)\<rparr>) b1)" by (rule same_turn_upd) simp
  ultimately show ?thesis unfolding dropSub_def b1_def by (rule same_turn_trans)
qed

lemma same_turn_enter: "enterSub c topic q sh grp b = (b', r, res) \<Longrightarrow> same_turn c b b'"
  using enterSub_eqs(2) [of c topic q sh grp b b' r res] same_turn_trans [OF same_turn_fields(5) same_turn_fields(2)] by metis

lemma same_turn_session: "csession (cheap b c) \<noteq> None \<Longrightarrow> same_turn c b (onClientSession c f b)"
  by (auto simp: onClientSession_def)

section \<open>The index\<close>

text \<open>The entries a client's subscription to a topic, if it has one, has in the index.\<close>

definition oldEntries :: "broker \<Rightarrow> cref \<Rightarrow> string \<Rightarrow> (string list \<times> gval) set" where
  "oldEntries b c t = {(gs, subPtr r) | gs r. map_of (subMap (cheap b c)) t = Some r}"

definition withoutOld :: "cref \<Rightarrow> string \<Rightarrow> broker \<Rightarrow> broker" where
  "withoutOld c t b = (case map_of (subMap (cheap b c)) t of None \<Rightarrow> b | Some old \<Rightarrow> dropSub c t old b)"

lemma dropSub_subs:
  assumes "subs_inv b"
  shows "mt_subs (topicsMgr (dropSub c t r b)) = mt_subs (topicsMgr b) - {(gs, subPtr r) | gs. True}"
proof -
  have "mt_subs (topicsMgr (dropSub c t r b)) = mt_subs (topicsMgr b) - {(fs, subPtr r) | fs. topicLevels (stopic (sheap b r)) = Inr fs}"
    using unsubscribe_one [of "topicsMgr b" "stopic (sheap b r)" r] assms by (simp add: dropSub_def subs_inv_def)
  moreover have "topicLevels (stopic (sheap b r)) = Inr gs" if "(gs, subPtr r) \<in> mt_subs (topicsMgr b)" for gs
    using subs_inv_entry [OF assms that] by (simp add: entered_def)
  ultimately show ?thesis by blast
qed

lemma withoutOld_eqs:
  assumes "subs_inv b"
  shows "mt_subs (topicsMgr (withoutOld c t b)) = mt_subs (topicsMgr b) - oldEntries b c t"
    "map_of (subMap (cheap (withoutOld c t b) c)) = (map_of (subMap (cheap b c)))(t := None)"
    "mt_kept (topicsMgr (withoutOld c t b)) = mt_kept (topicsMgr b)"
    "snext (withoutOld c t b) = snext b" "sheap (withoutOld c t b) = sheap b" "same_turn c b (withoutOld c t b)"
    "rmsgs (cheap (withoutOld c t b) c) = rmsgs (cheap b c)"
proof -
  show "mt_subs (topicsMgr (withoutOld c t b)) = mt_subs (topicsMgr b) - oldEntries b c t"
    using dropSub_subs [OF assms] by (auto simp: withoutOld_def oldEntries_def split: option.split)
  show "map_of (subMap (cheap (withoutOld c t b) c)) = (map_of (subMap (cheap b c)))(t := None)"
    by (auto simp: withoutOld_def dropSub_def go_map fun_eq_iff split: option.split)
  show "mt_kept (topicsMgr (withoutOld c t b)) = mt_kept (topicsMgr b)"
    by (simp add: withoutOld_def dropSub_def mem_topics.unsubscribe_kept split: option.split)
  show "same_turn c b (withoutOld c t b)" by (simp add: withoutOld_def same_turn_drop split: option.split)
qed (simp_all add: withoutOld_def dropSub_def split: option.split)

lemma withoutOld_goes_on: "goes_on X c CLIENT b \<Longrightarrow> goes_on X c CLIENT (withoutOld c t b)"
  using dropSub_binv [of X b c t] dropSub_live [of c CLIENT b] by (auto simp: withoutOld_def goes_on_def split: option.splits)

section \<open>A topic of a SUBSCRIBE\<close>

text \<open>The turn of the loop for a permitted topic: the earlier subscription goes, the new one enters.\<close>

lemma clientSubscribeTopic_turn:
  assumes "goes_on {} c CLIENT b" "brokerTopicAuth env aSUB (cheap b c) t b = (b1, True)"
    and "splitShare t = Some (sh, grp, topic)" "i < length qoss"
    and "clientSubscribeTopic env c qoss (b, rcs) (i, t) = (b', rcs')"
  defines "r \<equiv> snext b" and "q \<equiv> qoss ! i"
  shows "same_turn c b b'"
    and "topicLevels topic = Inr fs \<Longrightarrow> ValidQos q \<Longrightarrow>
      rcs' = rcs @ [q] \<and> mt_subs (topicsMgr b') = insert (fs, subPtr r) (mt_subs (topicsMgr b) - oldEntries b c t)
      \<and> sheap b' r = \<lparr>sclient = c, stopic = topic, subQos = q, share = sh, groupName = grp\<rparr>
      \<and> map_of (subMap (cheap b' c)) = (map_of (subMap (cheap b c)))(t \<mapsto> r)
      \<and> (\<exists>xs. rmsgs (cheap b' c) = rmsgs (cheap b c) @ xs
             \<and> set xs = {m. \<exists>us. matches fs us \<and> mt_kept (topicsMgr b) us = Some m})"
    and "topicLevels topic = Inl e \<or> \<not> ValidQos q \<Longrightarrow>
      rcs' = rcs @ [QosFailure] \<and> mt_subs (topicsMgr b') = mt_subs (topicsMgr b) - oldEntries b c t
      \<and> map_of (subMap (cheap b' c)) = (map_of (subMap (cheap b c)))(t := None)
      \<and> rmsgs (cheap b' c) = rmsgs (cheap b c)"
proof -
  define b2 where "b2 = bridgePublish (element (cheap b1 c) bSubscribe (now env) [] t) b1"
  obtain v where v: "b1 = b\<lparr>bauth := v\<rparr>" using topicAuth_eq [OF assms(2)] by blast
  have same2: "cheap b2 = cheap b" "topicsMgr b2 = topicsMgr b" "snext b2 = snext b"
    by (simp_all add: b2_def v bridgePublish_def emit_def)
  have turn2: "same_turn c b b2" unfolding b2_def using same_turn_auth [OF assms(2)] same_turn_fields(4) by (rule same_turn_trans)
  have go2: "goes_on {} c CLIENT b2" using assms(1) by (simp add: goes_on_def b2_def v)
  then have inv2: "subs_inv b2" by (simp add: goes_on_def binv_def)
  define b3 where "b3 = withoutOld c t b2"
  note eq3 = withoutOld_eqs [OF inv2, of c t, folded b3_def]
  have go3: "goes_on {} c CLIENT b3" unfolding b3_def using go2 by (rule withoutOld_goes_on)
  have mt3: "mt_inv (topicsMgr b3)" using go3 by (simp add: goes_on_def binv_def subs_inv_def)
  have turn3: "same_turn c b b3" using turn2 eq3(6) by (rule same_turn_trans)
  have old: "oldEntries b2 c t = oldEntries b c t" by (simp add: oldEntries_def same2)
  have sess: "csession (cheap b3 c) \<noteq> None"
    using go3 by (auto simp: goes_on_def live_def binv_def sess_inv_def)
  obtain b4 r' res where e: "enterSub c topic q sh grp b3 = (b4, r', res)" by (cases "enterSub c topic q sh grp b3") auto
  note eq4 = enterSub_eqs [OF e]
  have r': "r' = r" using eq4(1) eq3(4) same2(3) by (simp add: r_def)
  have b4: "cheap b4 = cheap b3" "topicsMgr b4 = fst (mtSubscribe topic q (subPtr r) (topicsMgr b3))"
    "sheap b4 r = \<lparr>sclient = c, stopic = topic, subQos = q, share = sh, groupName = grp\<rparr>"
    using eq4(2) eq4(1) by (auto simp: allocSub_def r')
  have turn4: "same_turn c b b4" using turn3 same_turn_enter [OF e] by (rule same_turn_trans)
  have step: "(b', rcs') = (case res of
        None \<Rightarrow> (b4, rcs @ [QosFailure])
      | Some rq \<Rightarrow>
          (let b5 = upd c (\<lambda>x. x\<lparr>subMap := AList.update t r (subMap x)\<rparr>) b4;
               b6 = onClientSession c (\<lambda>s. fst (AddTopic t q s)) b5
           in (upd c (\<lambda>x. x\<lparr>rmsgs := fst (mtRetained topic (topicsMgr b6) (rmsgs x))\<rparr>) b6, rcs @ [rq])))"
    using assms(4) e r'
    by (simp add: clientSubscribeTopic_def assms(2,3) b2_def [symmetric] withoutOld_def [symmetric] b3_def [symmetric]
        nthOpt_def q_def [symmetric] Let_def flip: assms(5) split: option.split)
  define b5 where "b5 = upd c (\<lambda>x. x\<lparr>subMap := AList.update t r (subMap x)\<rparr>) b4"
  define b6 where "b6 = onClientSession c (\<lambda>s. fst (AddTopic t q s)) b5"
  have "same_turn c b b5" using turn4 unfolding b5_def by (rule same_turn_trans) (rule same_turn_upd, simp)
  moreover have sess5: "csession (cheap b5 c) \<noteq> None" using sess by (simp add: b5_def b4)
  ultimately have "same_turn c b b6" unfolding b6_def using same_turn_session same_turn_trans by blast
  then have turn7: "same_turn c b (upd c (\<lambda>x. x\<lparr>rmsgs := g x\<rparr>) b6)" for g
    by (rule same_turn_trans) (rule same_turn_upd, simp)
  show "same_turn c b b'" using step turn4 turn7 unfolding Let_def b5_def [symmetric] b6_def [symmetric] by (cases res) simp_all
  have eq6: "cheap b6 = cheap b5" "topicsMgr b6 = topicsMgr b4" "sheap b6 = sheap b4"
    using sess5 by (auto simp: b6_def b5_def onClientSession_def)
  show "rcs' = rcs @ [q] \<and> mt_subs (topicsMgr b') = insert (fs, subPtr r) (mt_subs (topicsMgr b) - oldEntries b c t)
      \<and> sheap b' r = \<lparr>sclient = c, stopic = topic, subQos = q, share = sh, groupName = grp\<rparr>
      \<and> map_of (subMap (cheap b' c)) = (map_of (subMap (cheap b c)))(t \<mapsto> r)
      \<and> (\<exists>xs. rmsgs (cheap b' c) = rmsgs (cheap b c) @ xs
             \<and> set xs = {m. \<exists>us. matches fs us \<and> mt_kept (topicsMgr b) us = Some m})"
    if "topicLevels topic = Inr fs" "ValidQos q"
  proof -
    note lv = that(1)
    have ok: "snd (mtSubscribe topic q (subPtr r) (topicsMgr b3)) = (q, None)"
      "mt_subs (topicsMgr b4) = insert (fs, subPtr r) (mt_subs (topicsMgr b3))"
      using mem_subs.subscribe_ok [OF mt3 _ that(2,1), of "subPtr r"] by (simp_all add: b4)
    then have "res = Some q" using eq4(3) by (simp add: r')
    then have b': "b' = upd c (\<lambda>x. x\<lparr>rmsgs := fst (mtRetained topic (topicsMgr b6) (rmsgs x))\<rparr>) b6" "rcs' = rcs @ [q]"
      using step unfolding Let_def b5_def [symmetric] b6_def [symmetric] by simp_all
    have "mt_inv (topicsMgr b4)" using mem_subs.subscribe_inv [OF mt3, of "subPtr r" topic q] by (simp add: b4)
    then obtain xs where xs: "mtRetained topic (topicsMgr b6) (rmsgs (cheap b c)) = (rmsgs (cheap b c) @ xs, None)"
      "set xs = {m. \<exists>us. matches fs us \<and> mt_kept (topicsMgr b4) us = Some m}"
      using mem_retained.retained_ok [OF _ lv, of "topicsMgr b4" "rmsgs (cheap b c)"] unfolding eq6(2) by blast
    have "mt_kept (topicsMgr b4) = mt_kept (topicsMgr b)"
      by (simp add: b4 mem_topics.subscribe_kept eq3(3) same2)
    moreover have "rmsgs (cheap b6 c) = rmsgs (cheap b c)" by (simp add: eq6 b5_def b4 eq3(7) same2)
    ultimately show ?thesis using ok(2) xs
      by (simp add: b' eq6 eq3(1) same2 old b4(1,3)) (simp add: b5_def b4(1) go_map eq3(2) same2)
  qed
  show "rcs' = rcs @ [QosFailure] \<and> mt_subs (topicsMgr b') = mt_subs (topicsMgr b) - oldEntries b c t
      \<and> map_of (subMap (cheap b' c)) = (map_of (subMap (cheap b c)))(t := None)
      \<and> rmsgs (cheap b' c) = rmsgs (cheap b c)"
    if "topicLevels topic = Inl e \<or> \<not> ValidQos q"
  proof -
    have no: "snd (snd (mtSubscribe topic q (subPtr r) (topicsMgr b3))) \<noteq> None"
      "mt_subs (topicsMgr b4) = mt_subs (topicsMgr b3)"
      using mem_subs.subscribe_refused [OF mt3, of "subPtr r" q topic e] that by (auto simp: b4)
    then have "res = None" using eq4(3) by (auto simp: r' split: option.splits)
    then have "b' = b4" "rcs' = rcs @ [QosFailure]" using step by simp_all
    then show ?thesis using no(2) by (simp add: eq3 same2 old b4(1))
  qed
qed

text \<open>A topic that is not permitted, or a shared one without a group, only adds the failure code.\<close>

lemma clientSubscribeTopic_same_turn:
  assumes "goes_on {} c CLIENT b" "i < length qoss" "clientSubscribeTopic env c qoss (b, rcs) (i, t) = (b', rcs')"
  shows "same_turn c b b' \<and> goes_on {} c CLIENT b' \<and> (rcs' = rcs @ [QosFailure] \<or> rcs' = rcs @ [qoss ! i])"
proof -
  obtain b1 ok where a: "brokerTopicAuth env aSUB (cheap b c) t b = (b1, ok)"
    by (cases "brokerTopicAuth env aSUB (cheap b c) t b")
  have go: "goes_on {} c CLIENT b'" using clientSubscribeTopic_inv [OF assms(1), of env qoss rcs i t] assms(3) by simp
  have 1: "same_turn c b b1" using a by (rule same_turn_auth)
  show ?thesis
  proof (cases "ok \<and> splitShare t \<noteq> None")
    case True
    then obtain sh grp topic where s: "splitShare t = Some (sh, grp, topic)" by auto
    have a': "brokerTopicAuth env aSUB (cheap b c) t b = (b1, True)" using a True by simp
    note turn = clientSubscribeTopic_turn [OF assms(1) a' s assms(2,3)]
    show ?thesis
    proof (cases "topicLevels topic")
      case (Inl e)
      then show ?thesis using turn(1) turn(3) [of e] go by simp
    next
      case (Inr fs)
      then show ?thesis using turn(1) turn(2) [OF Inr] turn(3) go by (cases "ValidQos (qoss ! i)") auto
    qed
  next
    case False
    then consider "\<not> ok" | "ok" "splitShare t = None" by blast
    then show ?thesis
      by cases (use assms(3) a 1 go same_turn_trans [OF 1 same_turn_fields(4)] in
        \<open>auto simp: clientSubscribeTopic_def Let_def\<close>)
  qed
qed

lemma subscribe_loop:
  assumes "goes_on {} c CLIENT b" "n + length topics \<le> length qoss"
    and "foldl (clientSubscribeTopic env c qoss) (b, rcs) (enumerate n topics) = (b', rcs')"
  shows "same_turn c b b' \<and> goes_on {} c CLIENT b'
    \<and> (\<exists>codes. rcs' = rcs @ codes \<and> list_all2 (\<lambda>code q. code = QosFailure \<or> code = q) codes (take (length topics) (drop n qoss)))"
  using assms
proof (induction topics arbitrary: b rcs n)
  case Nil
  then show ?case by simp
next
  case (Cons t topics)
  obtain b1 rcs1 where step: "clientSubscribeTopic env c qoss (b, rcs) (n, t) = (b1, rcs1)"
    by (cases "clientSubscribeTopic env c qoss (b, rcs) (n, t)")
  have n: "n < length qoss" using Cons.prems(2) by simp
  note here = clientSubscribeTopic_same_turn [OF Cons.prems(1) n step]
  have rest: "foldl (clientSubscribeTopic env c qoss) (b1, rcs1) (enumerate (Suc n) topics) = (b', rcs')"
    using Cons.prems(3) step by simp
  from Cons.IH [OF _ _ rest] here Cons.prems(2) obtain codes where
    c: "same_turn c b1 b'" "goes_on {} c CLIENT b'" "rcs' = rcs1 @ codes"
      "list_all2 (\<lambda>code q. code = QosFailure \<or> code = q) codes (take (length topics) (drop (Suc n) qoss))"
    by auto
  obtain code where code: "rcs1 = rcs @ [code]" "code = QosFailure \<or> code = qoss ! n" using here by blast
  have "take (length (t # topics)) (drop n qoss) = qoss ! n # take (length topics) (drop (Suc n) qoss)"
    using n by (simp add: Cons_nth_drop_Suc [symmetric])
  then show ?case using c code here same_turn_trans [OF _ c(1)]
    by (intro conjI exI [of _ "code # codes"]) simp_all
qed

section \<open>A topic of an UNSUBSCRIBE\<close>

lemma clientUnsubscribeTopic_turn:
  assumes "goes_on {} c CLIENT b" "b' = clientUnsubscribeTopic env c b t"
  shows "same_turn c b b'" "goes_on {} c CLIENT b'"
    "mt_subs (topicsMgr b') = mt_subs (topicsMgr b) - oldEntries b c t"
    "map_of (subMap (cheap b' c)) = (map_of (subMap (cheap b c)))(t := None)"
proof -
  define b1 where "b1 = bridgePublish (element (cheap b c) bUnsubscribe (now env) [] t) b"
  have same1: "cheap b1 = cheap b" "topicsMgr b1 = topicsMgr b" "sheap b1 = sheap b"
    by (simp_all add: b1_def bridgePublish_def emit_def)
  have go1: "goes_on {} c CLIENT b1" using assms(1) by (simp add: goes_on_def b1_def)
  define b2 where "b2 = onClientSession c (\<lambda>s. fst (RemoveTopic t s)) b1"
  have sess: "csession (cheap b1 c) \<noteq> None" using go1 by (auto simp: goes_on_def live_def binv_def sess_inv_def)
  have go2: "goes_on {} c CLIENT b2"
    using go1 onSession_inv [of "{}" b1 "\<lambda>s. fst (RemoveTopic t s)" c] RemoveTopic_ok(1) by (simp add: goes_on_def b2_def)
  have same2: "cheap b2 = cheap b" "topicsMgr b2 = topicsMgr b" by (simp_all add: b2_def same1)
  have turn1: "same_turn c b b1" by (simp add: b1_def)
  then have turn2: "same_turn c b b2" unfolding b2_def using same_turn_session [OF sess] by (rule same_turn_trans)
  have r: "b' = (if map_of (subMap (cheap b c)) t = None then b1 else withoutOld c t b2)"
    by (simp add: assms(2) clientUnsubscribeTopic_def b1_def [symmetric] same1 withoutOld_def same2 Let_def
        split: option.split) (simp add: b2_def)
  have inv2: "subs_inv b2" using go2 by (simp add: goes_on_def binv_def)
  note eqs = withoutOld_eqs [OF inv2, of c t]
  have "oldEntries b2 c t = oldEntries b c t" by (simp add: oldEntries_def same2)
  moreover have "map_of (subMap (cheap b c)) t = None \<Longrightarrow> oldEntries b c t = {}" by (simp add: oldEntries_def)
  ultimately show "mt_subs (topicsMgr b') = mt_subs (topicsMgr b) - oldEntries b c t"
    using eqs(1) by (simp add: r same1 same2)
  show "map_of (subMap (cheap b' c)) = (map_of (subMap (cheap b c)))(t := None)"
    using eqs(2) by (auto simp: r same1 same2 fun_eq_iff)
  show "same_turn c b b'" using turn1 same_turn_trans [OF turn2 eqs(6)] by (simp add: r)
  show "goes_on {} c CLIENT b'" using go1 withoutOld_goes_on [OF go2] by (simp add: r)
qed

end
