(* ===== verification/Panics.thy ===== *)
theory Panics
  imports Subscribe_Laws
begin

text \<open>
  When the process can panic. Every operation but three leaves the panic flag alone: handing on a
  packet on a broker without metrics, an ill-formed packet of a client whose connection is gone, and a
  SUBSCRIBE with fewer QoS bytes than topics.
\<close>

section \<open>Operations that do not panic\<close>

definition level :: "broker \<Rightarrow> broker \<Rightarrow> bool" where
  "level b b' = (crashed b' = crashed b \<and> metricsOn b' = metricsOn b)"

lemma level_refl [simp]: "level b b"
  by (simp add: level_def)

lemma level_trans [trans]: "level a b \<Longrightarrow> level b c \<Longrightarrow> level a c"
  by (simp add: level_def)

lemma level_expands: "expands b b' \<Longrightarrow> level b b'"
  by (simp add: level_def expands_def same_rest_def)

lemma level_trace: "only_trace b b' \<Longrightarrow> level b b'"
  by (rule level_expands) (rule expands_only_trace)

lemma level_fields [simp]:
  "level b (upd c f b)" "level b (emit e b)" "level b (spawn g b)" "level b (bridgePublish el b)"
  "level b (b\<lparr>bauth := a\<rparr>)" "level b (b\<lparr>topicsMgr := tm\<rparr>)" "level b (b\<lparr>sessionMgr := sm\<rparr>)" "level b (b\<lparr>nodes := ns\<rparr>)"
  "level b (b\<lparr>clients := cs\<rparr>)" "level b (b\<lparr>routes := cs\<rparr>)" "level b (b\<lparr>wpool := wp\<rparr>)" "level b (b\<lparr>clusterPool := ms\<rparr>)"
  "level b (b\<lparr>goroutines := gs\<rparr>)" "level b (b\<lparr>connNext := k\<rparr>)" "level b (retainIn p b)" "level b (dropSub c t r b)"
  "level b (counting z b)"
  by (simp_all add: counting_def level_def emit_def spawn_def bridgePublish_def retainIn_def dropSub_def)

lemma level_fold:
  assumes "P b" "\<And>b x. P b \<Longrightarrow> P (f b x) \<and> level b (f b x)"
  shows "level b (foldl f b xs)"
  using assms(1)
proof (induction xs arbitrary: b)
  case Nil
  then show ?case by simp
next
  case (Cons x xs)
  then show ?case using assms(2) [of b x] level_trans by auto
qed

lemma level_write: "ready b \<Longrightarrow> level b (fst (writePacket env c p b))"
  by (rule level_expands) (rule writePacket_expands)

lemma level_Close: "ready b \<Longrightarrow> level b (Close env c b)"
proof (cases "status (cheap b c) = Disconnected")
  case False
  assume b: "ready b"
  then obtain k where k: "conn (cheap b c) = Some k" using False by (auto simp: ready_def)
  have "level b (closeSelf env c b)" using closeSelf_eqs [OF k] by (simp add: level_def)
  also have "level (closeSelf env c b) (Close env c b)" using Close_expands [OF b False] by (rule level_expands)
  finally show ?thesis .
qed (simp add: Close_idle)

lemma level_auth: "brokerTopicAuth env x y t b = (b', ok) \<Longrightarrow> level b b'"
  by (metis topicAuth_eq level_fields(5))

lemma level_PPM: "ready b \<Longrightarrow> level b (ProcessPublishMessage env (writePacket env) c p b)"
  using level_trans [OF level_fields(15) level_expands [OF expands_delivers [OF ProcessPublishMessage_delivers [OF quiet_writePacket]]]]
  by blast

lemma level_ack:
  assumes "ready b" "writePacket env c ack b = (b1, err)"
  shows "level b (if err then b1 else ProcessPublishMessage env (writePacket env) c p b1)"
proof -
  have "only_trace b b1" using quietD [OF quiet_writePacket assms(1), of env c ack] assms(2) by simp
  then show ?thesis
    using level_trans [OF level_trace level_PPM [OF ready_only_trace [OF assms(1)]]] level_trace by auto
qed

section \<open>The handlers\<close>

lemma level_ProcessPublish:
  assumes "ready b"
  shows "level b (ProcessPublish env c p b)"
proof -
  have router: "level b (processRouterPublish env c p b)"
    using level_PPM [OF assms] level_ack [OF assms]
    by (cases "writePacket env c (PubackP (MessageID p)) b") (auto simp: processRouterPublish_def)
  have fold: "level (b\<lparr>nodes := rs\<rparr>) (foldl (connectNode env) (b\<lparr>nodes := rs\<rparr>) rs)" for rs
  proof -
    have "ready (b\<lparr>nodes := rs\<rparr>)" using assms by (simp add: ready_def)
    then show ?thesis
      by (rule level_expands [OF expands_foldl]) (metis connectNode_expands surj_pair)
  qed
  have remote: "level b (processRemotePublish env c p b)"
    using level_trans [OF level_fields(8) fold]
    by (auto simp: processRemotePublish_def ProcessInfo_def split: option.split)
  obtain b1 ok where a: "brokerTopicAuth env aPUB (cheap b c) (TopicName p) b = (b1, ok)"
    by (cases "brokerTopicAuth env aPUB (cheap b c) (TopicName p) b")
  have ready1: "ready b1" using brokerTopicAuth_binv [OF a] assms by blast
  define b2 where "b2 = bridgePublish (element (cheap b1 c) bPublish (now env) (Payload p) (TopicName p)) b1"
  have 2: "level b b2" unfolding b2_def using level_auth [OF a] level_fields(4) by (rule level_trans)
  have ready2: "ready b2" unfolding b2_def using ready1 only_trace_bridge by (rule ready_only_trace)
  obtain x e where reg: "registerPublishPacketId (now env) (MessageID p) (cheap b2 c) = (x, e)"
    by (cases "registerPublishPacketId (now env) (MessageID p) (cheap b2 c)")
  define b3 where "b3 = upd c (\<lambda>_. x) b2"
  have 3: "level b b3" unfolding b3_def using 2 level_fields(1) by (rule level_trans)
  have ready3: "ready b3" using ready2 register_core [OF reg] by (auto simp: b3_def ready_def same_core_def)
  obtain b4 err where w: "writePacket env c (PubackP (MessageID p)) b2 = (b4, err)"
    by (cases "writePacket env c (PubackP (MessageID p)) b2")
  obtain b5 err' where w': "writePacket env c (PubrecP (MessageID p)) b3 = (b5, err')"
    by (cases "writePacket env c (PubrecP (MessageID p)) b3")
  have "level b (processClientPublish env c p b)"
    using level_auth [OF a] 2 level_trans [OF 2 level_PPM [OF ready2]] level_trans [OF 2 level_ack [OF ready2 w]]
      level_trans [OF 3 level_ack [OF ready3 w']]
    by (cases err; cases err')
      (simp_all add: processClientPublish_def a b2_def [symmetric] b3_def [symmetric] reg w w' Let_def split: option.split)
  with router remote show ?thesis by (simp add: ProcessPublish_def split: ctype.split)
qed

lemma level_turn: "same_turn c b b' \<Longrightarrow> metricsOn b' = metricsOn b \<Longrightarrow> level b b'"
  by (simp add: same_turn_def level_def)

lemma metrics_onClientSession [simp]: "metricsOn (onClientSession c f b) = metricsOn b"
  by (simp add: onClientSession_def crash_def split: option.split)

lemma metrics_turns [simp]:
  "metricsOn (fst (clientSubscribeTopic env c qoss (b, rcs) (i, t))) = metricsOn b"
  "metricsOn (clientUnsubscribeTopic env c b t) = metricsOn b"
proof -
  have auth: "metricsOn (fst (brokerTopicAuth env x y t b)) = metricsOn b" for x y t b
    by (simp add: brokerTopicAuth_def split: option.split prod.split)
  have br: "metricsOn (bridgePublish el b) = metricsOn b" for el b by (simp add: bridgePublish_def emit_def)
  have drop: "metricsOn (dropSub c t r b) = metricsOn b" for c t r b by (simp add: dropSub_def)
  have enter: "metricsOn (fst (enterSub c topic q sh grp b)) = metricsOn b" for c topic q sh grp b
    by (simp add: enterSub_def allocSub_def split: option.split prod.split)
  show "metricsOn (clientUnsubscribeTopic env c b t) = metricsOn b"
    by (simp add: clientUnsubscribeTopic_def br drop Let_def split: option.split)
  obtain b1 ok where a: "brokerTopicAuth env aSUB (cheap b c) t b = (b1, ok)"
    by (cases "brokerTopicAuth env aSUB (cheap b c) t b")
  have b1: "metricsOn b1 = metricsOn b" using auth [of aSUB "cheap b c" t b] a by simp
  have e: "metricsOn b4 = metricsOn b3" if "enterSub c topic q sh grp b3 = (b4, r)" for topic q sh grp b3 b4 r
    using enter [of c topic q sh grp b3] that by simp
  show "metricsOn (fst (clientSubscribeTopic env c qoss (b, rcs) (i, t))) = metricsOn b"
    by (auto simp: clientSubscribeTopic_def a b1 br drop crash_def Let_def split: option.splits prod.splits dest!: e)
qed

lemma level_ProcessSubscribe:
  assumes "binv {} b" "length topics \<le> length qoss"
  shows "level b (ProcessSubscribe env c mid topics qoss b)"
proof (cases "status (cheap b c) = Disconnected")
  case True
  then show ?thesis
    by (simp add: ProcessSubscribe_def processClientSubscribe_def processRouterSubscribe_def split: ctype.split)
next
  case False
  have sends: "level x (foldl (\<lambda>b rm. fst (writePacket env c (PublishP rm) b)) x rms)" if "ready x" for x rms
    using that by (rule level_fold) (auto simp: level_write intro: ready_only_trace quietD [OF quiet_writePacket])
  have client: "level b (processClientSubscribe env c mid topics qoss b)" if "ctyp (cheap b c) = CLIENT"
  proof -
    obtain b1 rcs where f: "foldl (clientSubscribeTopic env c qoss) (b, []) (enumerate 0 topics) = (b1, rcs)"
      by (cases "foldl (clientSubscribeTopic env c qoss) (b, []) (enumerate 0 topics)")
    have m: "metricsOn b1 = metricsOn b"
      using fold_fst [of "\<lambda>x. metricsOn x = metricsOn b" b "clientSubscribeTopic env c qoss" "[]" "enumerate 0 topics"] f by force
    have go: "same_turn c b b1" "goes_on {} c CLIENT b1"
      using subscribe_loop [OF goes_on_start [OF assms(1) that False] _ f] assms(2) by auto
    obtain b2 err where w: "writePacket env c (SubackP mid rcs) b1 = (b2, err)" by (cases "writePacket env c (SubackP mid rcs) b1")
    have ready1: "ready b1" using go(2) by (auto simp: goes_on_def binv_ready)
    have 2: "level b b2" using level_trans [OF level_turn [OF go(1) m] level_write [OF ready1, of env c "SubackP mid rcs"]] w by simp
    have ready2: "ready b2" using ready_only_trace [OF ready1 quietD [OF quiet_writePacket ready1, of env c "SubackP mid rcs"]] w by simp
    have "ready (spawn g b2)" for g using ready2 by (simp add: ready_def spawn_def)
    from sends [OF this] have "level b (foldl (\<lambda>b rm. fst (writePacket env c (PublishP rm) b)) (spawn g b2) rms)" for g rms
      using level_trans [OF 2 level_trans [OF level_fields(3)]] by blast
    with 2 False f w show ?thesis by (simp add: processClientSubscribe_def)
  qed
  have router: "level b (processRouterSubscribe env c mid topics qoss b)" if "ctyp (cheap b c) \<noteq> CLIENT"
  proof -
    have turn: "level x (fst (routerSubscribeTopic c qoss (x, rcs) (i, t)))" if "i < length qoss" for x rcs i t
      using that by (auto simp: routerSubscribeTopic_def enterSub_def allocSub_def level_def nthOpt_def Let_def split: option.split prod.split)
    have loop: "level x (fst (foldl (routerSubscribeTopic c qoss) (x, rcs) (enumerate n ts)))"
      if "n + length ts \<le> length qoss" for x rcs n ts
      using that
    proof (induction ts arbitrary: x rcs n)
      case Nil
      then show ?case by simp
    next
      case (Cons t ts)
      obtain y rcs1 where s: "routerSubscribeTopic c qoss (x, rcs) (n, t) = (y, rcs1)"
        by (cases "routerSubscribeTopic c qoss (x, rcs) (n, t)")
      have "level x y" using turn [of n x rcs t] Cons.prems s by simp
      with Cons.IH [of "Suc n" y rcs1] Cons.prems s show ?case by (auto intro: level_trans)
    qed
    obtain b1 rcs where f: "foldl (routerSubscribeTopic c qoss) (b, []) (enumerate 0 topics) = (b1, rcs)"
      by (cases "foldl (routerSubscribeTopic c qoss) (b, []) (enumerate 0 topics)")
    have 1: "level b b1" using loop [of 0 topics b "[]"] assms(2) f by simp
    have "goes_on {} c (ctyp (cheap b c)) (fst (foldl (routerSubscribeTopic c qoss) (b, []) (enumerate 0 topics)))"
      using goes_on_start [OF assms(1) refl False] by (rule fold_fst) (use routerSubscribeTopic_inv that in force)
    then have "ready b1" using f by (auto simp: goes_on_def binv_ready)
    with 1 False f show ?thesis using level_trans [OF 1 level_write] by (simp add: processRouterSubscribe_def)
  qed
  show ?thesis using client router by (cases "ctyp (cheap b c)") (simp_all add: ProcessSubscribe_def)
qed

lemma level_ProcessUnSubscribe:
  assumes "binv {} b"
  shows "level b (ProcessUnSubscribe env c mid topics b)"
proof (cases "status (cheap b c) = Disconnected")
  case True
  then show ?thesis
    by (simp add: ProcessUnSubscribe_def processClientUnSubscribe_def processRouterUnSubscribe_def split: ctype.split)
next
  case False
  have router: "level b (processRouterUnSubscribe env c mid topics b)"
  proof -
    have turn: "level x (routerUnsubscribeTopic c x t)" for x t
      by (auto simp: routerUnsubscribeTopic_def level_trans [OF level_fields(1) level_fields(16)] Let_def split: option.split prod.split)
    have "binv {} x \<Longrightarrow> binv {} (routerUnsubscribeTopic c x t) \<and> level x (routerUnsubscribeTopic c x t)" for x t
      using turn routerUnsubscribeTopic_binv by blast
    with assms have "level b (foldl (routerUnsubscribeTopic c) b topics)" by (rule level_fold)
    moreover have "binv {} (foldl (routerUnsubscribeTopic c) b topics)"
      using assms by (rule fold_state) (rule routerUnsubscribeTopic_binv)
    ultimately show ?thesis using False level_trans [OF _ level_write [OF binv_ready]] by (simp add: processRouterUnSubscribe_def)
  qed
  have client: "level b (processClientUnSubscribe env c mid topics b)" if "ctyp (cheap b c) = CLIENT"
  proof -
    have turn: "goes_on {} c CLIENT x \<Longrightarrow> goes_on {} c CLIENT (clientUnsubscribeTopic env c x t) \<and> level x (clientUnsubscribeTopic env c x t)" for x t
      using clientUnsubscribeTopic_turn [of c x _ env t] level_turn by simp
    define b1 where "b1 = foldl (clientUnsubscribeTopic env c) b topics"
    have start: "goes_on {} c CLIENT b" using goes_on_start [OF assms that False] .
    have 1: "level b b1" unfolding b1_def using start turn by (rule level_fold)
    have "goes_on {} c CLIENT b1" unfolding b1_def using start by (rule fold_state) (use turn in blast)
    then have ready1: "ready b1" by (auto simp: goes_on_def binv_ready)
    obtain b2 err where w: "writePacket env c (UnsubackP mid) b1 = (b2, err)" by (cases "writePacket env c (UnsubackP mid) b1")
    have 2: "level b b2" "ready b2"
      using level_trans [OF 1 level_write [OF ready1, of env c "UnsubackP mid"]]
        ready_only_trace [OF ready1 quietD [OF quiet_writePacket ready1, of env c "UnsubackP mid"]] w by auto
    have "level b2 (BroadcastSubOrUnsubMessage (writePacket env) q b2)" for q
      by (rule level_trace) (rule Broadcast_quiet [OF quiet_writePacket 2(2)])
    with 2 False w show ?thesis using level_trans [OF 2(1)] by (simp add: processClientUnSubscribe_def b1_def [symmetric])
  qed
  show ?thesis using client router by (simp add: ProcessUnSubscribe_def split: ctype.split)
qed

text \<open>The packets a handler can panic on.\<close>

definition deadly :: "broker \<Rightarrow> message \<Rightarrow> bool" where
  "deadly b m =
     (if validatePacketFields (mpacket m)
      then (case mpacket m of SubscribeP mid topics qoss \<Rightarrow> length qoss < length topics | _ \<Rightarrow> False)
      else conn (cheap b (mclient m)) = None)"

lemma level_ProcessMessage:
  assumes "binv {} b" "\<not> deadly b m"
  shows "level b (ProcessMessage env m b)"
proof -
  let ?c = "mclient m"
  have ready: "ready b" using binv_ready [OF assms(1)] .
  have acked: "level b (fst (writePacket env c p (upd c f b)))" if "\<And>x. same_core x (f x)" for c p f
  proof -
    have "ready (upd c f b)" using binv_ready [OF binv_upd [OF assms(1) that]] .
    then show ?thesis using level_trans [OF level_fields(1) level_write] by blast
  qed
  have "level b (processPacket env ?c (mpacket m) b)" if "validatePacketFields (mpacket m)"
    using assms that
    by (cases "mpacket m")
      (auto simp: processPacket_def deadly_def level_ProcessPublish [OF ready] level_ProcessSubscribe
        level_ProcessUnSubscribe ProcessPing_def level_write [OF ready] level_Close [OF ready] acked)
  with assms(2) show ?thesis by (auto simp: ProcessMessage_def deadly_def Let_def split: option.split)
qed

section \<open>Connections and timers\<close>

lemma level_register:
  assumes "ready b"
  shows "level b (register env msg c b)"
proof -
  define cid where "cid = clientID (cheap b c)"
  have old: "level b (case m of None \<Rightarrow> b | Some d \<Rightarrow> Close env d b)"
    "ready (case m of None \<Rightarrow> b | Some d \<Rightarrow> Close env d b)" for m
  proof -
    show "level b (case m of None \<Rightarrow> b | Some d \<Rightarrow> Close env d b)"
      using level_Close [OF assms] by (simp split: option.split)
    have "steady b (Close env d b)" for d by simp
    then show "ready (case m of None \<Rightarrow> b | Some d \<Rightarrow> Close env d b)"
      using assms by (auto simp: steady_def split: option.split)
  qed
  define b1 where "b1 = (case map_of (clients b) cid of None \<Rightarrow> b | Some d \<Rightarrow> Close env d b)"
  define b2 where "b2 = b1\<lparr>clients := AList.update cid c (clients b1)\<rparr>"
  define b3 where "b3 = OnlineOfflineNotification env (writePacket env) cid True b2"
  have 2: "level b b2" unfolding b2_def b1_def using old(1) level_fields(9) by (rule level_trans)
  have "ready b2" unfolding b2_def b1_def using old(2) by (simp add: ready_def)
  then have "level b2 b3" unfolding b3_def by (intro level_trace OnlineOffline_quiet quiet_writePacket)
  with 2 have 3: "level b b3" by (rule level_trans)
  have "level b (bridgePublish el b3)" for el using 3 level_fields(4) by (rule level_trans)
  moreover define b4 where "b4 = (case map_of (routes b) cid of None \<Rightarrow> b | Some d \<Rightarrow> Close env d b)"
  have "level b b4" unfolding b4_def by (rule old(1))
  then have "level b (b4\<lparr>routes := rs\<rparr>)" for rs using level_fields(10) by (rule level_trans)
  ultimately show ?thesis
    unfolding register_def Let_def cid_def [symmetric] b1_def [symmetric] b2_def [symmetric] b3_def [symmetric] b4_def [symmetric]
    by (simp split: ctype.split)
qed

lemma level_acceptClient:
  assumes "binv {} b" "metricsOn b"
  shows "level b (acceptClient env ty k msg b)"
proof -
  define x where "x = initClient ty k (ClientIdentifier msg) (Username msg) (Password msg) (Keepalive msg) (willOf msg)
    (connLocalIP env) (connRemoteIP env) [] []"
  obtain b1 c where a: "allocClient x b = (b1, c)" by (cases "allocClient x b")
  have "fresh_client x" "ctyp x = ty" by (auto simp: x_def fresh_client_def initClient_def)
  with alloc_pending [OF assms(1) a] have 1: "pending_client c ty (clientID x) b1" by simp
  obtain b2 err where s: "getSession env c msg b1 = (b2, err)" by (cases "getSession env c msg b1")
  have 2: "err = None" "pending_client c ty (clientID x) b2" using getSession_pending [OF 1 s] by auto
  obtain sr mp where "b2 = upd c (\<lambda>x. x\<lparr>csession := Some sr\<rparr>) (b1\<lparr>sessionMgr := mp\<rparr>)" using getSession_eq [OF s] by blast
  then have "level b1 b2" using level_trans [OF level_fields(7) level_fields(1)] by simp
  moreover have "level b b1" using a by (auto simp: allocClient_def level_def)
  ultimately have "level b b2" using level_trans by blast
  moreover have "ready b2" using 2(2) by (auto simp: pending_client_def binv_ready)
  ultimately have 3: "level b (register env msg c b2)" using level_register level_trans by blast
  then have "metricsOn (register env msg c b2)" using assms(2) by (simp add: level_def)
  with 3 2(1) a s show ?thesis
    using level_trans [OF 3 level_trans [OF level_fields(17) level_fields(1)]]
    by (simp add: acceptClient_def x_def [symmetric] Let_def)
qed

lemma level_handleConnection:
  assumes "binv {} b" "metricsOn b"
  shows "level b (handleConnection env ty packet b)"
proof -
  define b0 where "b0 = b\<lparr>connNext := connNext b + 1\<rparr>"
  have 0: "level b b0" by (simp add: b0_def)
  have raw: "level x (fst (rawWrite env k p x))" "binv {} (fst (rawWrite env k p x)) = binv {} x" for x k p
    using level_trace [OF rawWrite_only_trace] rawWrite_binv by auto
  have connect: "level b (handleConnection env ty (Some (ConnectP msg)) b)" for msg
  proof -
    obtain b1 ok where a: "brokerConnectAuth env (ClientIdentifier msg) (Username msg) (Password msg) b0 = (b1, ok)"
      by (cases "brokerConnectAuth env (ClientIdentifier msg) (Username msg) (Password msg) b0")
    obtain v where b1: "b1 = b0\<lparr>bauth := v\<rparr>" using connectAuth_eq [OF a] by blast
    have inv: "binv {} b0" "binv {} b1" using assms(1) by (simp_all add: b0_def b1)
    have 1: "level b b1" using level_trans [OF 0 level_fields(5)] by (simp add: b1)
    have acc: "level b (case rawWrite env k p x of (b2, err) \<Rightarrow> if err then b2 else acceptClient env ty' k msg b2)"
      if "level b x" "binv {} x" for x k p ty'
    proof -
      obtain b2 err where w: "rawWrite env k p x = (b2, err)" by (cases "rawWrite env k p x")
      have "level b b2" "binv {} b2" using level_trans [OF that(1) raw(1)] raw(2) that(2) w by (metis fst_conv)+
      moreover from this have "metricsOn b2" using assms(2) by (simp add: level_def)
      ultimately show ?thesis using level_trans level_acceptClient by (auto simp: w)
    qed
    show ?thesis
      using acc [OF 0 inv(1)] acc [OF 1 inv(2)] level_trans [OF 0 raw(1)] level_trans [OF 1 raw(1)]
      unfolding handleConnection_def Let_def b0_def [symmetric] by (cases "ty = CLIENT") (simp_all add: a)
  qed
  show ?thesis
  proof (cases packet)
    case None
    then show ?thesis using 0 by (simp add: handleConnection_def b0_def)
  next
    case (Some p)
    then show ?thesis using 0 connect by (cases p) (simp_all add: handleConnection_def b0_def)
  qed
qed

lemma level_SubmitWork: "metricsOn b \<Longrightarrow> SubmitWork env cid m b = Some b' \<Longrightarrow> level b b'"
  by (auto simp: SubmitWork_def level_def Let_def split: if_splits)

lemma level_readTurn:
  assumes "metricsOn b" "readTurn env c res b = Some b'"
  shows "level b b'"
proof -
  have stop: "level x (stopReading c x)" "level x (checkContext c x)" for x
    by (simp_all add: stopReading_def checkContext_def level_def Let_def)
  have m: "metricsOn (upd c f b)" for f using assms(1) by simp
  note sub = level_SubmitWork [OF assms(1)] level_trans [OF level_fields(1) level_SubmitWork [OF m]]
  show ?thesis using assms(2)
    by (auto simp: readTurn_def Let_def split: read_result.splits if_splits
        intro: level_trans [OF sub(1) stop(1)] level_trans [OF sub(1) stop(2)] level_trans [OF sub(2) stop(2)])
qed

text \<open>The other steps.\<close>

lemma level_timers:
  assumes "ready b"
  shows "level b (retryDelivery env (writePacket env) c b)" "level b (runGo env g b)" "level b (pingTurn env tick c b)"
    "level b (deleteConnection env cid b)" "level b (ConnectToDiscovery env (writePacket env) b)"
proof -
  define b1 where "b1 = upd c resetRetryTimer b"
  have d: "delivers b b1" unfolding b1_def by (rule delivers_upd) simp
  have "level b1 (foldl (retryElem env (writePacket env) c) b1 xs)" for xs
    using retryAll_frame [OF ready_delivers [OF assms d]] by (intro level_expands expands_delivers) blast
  then have "level b (foldl (retryElem env (writePacket env) c) b1 xs)" for xs
    using level_trans [OF level_expands [OF expands_delivers [OF d]]] by blast
  then show "level b (retryDelivery env (writePacket env) c b)"
    using level_trans [OF _ level_fields(1)] by (simp add: retryDelivery_def b1_def [symmetric] Let_def) (simp add: b1_def)
  show "level b (runGo env g b)"
    using level_trace [OF Broadcast_quiet [OF quiet_writePacket assms]]
      level_expands [OF connectRouter_expands [OF quiet_writePacket assms]]
    by (simp add: runGo_def split: goroutine.split)
  show "level b (deleteConnection env cid b)"
    using level_Close [OF assms] by (simp add: deleteConnection_def split: option.split)
  show "level b (ConnectToDiscovery env (writePacket env) b)"
    using ConnectToDiscovery_expands [OF quiet_writePacket assms] by (rule level_expands)
  obtain b2 err where w: "writePacket env c PingreqP b = (b2, err)" by (cases "writePacket env c PingreqP b")
  have 2: "level b b2" "ready b2"
    using level_write [OF assms, of env c PingreqP] ready_only_trace [OF assms quietD [OF quiet_writePacket assms, of env c PingreqP]]
    by (simp_all add: w)
  then show "level b (pingTurn env tick c b)"
    using level_trans [OF 2(1) level_Close [OF 2(2)]] by (simp add: pingTurn_def w)
qed

end
