(* ===== verification/Subscription_Properties.thy ===== *)
theory Subscription_Properties
  imports Panics Runs
begin

text \<open>
  The properties of subscribing and unsubscribing, and when the process can panic.
\<close>

section \<open>Subscribing\<close>

lemma reachable_goes_on:
  assumes "reachable (NewBroker bid cport router workers auth bridge metrics) b" "workers < 2 ^ 64"
    and "ctyp (cheap b c) = CLIENT" "status (cheap b c) \<noteq> Disconnected"
  shows "goes_on {} c CLIENT b"
  using goes_on_start [OF reachable_binv [OF assms(1,2)] assms(3,4)] .

text \<open>
  C23. A permitted topic of a SUBSCRIBE with a valid QoS and a well-formed filter is granted: the
  answer gets the requested QoS, the index has a new subscription of this client under that filter in
  place of the one the client had for the same topic and is otherwise unchanged, and the messages
  retained for matching topics are put behind those the client was sent for earlier subscriptions.
\<close>

theorem subscription_granted:
  assumes "reachable (NewBroker bid cport router workers auth bridge metrics) b" "workers < 2 ^ 64"
    and "ctyp (cheap b c) = CLIENT" "status (cheap b c) \<noteq> Disconnected"
    and "snd (brokerTopicAuth env aSUB (cheap b c) t b)" "splitShare t = Some (sh, grp, topic)" "i < length qoss"
    and "topicLevels topic = Inr fs" "ValidQos (qoss ! i)"
    and "clientSubscribeTopic env c qoss (b, rcs) (i, t) = (b', rcs')" "r = snext b"
  shows "rcs' = rcs @ [qoss ! i]
    \<and> mt_subs (topicsMgr b') = insert (fs, subPtr r) (mt_subs (topicsMgr b) - oldEntries b c t)
    \<and> sheap b' r = \<lparr>sclient = c, stopic = topic, subQos = qoss ! i, share = sh, groupName = grp\<rparr>
    \<and> map_of (subMap (cheap b' c)) = (map_of (subMap (cheap b c)))(t \<mapsto> r)
    \<and> (\<exists>xs. rmsgs (cheap b' c) = rmsgs (cheap b c) @ xs
           \<and> set xs = {m. \<exists>us. matches fs us \<and> mt_kept (topicsMgr b) us = Some m})"
proof -
  have "brokerTopicAuth env aSUB (cheap b c) t b = (fst (brokerTopicAuth env aSUB (cheap b c) t b), True)"
    using assms(5) by (simp add: prod_eq_iff)
  from clientSubscribeTopic_turn(2) [OF reachable_goes_on [OF assms(1-4)] this assms(6,7,10,8,9)] show ?thesis
    unfolding assms(11) .
qed


text \<open>The client that subscribed, subscribing again to the same topic.\<close>

lemma again_facts:
  "ctyp (cheap subscribed1 0) = CLIENT" "status (cheap subscribed1 0) \<noteq> Disconnected" "snext subscribed1 = 1"
  "snd (brokerTopicAuth calm aSUB (cheap subscribed1 0) ''a'' subscribed1)" "splitShare ''a'' = Some (False, [], ''a'')"
  "topicLevels ''a'' = Inr [''a'']" "oldEntries subscribed1 0 ''a'' = {(gs, subPtr 0) | gs. True}"
proof -
  show "oldEntries subscribed1 0 ''a'' = {(gs, subPtr 0) | gs. True}" by (simp add: oldEntries_def subscribed_client)
qed code_simp+

lemma subscription_granted_witness:
  "mt_subs (topicsMgr (fst (clientSubscribeTopic calm 0 [2] (subscribed1, []) (0, ''a''))))
    = insert ([''a''], subPtr 1) (mt_subs (topicsMgr subscribed1) - {(gs, subPtr 0) | gs. True})"
proof -
  have "ValidQos ([2] ! 0)" by code_simp
  from subscription_granted [OF reach_new(3) _ again_facts(1,2,4,5) _ again_facts(6) this prod.collapse [symmetric] again_facts(3) [symmetric]]
  show ?thesis by (simp only: again_facts(7)) simp
qed


text \<open>
  C25. The answer to a SUBSCRIBE of a connected end user: when every write succeeds, one SUBACK with
  one code for each topic, the requested QoS or the failure code, and behind it every message of the
  client's list of retained messages, which has grown and is never emptied. Nobody else is written to.
\<close>

theorem subscribe_answered:
  assumes "reachable (NewBroker bid cport router workers auth bridge metrics) b" "workers < 2 ^ 64"
    and "ctyp (cheap b c) = CLIENT" "status (cheap b c) \<noteq> Disconnected" "length topics \<le> length qoss"
    and "writeOk env = (\<lambda>_. True)"
    and "b' = ProcessSubscribe env c mid topics qoss b" "k = the (conn (cheap b c))"
  shows "\<exists>codes. sent (trace b') = sent (trace b) @ (k, SubackP mid codes) # map (\<lambda>rm. (k, PublishP rm)) (rmsgs (cheap b' c))
    \<and> list_all2 (\<lambda>code q. code = QosFailure \<or> code = q) codes (take (length topics) qoss)"
proof -
  obtain b1 rcs where f: "foldl (clientSubscribeTopic env c qoss) (b, []) (enumerate 0 topics) = (b1, rcs)"
    by (cases "foldl (clientSubscribeTopic env c qoss) (b, []) (enumerate 0 topics)")
  have loop: "same_turn c b b1" "goes_on {} c CLIENT b1"
    "list_all2 (\<lambda>code q. code = QosFailure \<or> code = q) rcs (take (length topics) qoss)"
    using subscribe_loop [OF reachable_goes_on [OF assms(1-4)] _ f] assms(5) by auto
  have ready1: "ready b1" and live: "status (cheap b1 c) \<noteq> Disconnected"
    using loop(2) by (auto simp: goes_on_def binv_ready live_def)
  have k: "the (conn (cheap b1 c)) = k" using loop(1) by (simp add: same_turn_def assms(8))
  define b2 where "b2 = emit (Wrote k (SubackP mid rcs) True) b1"
  have w: "writePacket env c (SubackP mid rcs) b1 = (b2, False)"
    using live k by (simp add: writePacket_def WriterPacket_ready [OF ready1] rawWrite_def b2_def assms(6) Let_def)
  define b3 where "b3 = spawn (GoBroadcast (SubscribeP mid topics qoss)) b2"
  have same3: "cheap b3 = cheap b1" "sent (trace b3) = sent (trace b) @ [(k, SubackP mid rcs)]"
    using loop(1) by (simp_all add: b3_def b2_def emit_def spawn_def same_turn_def)
  have ready3: "ready b3" using ready1 by (simp add: ready_def same3)
  define rms where "rms = rmsgs (cheap b1 c)"
  have b': "b' = foldl (\<lambda>b rm. fst (writePacket env c (PublishP rm) b)) b3 rms"
    using assms(3,4) f w
    by (simp add: assms(7) ProcessSubscribe_def processClientSubscribe_def b3_def [symmetric] rms_def) (simp add: b2_def emit_def)
  have "only_trace b3 b'"
    unfolding b' using ready3 by (rule quiet_foldl [OF quiet_writePacket]) (rule quietD [OF quiet_writePacket])
  then have "rmsgs (cheap b' c) = rms" by (simp add: only_trace_same(1) same3 rms_def)
  moreover have "sent (trace b') = sent (trace b3) @ concat (map (\<lambda>rm. sendsTo b3 c (PublishP rm)) rms)"
    unfolding b'
  proof (rule foldl_sent [OF ready3, where g = "\<lambda>b rm. sendsTo b c (PublishP rm)"])
    show "only_trace b (fst (writePacket env c (PublishP x) b))
        \<and> sent (trace (fst (writePacket env c (PublishP x) b))) = sent (trace b) @ sendsTo b c (PublishP x)"
      if "ready b" for b x using that by (simp add: quietD [OF quiet_writePacket] writePacket_sent)
    show "sendsTo b' c (PublishP x) = sendsTo b c (PublishP x)" if "only_trace b b'" for b b' x
      using only_trace_same(1) [OF that] by (rule sendsTo_cheap)
  qed
  moreover have "sendsTo b3 c p = [(k, p)]" for p using live k by (simp add: sendsTo_def same3)
  ultimately show ?thesis using loop(3) by (intro exI [of _ rcs]) (simp add: same3 concat_map_singleton)
qed

lemma subscribe_answered_witness:
  "\<exists>codes. sent (trace (ProcessSubscribe calm 0 8 [''a'', ''b''] [0, 3] subscribed1))
    = sent (trace subscribed1) @ (0, SubackP 8 codes)
        # map (\<lambda>rm. (0, PublishP rm)) (rmsgs (cheap (ProcessSubscribe calm 0 8 [''a'', ''b''] [0, 3] subscribed1) 0))
    \<and> list_all2 (\<lambda>code q. code = QosFailure \<or> code = q) codes (take (length [''a'', ''b'']) [0, 3])"
proof (rule subscribe_answered [OF reach_new(3) _ again_facts(1,2)])
  show "0 = the (conn (cheap subscribed1 0))" by (simp add: subscribed_client)
qed (simp_all add: calm_def)

section \<open>Unsubscribing\<close>

text \<open>
  C24. A topic of an UNSUBSCRIBE of a connected end user: its subscription for exactly that topic
  leaves the index and the client's table, and no other subscription of this or any other client is
  touched; nothing happens when it has none.
\<close>

theorem unsubscribed:
  assumes "reachable (NewBroker bid cport router workers auth bridge metrics) b" "workers < 2 ^ 64"
    and "ctyp (cheap b c) = CLIENT" "status (cheap b c) \<noteq> Disconnected"
    and "b' = clientUnsubscribeTopic env c b t"
  shows "mt_subs (topicsMgr b') = mt_subs (topicsMgr b) - oldEntries b c t
    \<and> map_of (subMap (cheap b' c)) = (map_of (subMap (cheap b c)))(t := None)
    \<and> (\<forall>d. d = c \<or> cheap b' d = cheap b d)"
proof -
  note turn = clientUnsubscribeTopic_turn [OF reachable_goes_on [OF assms(1-4)] assms(5)]
  then show ?thesis by (auto simp: same_turn_def)
qed

lemma unsubscribed_witness:
  "mt_subs (topicsMgr (clientUnsubscribeTopic calm 0 subscribed1 ''a''))
    = mt_subs (topicsMgr subscribed1) - {(gs, subPtr 0) | gs. True}"
  using unsubscribed [OF reach_new(3) _ again_facts(1,2) refl, of calm "''a''"] by (simp add: again_facts(7))

section \<open>Panics\<close>

lemma handleEvent_processes:
  assumes "handleEvent env e b = Some b'" "processed e b = Some m" "binv {} b"
  obtains b1 where "b' = ProcessMessage env m b1" "binv {} b1" "cheap b1 = cheap b" "\<not> crashed b1" "level b b1"
proof (cases e)
  case (EvWork i)
  then obtain p where t: "takeTask i (wpool b) = Some (m, p)" "b' = ProcessMessage env m (b\<lparr>wpool := p\<rparr>)"
    using assms(1,2) by (auto simp: handleEvent_def processed_def split: if_splits option.splits)
  show thesis
    by (rule that [OF t(2) takeTask_binv [OF assms(3) t(1)]]) (use assms(1) in \<open>auto simp: handleEvent_def level_def split: if_splits\<close>)
next
  case EvCluster
  then obtain ms where t: "b' = ProcessMessage env m (b\<lparr>clusterPool := ms\<rparr>)"
    using assms(1,2) by (auto simp: handleEvent_def processClusterInfo_def processed_def split: if_splits list.splits)
  show thesis
    by (rule that [OF t]) (use assms(1,3) in \<open>auto simp: handleEvent_def level_def split: if_splits\<close>)
qed (use assms(2) in \<open>auto simp: processed_def\<close>)

lemma handleEvent_level:
  assumes "handleEvent env e b = Some b'" "processed e b = None" "binv {} b" "metricsOn b"
  shows "level b b'"
proof -
  note ready = binv_ready [OF assms(3)]
  have up: "\<not> crashed b" using assms(1) by (simp add: handleEvent_def split: if_splits)
  show ?thesis
  proof (cases e)
    case (EvAccept cl pk)
    then have "b' = handleConnection env (if cl then ROUTER else CLIENT) pk b" using assms(1) up by (simp add: handleEvent_def)
    then show ?thesis using level_handleConnection [OF assms(3,4)] by blast
  next
    case (EvRead c res)
    then have "readTurn env c res b = Some b'" using assms(1) by (simp add: handleEvent_def split: if_splits)
    then show ?thesis using level_readTurn [OF assms(4)] by blast
  next
    case EvGo
    then obtain g gs where "goroutines b = g # gs" "b' = runGo env g (b\<lparr>goroutines := gs\<rparr>)"
      using assms(1) by (auto simp: handleEvent_def split: if_splits list.splits)
    moreover have "ready (b\<lparr>goroutines := gs\<rparr>)" using ready by (simp add: ready_def)
    ultimately show ?thesis using level_trans [OF level_fields(13) level_timers(2)] by blast
  qed (use assms(1,2) up level_timers [OF ready] in
      \<open>auto simp: handleEvent_def processClusterInfo_def processed_def level_def upd_def split: if_splits option.splits list.splits\<close>)
qed

lemma handleEvent_calm:
  assumes "handleEvent env e b = Some b'" "processed e b = None" "binv {} b" "metricsOn b"
  shows "\<not> crashed b'"
  using handleEvent_level [OF assms] assms(1) by (simp add: level_def handleEvent_def split: if_splits)



end
