(* ===== verification/Cluster_Properties.thy ===== *)
theory Cluster_Properties
  imports Broker_Examples
begin

text \<open>
  The properties of the connections between brokers: how long dialling goes on, and the counters a
  router keeps of the topics routed to it.
\<close>

section \<open>Dialling\<close>

text \<open>The pause before the k-th attempt, when there is one.\<close>

definition lastPause :: "nat \<Rightarrow> nat \<Rightarrow> nat" where
  "lastPause limit k = (if k = 0 then 0 else min limit (2 ^ (k - 1)))"

lemma nextDelay_last: "0 < limit \<Longrightarrow> nextDelay limit (lastPause limit k) = min limit (2 ^ k)"
  by (cases k) (auto simp: nextDelay_def lastPause_def Let_def min_def)

lemma lastPause_Suc: "lastPause limit (Suc k) = min limit (2 ^ k)"
  by (simp add: lastPause_def)

lemma routerDial_run:
  "k \<le> 51 \<Longrightarrow> \<exists>m. k \<le> m \<and> m \<le> 51 \<and> (\<forall>j. k \<le> j \<and> j < m \<longrightarrow> \<not> ok j) \<and> (ok m \<or> m = 51)
     \<and> routerDial ok k (lastPause 32 k) = (map (\<lambda>i. min 32 (2 ^ i)) [k..<m], ok m)"
proof (induction "51 - k" arbitrary: k)
  case 0
  then have "k = 51" by simp
  then show ?case by (intro exI [of _ 51]) (auto simp: routerDial.simps [of ok 51])
next
  case (Suc n)
  show ?case
  proof (cases "ok k")
    case True
    then show ?thesis using Suc.prems by (intro exI [of _ k]) (auto simp: routerDial.simps [of ok k])
  next
    case False
    have k: "k < 51" using Suc.hyps(2) by simp
    have "routerDial ok k (lastPause 32 k)
        = (let r = routerDial ok (Suc k) (lastPause 32 (Suc k)) in (min 32 (2 ^ k) # fst r, snd r))"
      using k False by (simp add: routerDial.simps [of ok k] nextDelay_last lastPause_Suc)
    moreover obtain m where m: "Suc k \<le> m" "m \<le> 51" "\<forall>j. Suc k \<le> j \<and> j < m \<longrightarrow> \<not> ok j" "ok m \<or> m = 51"
      "routerDial ok (Suc k) (lastPause 32 (Suc k)) = (map (\<lambda>i. min 32 (2 ^ i)) [Suc k..<m], ok m)"
    proof -
      have "n = 51 - Suc k" "Suc k \<le> 51" using Suc.hyps(2) k by simp_all
      then show ?thesis using Suc.hyps(1) that by blast
    qed
    moreover have "\<not> ok j" if "k \<le> j" "j < m" for j using that False m(3) by (cases "j = k") auto
    moreover have "[k..<m] = k # [Suc k..<m]" using m(1) by (simp add: upt_conv_Cons)
    ultimately show ?thesis by (intro exI [of _ m]) (simp add: Let_def)
  qed
qed

lemma delays_run: "0 < limit \<Longrightarrow> delays limit (lastPause limit k) n = map (\<lambda>i. min limit (2 ^ i)) [k..<k + n]"
proof (induction n arbitrary: k)
  case 0
  then show ?case by simp
next
  case (Suc n)
  have "[k..<k + Suc n] = k # [Suc k..<Suc k + n]" by (simp add: upt_conv_Cons del: upt_Suc)
  then show ?case using Suc by (simp add: nextDelay_last flip: lastPause_Suc)
qed

text \<open>
  C39. Dialling another broker always ends: at the first attempt that succeeds, or with the 52nd
  failure. The pauses are one second, doubling up to 32, so all of them together are at most 1503
  seconds; and a dialling that gives up changes nothing of the broker. The pauses of the connection
  to the hub, which has no such end, double in the same way up to 20 seconds.
\<close>

theorem dialling_ends:
  assumes "ok = dialOk env"
  shows "\<exists>m. m \<le> 51 \<and> (\<forall>j < m. \<not> ok j) \<and> (ok m \<or> m = 51)
    \<and> routerDial ok 0 0 = (map (\<lambda>i. min 32 (2 ^ i)) [0..<m], ok m)
    \<and> sum_list (fst (routerDial ok 0 0)) \<le> 1503
    \<and> (\<not> ok m \<longrightarrow> only_trace b (connectRouter env w rid addr b))
    \<and> delays 20 0 n = map (\<lambda>i. min 20 (2 ^ i)) [0..<n]"
proof -
  obtain m where m: "m \<le> 51" "\<forall>j. 0 \<le> j \<and> j < m \<longrightarrow> \<not> ok j" "ok m \<or> m = 51"
    "routerDial ok 0 0 = (map (\<lambda>i. min 32 (2 ^ i)) [0..<m], ok m)"
    using routerDial_run [of 0 ok] by (auto simp: lastPause_def)
  let ?pauses = "\<lambda>k. map (\<lambda>i. min 32 (2 ^ i)) [0..<k] :: nat list"
  have "[0..<51] = [0..<m] @ [m..<51]" using upt_add_eq_append [of 0 m "51 - m"] m(1) by simp
  then have "sum_list (?pauses m) \<le> sum_list (?pauses 51)" by simp
  also have "sum_list (?pauses 51) = 1503" by (simp add: upt_conv_Cons)
  finally have sum: "sum_list (?pauses m) \<le> 1503" .
  have trace: "only_trace b (emit e (foldl (\<lambda>b d. emit (Slept d) (emit (Dialed addr False) b)) b ps))" for e ps
  proof -
    have "only_trace b (foldl (\<lambda>b d. emit (Slept d) (emit (Dialed addr False) b)) b ps)"
      by (rule only_trace_foldl [where P = "\<lambda>_. True"]) (blast intro: only_trace_trans)+
    then show ?thesis using only_trace_emit by (rule only_trace_trans)
  qed
  have "\<not> ok m \<longrightarrow> only_trace b (connectRouter env w rid addr b)"
    using m(4) trace by (simp add: connectRouter_def assms Let_def)
  moreover have "delays 20 0 n = map (\<lambda>i. min 20 (2 ^ i)) [0..<n]"
    using delays_run [of 20 0 n] by (simp add: lastPause_def)
  ultimately show ?thesis using m sum by (intro exI [of _ m]) simp
qed

lemma dialling_ends_witness:
  "sum_list (fst (routerDial (\<lambda>_. False) 0 0)) \<le> 1503"
proof -
  have "(\<lambda>_. False) = dialOk (calm\<lparr>dialOk := \<lambda>_. False\<rparr>)" by simp
  from dialling_ends [OF this] show ?thesis by blast
qed

section \<open>The counters of routed topics\<close>

lemma routed_adds: "n < 2 ^ 64 \<Longrightarrow> routed ((addSubMap t ^^ n) m) t = routed m t + of_nat n"
  by (induction n) (simp_all add: routed_add algebra_simps)

lemma routed_dels:
  fixes n :: nat
  assumes "routed m t = of_nat n" "k < n" "n < 2 ^ 64"
  shows "routed (((\<lambda>m. fst (delSubMap t m)) ^^ k) m) t = of_nat (n - k)"
  using assms(2)
proof (induction k)
  case 0
  then show ?case using assms(1) by simp
next
  case (Suc k)
  then have r: "routed (((\<lambda>m. fst (delSubMap t m)) ^^ k) m) t = of_nat (n - k)" by simp
  have "unat (of_nat (n - k) :: uint64) = n - k" using assms(3) by (simp add: unat_of_nat)
  then have "1 < (of_nat (n - k) :: uint64)" using Suc.prems by (simp add: word_less_nat_alt)
  moreover have "(of_nat (n - k) :: uint64) - 1 = of_nat (n - Suc k)"
    using Suc.prems by (simp add: of_nat_diff algebra_simps)
  ultimately show ?case by (simp add: routed_del(2) r)
qed

text \<open>
  The counter of a topic follows its subscriptions and cancellations as long as one is left:
  after n subscriptions each cancellation reports how many remain. The last one reports none, which
  takes the router off the topic, but leaves the counter at one: the next subscription counts as the
  second, and it takes two cancellations to be taken off again. The counters of other topics are
  untouched.
\<close>

theorem router_counter:
  assumes "routed m t = 0" "0 < n" "n < 2 ^ 63" "k < n"
    and "m' = (addSubMap t ^^ n) m" "cancel = (\<lambda>m. fst (delSubMap t m))" "u \<noteq> t"
  shows "routed ((cancel ^^ k) m') t = of_nat (n - k)
    \<and> snd (delSubMap t ((cancel ^^ (n - 1)) m')) = 0
    \<and> routed ((cancel ^^ n) m') t = 1
    \<and> snd (delSubMap t (addSubMap t ((cancel ^^ n) m'))) = 1
    \<and> routed ((cancel ^^ k) m') u = routed m u"
proof -
  have n: "n < 2 ^ 64" using assms(3) by simp
  have r: "routed m' t = of_nat n" using routed_adds [OF n, of t m] by (simp add: assms(1,5))
  have one: "routed ((cancel ^^ (n - 1)) m') t = 1"
    using routed_dels [OF r _ n, of "n - 1"] assms(2) by (simp add: assms(6))
  have "(cancel ^^ n) m' = cancel ((cancel ^^ (n - 1)) m')" using assms(2) by (cases n) simp_all
  then have last: "routed ((cancel ^^ n) m') t = 1" using one by (simp add: assms(6) routed_del(2))
  have "snd (delSubMap t (addSubMap t ((cancel ^^ n) m'))) = 1" by (simp add: routed_del(1) routed_add last)
  moreover have "routed ((addSubMap t ^^ i) m) u = routed m u" for i using assms(7) by (induction i) (simp_all add: routed_add)
  then have "routed ((cancel ^^ i) m') u = routed m u" for i
    using assms(7) by (induction i) (simp_all add: assms(5,6) routed_del(2))
  moreover have "snd (delSubMap t ((cancel ^^ (n - 1)) m')) = 0" using one by (simp add: routed_del(1))
  ultimately show ?thesis using routed_dels [OF r assms(4) n] last by (simp add: assms(6))
qed

lemma router_counter_witness:
  "routed (((\<lambda>m. fst (delSubMap ''a'' m)) ^^ 2) ((addSubMap ''a'' ^^ 2) [])) ''a'' = 1"
  using router_counter [of "[]" "''a''" 2 0 _ _ "''b''", OF _ _ _ _ refl refl] by (simp add: routed_def)

end
