(* ===== verification/Config.thy ===== *)
theory Config
  imports Connections
begin

text \<open>
  Configuration and start-up (\<^verbatim>\<open>broker/config.go\<close>, \<^verbatim>\<open>NewBroker\<close>, \<^verbatim>\<open>Start\<close> and the
  listeners of \<^verbatim>\<open>broker/broker.go\<close>): the command line, the configuration file, the checks, the
  TLS settings, the services started, and the accept loops.
\<close>

section \<open>The configuration\<close>

record TLSInfo =
  Verify :: bool
  CaFile :: string
  CertFile :: string
  KeyFile :: string

record RouteInfo =
  routeHost :: string
  routePort :: string

text \<open>
  The field \<^verbatim>\<open>plugins\<close> is a parameter of the type: in the file it holds two names, in the
  program two plugins, each nil when the file says nothing about plugins.
\<close>

record 'p Config =
  Worker :: int
  HTTPPort :: string
  Host :: string
  Port :: string
  Cluster :: RouteInfo
  Router :: string
  TlsHost :: string
  TlsPort :: string
  WsPath :: string
  WsPort :: string
  WsTLS :: bool
  TlsInfo :: TLSInfo
  Debug :: bool
  Plugin :: 'p

record Plugins =
  PluginAuth :: "authPlugin option"
  PluginBridge :: bool   \<comment> \<open>whether there is a bridge\<close>

record NamedPlugins =
  NamedAuth :: string
  NamedBridge :: string

definition zeroConfig :: "'p \<Rightarrow> 'p Config" where
  "zeroConfig p =
     \<lparr>Worker = 0, HTTPPort = [], Host = [], Port = [], Cluster = \<lparr>routeHost = [], routePort = []\<rparr>, Router = [],
      TlsHost = [], TlsPort = [], WsPath = [], WsPort = [], WsTLS = False,
      TlsInfo = \<lparr>Verify = False, CaFile = [], CertFile = [], KeyFile = []\<rparr>, Debug = False, Plugin = p\<rparr>"

definition noPlugins :: Plugins where
  "noPlugins = \<lparr>PluginAuth = None, PluginBridge = False\<rparr>"

definition DefaultConfig :: "Plugins Config" where
  "DefaultConfig = (zeroConfig noPlugins)\<lparr>Worker := 4096, Host := ''0.0.0.0'', Port := ''1883''\<rparr>"

text \<open>Every way the configuration can fail. \<open>Exit\<close> is the end of the process with a status.\<close>

datatype config_failure =
    Exit nat
  | ErrReadConfig
  | ErrUnmarshal
  | PluginFailure init_failure
  | BridgeFailure kafka_failure
  | ErrClusterPort
  | ErrTlsFiles

section \<open>The checks\<close>

text \<open>\<^verbatim>\<open>Config.check\<close>: defaults are filled in and two combinations refused, in this order.\<close>

definition check :: "'p Config \<Rightarrow> config_failure + 'p Config" where
  "check c0 =
     (let c1 = (if Worker c0 = 0 then c0\<lparr>Worker := 1024\<rparr> else c0);
          c2 = (if Port c1 \<noteq> [] \<and> Host c1 = [] then c1\<lparr>Host := ''0.0.0.0''\<rparr> else c1);
          c3 = (if routePort (Cluster c2) \<noteq> [] \<and> routeHost (Cluster c2) = []
                then c2\<lparr>Cluster := (Cluster c2)\<lparr>routeHost := ''0.0.0.0''\<rparr>\<rparr> else c2)
      in if Router c3 \<noteq> [] \<and> routePort (Cluster c3) = [] then Inl ErrClusterPort
         else if TlsPort c3 \<noteq> [] then
           (if CertFile (TlsInfo c3) = [] \<or> KeyFile (TlsInfo c3) = [] then Inl ErrTlsFiles
            else Inr (if TlsHost c3 = [] then c3\<lparr>TlsHost := ''0.0.0.0''\<rparr> else c3))
         else Inr c3)"

section \<open>The configuration file\<close>

text \<open>
  What start-up finds outside: the files, read whole or opened for reading, the JSON decoder for each
  type, the Kafka client, the integer parser of the flag package, and the TLS library.
\<close>

record world =
  readFile :: "string \<Rightarrow> string option"
  decodeConfig :: "string \<Rightarrow> NamedPlugins option Config option"
  openFile :: "string \<Rightarrow> string + (string \<times> read_end)"
  decodeHttp :: "string \<Rightarrow> httpConfig option"
  decodeKafka :: "string \<Rightarrow> kafakConfig option"
  newProducer :: "string list \<Rightarrow> bool"
  parseInt :: "string \<Rightarrow> int option"
  loadKeyPair :: "string \<Rightarrow> string \<Rightarrow> string option"
  leafParses :: "string \<Rightarrow> bool"
  caParses :: "string \<Rightarrow> bool"

text \<open>
  \<^verbatim>\<open>filepath.Clean\<close>: empty elements and dots go, a \<^verbatim>\<open>..\<close> takes the element before it
  along, unless there is none: then it stays, or goes at the root. \<open>out\<close> is the result so far, backwards.
\<close>

fun cleanElems :: "bool \<Rightarrow> string list \<Rightarrow> string list \<Rightarrow> string list" where
  "cleanElems rooted out [] = rev out"
| "cleanElems rooted out (x # xs) =
     (if x = [] \<or> x = ''.'' then cleanElems rooted out xs
      else if x = ''..'' then
        (if out \<noteq> [] \<and> hd out \<noteq> ''..'' then cleanElems rooted (tl out) xs
         else if rooted then cleanElems rooted out xs
         else cleanElems rooted (x # out) xs)
      else cleanElems rooted (x # out) xs)"

definition Clean :: "string \<Rightarrow> string" where
  "Clean path =
     (let rooted = hasPrefix path ''/''; p = joinc (CHR ''/'') (cleanElems rooted [] (splitc (CHR ''/'') path))
      in if rooted then CHR ''/'' # p else if p = [] then ''.'' else p)"

text \<open>\<^verbatim>\<open>Plugins.UnmarshalJSON\<close>, \<^verbatim>\<open>bridge.NewBridgeMQ\<close>: without the key there are no plugins.\<close>

definition Kafka :: string where "Kafka = ''kafka''"

definition NewBridgeMQ :: "world \<Rightarrow> string \<Rightarrow> kafka_failure + bool" where
  "NewBridgeMQ w name =
     (if name = Kafka then map_sum id (\<lambda>_. True) (InitKafka (readFile w) (decodeKafka w) (newProducer w)) else Inr True)"

definition pluginsOf :: "world \<Rightarrow> NamedPlugins option \<Rightarrow> config_failure + Plugins" where
  "pluginsOf w named =
     (case named of
        None \<Rightarrow> Inr noPlugins
      | Some n \<Rightarrow>
          (case NewAuth (aclInit (openFile w)) (httpInit (readFile w) (decodeHttp w)) (NamedAuth n) of
             Inl e \<Rightarrow> Inl (PluginFailure e)
           | Inr a \<Rightarrow>
               (case NewBridgeMQ w (NamedBridge n) of
                  Inl e \<Rightarrow> Inl (BridgeFailure e)
                | Inr br \<Rightarrow> Inr \<lparr>PluginAuth = Some a, PluginBridge = br\<rparr>)))"

definition LoadConfig :: "world \<Rightarrow> string \<Rightarrow> config_failure + Plugins Config" where
  "LoadConfig w filename =
     (case readFile w (Clean filename) of
        None \<Rightarrow> Inl ErrReadConfig
      | Some content \<Rightarrow>
          (case decodeConfig w content of
             None \<Rightarrow> Inl ErrUnmarshal
           | Some c \<Rightarrow>
               map_sum id
                 (\<lambda>p. \<lparr>Worker = Worker c, HTTPPort = HTTPPort c, Host = Host c, Port = Port c, Cluster = Cluster c,
                        Router = Router c, TlsHost = TlsHost c, TlsPort = TlsPort c, WsPath = WsPath c, WsPort = WsPort c,
                        WsTLS = WsTLS c, TlsInfo = TlsInfo c, Debug = Debug c, Plugin = p\<rparr>)
                 (pluginsOf w (Plugin c))))"

section \<open>The command line\<close>

text \<open>
  The flags \<^verbatim>\<open>ConfigureConfig\<close> declares, and the variables they set: those of the configuration,
  \<^verbatim>\<open>help\<close>, \<^verbatim>\<open>configFile\<close>, and whether the flag \<^verbatim>\<open>D\<close> was given at all.
\<close>

datatype flag_kind = BoolFlag | IntFlag | StringFlag

definition flagKind :: "string \<Rightarrow> flag_kind option" where
  "flagKind name =
     (if name \<in> set [''h'', ''help'', ''debug'', ''d'', ''D''] then Some BoolFlag
      else if name \<in> set [''w'', ''worker''] then Some IntFlag
      else if name \<in> set [''httpport'', ''hp'', ''port'', ''p'', ''host'', ''cp'', ''clusterport'', ''r'', ''router'',
                           ''ws'', ''wsport'', ''wsp'', ''wspath'', ''config'', ''c''] then Some StringFlag
      else None)"

record flags =
  fconfig :: "Plugins Config"
  fhelp :: bool
  fconfigFile :: string
  fD :: bool

definition defaultFlags :: flags where
  "defaultFlags =
     \<lparr>fconfig = (zeroConfig noPlugins)\<lparr>Worker := 1024, HTTPPort := ''8080'', Port := ''1883'', Host := ''0.0.0.0''\<rparr>,
      fhelp = False, fconfigFile = [], fD = False\<rparr>"

text \<open>\<^verbatim>\<open>strconv.ParseBool\<close>\<close>

definition parseBool :: "string \<Rightarrow> bool option" where
  "parseBool s =
     (if s \<in> set [''1'', ''t'', ''T'', ''true'', ''TRUE'', ''True''] then Some True
      else if s \<in> set [''0'', ''f'', ''F'', ''false'', ''FALSE'', ''False''] then Some False
      else None)"

definition onConfig :: "(Plugins Config \<Rightarrow> Plugins Config) \<Rightarrow> flags \<Rightarrow> flags" where
  "onConfig f s = s\<lparr>fconfig := f (fconfig s)\<rparr>"

definition setBool :: "string \<Rightarrow> bool \<Rightarrow> flags \<Rightarrow> flags" where
  "setBool name v s =
     (if name \<in> set [''h'', ''help''] then s\<lparr>fhelp := v\<rparr>
      else if name = ''D'' then s\<lparr>fD := True\<rparr>
      else onConfig (\<lambda>c. c\<lparr>Debug := v\<rparr>) s)"

definition setString :: "string \<Rightarrow> string \<Rightarrow> flags \<Rightarrow> flags" where
  "setString name v s =
     (if name \<in> set [''httpport'', ''hp''] then onConfig (\<lambda>c. c\<lparr>HTTPPort := v\<rparr>) s
      else if name \<in> set [''port'', ''p''] then onConfig (\<lambda>c. c\<lparr>Port := v\<rparr>) s
      else if name = ''host'' then onConfig (\<lambda>c. c\<lparr>Host := v\<rparr>) s
      else if name \<in> set [''cp'', ''clusterport''] then onConfig (\<lambda>c. c\<lparr>Cluster := (Cluster c)\<lparr>routePort := v\<rparr>\<rparr>) s
      else if name \<in> set [''r'', ''router''] then onConfig (\<lambda>c. c\<lparr>Router := v\<rparr>) s
      else if name \<in> set [''ws'', ''wsport''] then onConfig (\<lambda>c. c\<lparr>WsPort := v\<rparr>) s
      else if name \<in> set [''wsp'', ''wspath''] then onConfig (\<lambda>c. c\<lparr>WsPath := v\<rparr>) s
      else s\<lparr>fconfigFile := v\<rparr>)"

definition setFlag :: "world \<Rightarrow> flag_kind \<Rightarrow> string \<Rightarrow> string \<Rightarrow> flags \<Rightarrow> flags option" where
  "setFlag w k name v s =
     (case k of
        BoolFlag \<Rightarrow> map_option (\<lambda>x. setBool name x s) (parseBool v)
      | IntFlag \<Rightarrow> map_option (\<lambda>n. onConfig (\<lambda>c. c\<lparr>Worker := n\<rparr>) s) (parseInt w v)
      | StringFlag \<Rightarrow> Some (setString name v s))"

text \<open>
  \<^verbatim>\<open>flag.FlagSet.Parse\<close>. What is not a flag ends the parsing. An argument that does not parse is
  an error, which calls the usage function; that prints and exits with status 0.
\<close>

datatype arg = NoFlag | BadFlag | FlagArg string "string option"

definition scanArg :: "string \<Rightarrow> arg" where
  "scanArg s =
     (if length s < 2 \<or> hd s \<noteq> CHR ''-'' then NoFlag
      else if s = ''--'' then NoFlag
      else
        (let body = (if s ! 1 = CHR ''-'' then drop 2 s else drop 1 s) in
         if body = [] \<or> hd body = CHR ''-'' \<or> hd body = CHR ''='' then BadFlag
         else (case indexOf (\<lambda>c. c = CHR ''='') body of
             None \<Rightarrow> FlagArg body None
           | Some i \<Rightarrow> FlagArg (take i body) (Some (drop (i + 1) body)))))"

fun parseFlags :: "world \<Rightarrow> flags \<Rightarrow> string list \<Rightarrow> config_failure + flags" where
  "parseFlags w s [] = Inr s"
| "parseFlags w s (a # rest) =
     (case scanArg a of
        NoFlag \<Rightarrow> Inr s
      | BadFlag \<Rightarrow> Inl (Exit 0)
      | FlagArg name val \<Rightarrow>
          (case flagKind name of
             None \<Rightarrow> Inl (Exit 0)
           | Some k \<Rightarrow>
               (case val of
                  Some v \<Rightarrow>
                    (case setFlag w k name v s of None \<Rightarrow> Inl (Exit 0) | Some s1 \<Rightarrow> parseFlags w s1 rest)
                | None \<Rightarrow>
                    if k = BoolFlag
                    then (case setFlag w k name ''true'' s of None \<Rightarrow> Inl (Exit 0) | Some s1 \<Rightarrow> parseFlags w s1 rest)
                    else (case rest of
                        [] \<Rightarrow> Inl (Exit 0)
                      | v # rest1 \<Rightarrow>
                          (case setFlag w k name v s of None \<Rightarrow> Inl (Exit 0) | Some s1 \<Rightarrow> parseFlags w s1 rest1)))))"

definition ConfigureConfig :: "world \<Rightarrow> string list \<Rightarrow> config_failure + Plugins Config" where
  "ConfigureConfig w args =
     (case parseFlags w defaultFlags args of
        Inl e \<Rightarrow> Inl e
      | Inr s \<Rightarrow>
          if fhelp s then Inl (Exit 0)
          else
            (let c1 = (if fD s then (fconfig s)\<lparr>Debug := True\<rparr> else fconfig s)
             in case (if fconfigFile s \<noteq> [] then LoadConfig w (fconfigFile s) else Inr c1) of
                  Inl e \<Rightarrow> Inl e
                | Inr c2 \<Rightarrow> check c2))"

section \<open>TLS settings\<close>

datatype tls_failure = ErrKeyPair | ErrLeaf | ErrReadCA | ErrParseCA

record tlsConfig =
  Certificates :: string
  RequireClientCert :: bool
  ClientCAs :: "string option"

definition NewTLSConfig :: "world \<Rightarrow> TLSInfo \<Rightarrow> tls_failure + tlsConfig" where
  "NewTLSConfig w info =
     (case loadKeyPair w (CertFile info) (KeyFile info) of
        None \<Rightarrow> Inl ErrKeyPair
      | Some cert \<Rightarrow>
          if \<not> leafParses w cert then Inl ErrLeaf
          else
            (let config = \<lparr>Certificates = cert, RequireClientCert = Verify info, ClientCAs = None\<rparr> in
             if CaFile info \<noteq> [] then
               (case readFile w (CaFile info) of
                  None \<Rightarrow> Inl ErrReadCA
                | Some rootPEM \<Rightarrow>
                    if \<not> caParses w rootPEM then Inl ErrParseCA else Inr (config\<lparr>ClientCAs := Some rootPEM\<rparr>))
             else Inr config))"

section \<open>The broker of a configuration\<close>

text \<open>
  \<^verbatim>\<open>NewBroker\<close> as it is called: a nil configuration is the default one, and the TLS settings can
  fail. Metrics are off until the HTTP server is started.
\<close>

definition newBrokerOf :: "world \<Rightarrow> string \<Rightarrow> Plugins Config option \<Rightarrow> tls_failure + broker \<times> tlsConfig option" where
  "newBrokerOf w bid config =
     (let c = (case config of None \<Rightarrow> DefaultConfig | Some c \<Rightarrow> c);
          b = NewBroker bid (routePort (Cluster c)) (Router c) (Worker c) (PluginAuth (Plugin c)) (PluginBridge (Plugin c)) False
      in if TlsPort c \<noteq> [] then map_sum id (\<lambda>t. (b, Some t)) (NewTLSConfig w (TlsInfo c)) else Inr (b, None))"

text \<open>
  \<^verbatim>\<open>Start\<close>: the goroutines it starts, in order; with a router it also connects to the hub. The
  first thing the HTTP server does is to create the metrics, which the model does with the start.
\<close>

datatype service = HTTPServer | ClientListener bool | ClusterListener | WebsocketListener | ClusterLoop

definition services :: "Plugins Config \<Rightarrow> service list" where
  "services c =
     (if HTTPPort c \<noteq> [] then [HTTPServer] else [])
     @ (if Port c \<noteq> [] then [ClientListener False] else [])
     @ (if routePort (Cluster c) \<noteq> [] then [ClusterListener] else [])
     @ (if WsPort c \<noteq> [] then [WebsocketListener] else [])
     @ (if TlsPort c \<noteq> [] then [ClientListener True] else [])
     @ (if Router c \<noteq> [] then [ClusterLoop] else [])"

definition Start :: "env \<Rightarrow> Plugins Config \<Rightarrow> broker \<Rightarrow> service list \<times> broker" where
  "Start env c b =
     (let b1 = (if HTTPServer \<in> set (services c) then b\<lparr>metricsOn := True\<rparr> else b);
          b2 = (if Router c \<noteq> [] then ConnectToDiscovery env (writePacket env) b1 else b1)
      in (services c, b2))"

text \<open>
  What each of these goroutines does first: it listens at an address, with the TLS settings or the
  files of a certificate and a key where it is a secure one, or it runs a loop. \<^verbatim>\<open>mux.Handle\<close> of
  \<^verbatim>\<open>net/http\<close> panics on an empty path.
\<close>

datatype serving =
    OnTCP string
  | OnTLS string "tlsConfig option"
  | OnHTTP string
  | OnWebsocket string string "(string \<times> string) option"   \<comment> \<open>address, path, certificate and key\<close>
  | PanicPattern
  | Looping

definition StartWebsocketListening :: "'p Config \<Rightarrow> serving" where
  "StartWebsocketListening c =
     (let hp = CHR '':'' # WsPort c in
      if WsPath c = [] then PanicPattern
      else OnWebsocket hp (WsPath c) (if WsTLS c then Some (CertFile (TlsInfo c), KeyFile (TlsInfo c)) else None))"

definition listenClient :: "'p Config \<Rightarrow> tlsConfig option \<Rightarrow> bool \<Rightarrow> serving" where
  "listenClient c tls Tls =
     (if Tls then OnTLS (TlsHost c @ CHR '':'' # TlsPort c) tls else OnTCP (Host c @ CHR '':'' # Port c))"

definition launch :: "'p Config \<Rightarrow> tlsConfig option \<Rightarrow> service \<Rightarrow> serving" where
  "launch c tls s =
     (case s of
        HTTPServer \<Rightarrow> OnHTTP (CHR '':'' # HTTPPort c)
      | ClientListener Tls \<Rightarrow> listenClient c tls Tls
      | ClusterListener \<Rightarrow> OnTCP (routeHost (Cluster c) @ CHR '':'' # routePort (Cluster c))
      | WebsocketListener \<Rightarrow> StartWebsocketListening c
      | ClusterLoop \<Rightarrow> Looping)"

text \<open>
  A websocket connection is a client's, with binary frames. The HTTP server answers a deletion with
  the status 200 and the code 0, whether there was such a client or not.
\<close>

datatype frames = TextFrame | BinaryFrame

definition wsHandler :: "env \<Rightarrow> controlPacket option \<Rightarrow> broker \<Rightarrow> frames \<times> broker" where
  "wsHandler env packet b = (BinaryFrame, handleConnection env CLIENT packet b)"

definition handleDelete :: "env \<Rightarrow> string \<Rightarrow> broker \<Rightarrow> broker \<times> nat \<times> (string \<times> int) list" where
  "handleDelete env clientid b = (deleteConnection env clientid b, 200, [(''code'', 0)])"

text \<open>Both are steps: the connections that came over a websocket and the deletions are among the events.\<close>

lemma listeners_step:
  "\<not> crashed b \<Longrightarrow> handleEvent env (EvAccept False packet) b = Some (snd (wsHandler env packet b))"
  "\<not> crashed b \<Longrightarrow> metricsOn b \<Longrightarrow> handleEvent env (EvDelete cid) b = Some (fst (handleDelete env cid b))"
  by (simp_all add: handleEvent_def wsHandler_def handleDelete_def)

section \<open>The program\<close>

text \<open>
  \<^verbatim>\<open>main\<close> up to the wait for a signal: the process has ended, with the status of the usage or
  after one of the two fatal errors, or the services run.
\<close>

datatype startup =
    Exited nat
  | FatalConfigure config_failure
  | FatalNewBroker tls_failure
  | Running "service list" "tlsConfig option" broker

definition mainProgram :: "world \<Rightarrow> string \<Rightarrow> env \<Rightarrow> string list \<Rightarrow> startup" where
  "mainProgram w bid env args =
     (case ConfigureConfig w args of
        Inl e \<Rightarrow> (case e of Exit n \<Rightarrow> Exited n | _ \<Rightarrow> FatalConfigure e)
      | Inr c \<Rightarrow>
          (case newBrokerOf w bid (Some c) of
             Inl e \<Rightarrow> FatalNewBroker e
           | Inr (b, tls) \<Rightarrow> (case Start env c b of (svcs, b1) \<Rightarrow> Running svcs tls b1)))"

text \<open>\<^verbatim>\<open>waitForSignal\<close>: the first of the three signals it asks for ends the program.\<close>

datatype signal = SIGINT | SIGTERM | SIGQUIT | OtherSignal nat

definition waitForSignal :: "signal list \<Rightarrow> signal option" where
  "waitForSignal ss = find (\<lambda>s. s \<in> set [SIGINT, SIGTERM, SIGQUIT]) ss"

section \<open>Listening\<close>

text \<open>
  The accept loops: what \<^verbatim>\<open>Accept\<close> gives, and what the loop does with it. Delays are in
  milliseconds. (\<^verbatim>\<open>StartClientListening\<close> first retries listening every second until it succeeds;
  \<^verbatim>\<open>StartClusterListening\<close> gives up at the first failure.)
\<close>

definition ACCEPT_MIN_SLEEP :: nat where "ACCEPT_MIN_SLEEP = 100"
definition ACCEPT_MAX_SLEEP :: nat where "ACCEPT_MAX_SLEEP = 10000"

datatype 'c accepted = Conn 'c | TemporaryErr | OtherErr

datatype 'c accept_act = Handle 'c | SleepMs nat

fun acceptLoop :: "nat \<Rightarrow> 'c accepted list \<Rightarrow> 'c accept_act list" where
  "acceptLoop tmpDelay [] = []"
| "acceptLoop tmpDelay (Conn c # rs) = Handle c # acceptLoop ACCEPT_MIN_SLEEP rs"
| "acceptLoop tmpDelay (TemporaryErr # rs) =
     SleepMs tmpDelay # acceptLoop (if 2 * tmpDelay > ACCEPT_MAX_SLEEP then ACCEPT_MAX_SLEEP else 2 * tmpDelay) rs"
| "acceptLoop tmpDelay (OtherErr # rs) = acceptLoop tmpDelay rs"

definition StartClientListening :: "bool list \<Rightarrow> 'c accepted list \<Rightarrow> 'c accept_act list" where
  "StartClientListening listens rs =
     map (\<lambda>_. SleepMs 1000) (takeWhile Not listens)
     @ (if True \<in> set listens then acceptLoop (10 * ACCEPT_MIN_SLEEP) rs else [])"

definition StartClusterListening :: "bool \<Rightarrow> 'c accepted list \<Rightarrow> 'c accept_act list" where
  "StartClusterListening listens rs = (if listens then acceptLoop (10 * ACCEPT_MIN_SLEEP) rs else [])"

end
