(* ===== verification/Config_Properties.thy ===== *)
theory Config_Properties
  imports Config Panics Broker_Examples
begin

text \<open>
  The properties of configuration and start-up: what holds of every configuration the program goes on
  with, what is missing from it, and what the accept loops do.
\<close>

section \<open>Checked configurations\<close>

definition well_configured :: "'p Config \<Rightarrow> bool" where
  "well_configured c =
     (Worker c \<noteq> 0 \<and> (Port c = [] \<or> Host c \<noteq> []) \<and> (routePort (Cluster c) = [] \<or> routeHost (Cluster c) \<noteq> [])
      \<and> (Router c = [] \<or> routePort (Cluster c) \<noteq> [])
      \<and> (TlsPort c = [] \<or> CertFile (TlsInfo c) \<noteq> [] \<and> KeyFile (TlsInfo c) \<noteq> [] \<and> TlsHost c \<noteq> []))"

lemma check_well: "check c = Inr c' \<Longrightarrow> well_configured c'"
  by (auto simp: check_def well_configured_def Let_def split: if_splits)

lemma check_fixed: "well_configured c \<Longrightarrow> check c = Inr c"
  by (auto simp: check_def well_configured_def Let_def)

text \<open>
  Whatever the command line and the files say, a configuration the program goes on with is complete;
  checking it again changes nothing; and the goroutine for the hub's messages never runs without the
  cluster listener.
\<close>

lemma configured_well:
  assumes "ConfigureConfig w args = Inr c"
  shows "well_configured c \<and> check c = Inr c
    \<and> (ClusterLoop \<in> set (services c) \<longrightarrow> ClusterListener \<in> set (services c))"
proof -
  obtain c2 where "check c2 = Inr c"
    using assms by (auto simp: ConfigureConfig_def Let_def split: sum.splits if_splits)
  then have "well_configured c" by (rule check_well)
  moreover from this have "check c = Inr c" by (rule check_fixed)
  ultimately show ?thesis by (auto simp: well_configured_def services_def)
qed

definition bareWorld :: world where
  "bareWorld = \<lparr>readFile = (\<lambda>_. Some ''{}''), decodeConfig = (\<lambda>_. Some ((zeroConfig None)\<lparr>Port := ''1883''\<rparr>)),
     openFile = Inl, decodeHttp = (\<lambda>_. None), decodeKafka = (\<lambda>_. None), newProducer = (\<lambda>_. False), parseInt = (\<lambda>_. None),
     loadKeyPair = (\<lambda>_ _. None), leafParses = (\<lambda>_. False), caParses = (\<lambda>_. False)\<rparr>"

text \<open>A configuration from a file that has no HTTP port.\<close>

definition fileConfig :: "Plugins Config" where
  "fileConfig = (zeroConfig noPlugins)\<lparr>Worker := 1024, Host := ''0.0.0.0'', Port := ''1883''\<rparr>"

lemma file_configured: "ConfigureConfig bareWorld [''-c'', ''hmq.config''] = Inr fileConfig"
  by code_simp

lemma HTTPServer_service: "HTTPServer \<in> set (services c) \<longleftrightarrow> HTTPPort c \<noteq> []"
  by (auto simp: services_def)

lemma Start_reachable:
  assumes "b = NewBroker bid cport router workers auth bridge False"
  shows "reachable (NewBroker bid cport router workers auth bridge (HTTPPort c \<noteq> [])) (snd (Start env c b))"
proof -
  let ?b1 = "NewBroker bid cport router workers auth bridge (HTTPPort c \<noteq> [])"
  have b1: "(if HTTPServer \<in> set (services c) then b\<lparr>metricsOn := True\<rparr> else b) = ?b1"
    by (simp add: HTTPServer_service assms NewBroker_def)
  have "handleEvent env EvDiscover ?b1 = Some (ConnectToDiscovery env (writePacket env) ?b1)"
    by (simp add: handleEvent_def NewBroker_def)
  then have "reachable ?b1 (ConnectToDiscovery env (writePacket env) ?b1)"
    by (rule reach_step [OF reach_init step_event])
  then show ?thesis using reach_init [of ?b1] b1 by (simp add: Start_def Let_def)
qed

lemma launch_panics: "PanicPattern \<in> launch c tls ` set (services c) \<longleftrightarrow> WsPort c \<noteq> [] \<and> WsPath c = []"
  by (auto simp: services_def launch_def listenClient_def StartWebsocketListening_def Let_def split: if_splits)

text \<open>
  C38. When the program gets past its start, its configuration is complete (it has workers, an
  address to every port it listens on, a certificate and a key to TLS), the services running are
  those of the configuration, the TLS listener among them exactly when TLS settings were loaded, which
  it then listens with; none of them panics when it starts, except the websocket listener, and that
  exactly when the configuration has a port but no path for it, as the flag for the port alone gives.
  The broker is in a state the transition system of a new broker reaches: so what holds of those
  states holds of the program.
\<close>

theorem program_starts:
  assumes "mainProgram w bid env args = Running svcs tls b"
  shows "\<exists>c. ConfigureConfig w args = Inr c \<and> well_configured c \<and> svcs = services c
    \<and> (ClientListener True \<in> set svcs \<longleftrightarrow> tls \<noteq> None)
    \<and> (\<forall>t. tls = Some t \<longrightarrow> NewTLSConfig w (TlsInfo c) = Inr t
          \<and> launch c tls (ClientListener True) = OnTLS (TlsHost c @ '':'' @ TlsPort c) (Some t))
    \<and> (PanicPattern \<in> launch c tls ` set svcs \<longleftrightarrow> WsPort c \<noteq> [] \<and> WsPath c = [])
    \<and> (ClusterLoop \<in> set svcs \<longrightarrow> ClusterListener \<in> set svcs)
    \<and> reachable (NewBroker bid (routePort (Cluster c)) (Router c) (Worker c) (PluginAuth (Plugin c))
        (PluginBridge (Plugin c)) (HTTPServer \<in> set svcs)) b"
proof -
  obtain c b0 where c: "ConfigureConfig w args = Inr c" "newBrokerOf w bid (Some c) = Inr (b0, tls)"
    and st: "Start env c b0 = (svcs, b)"
    using assms by (auto simp: mainProgram_def split: sum.splits prod.splits config_failure.splits)
  have svcs: "svcs = services c" using st by (simp add: Start_def Let_def)
  have b0: "b0 = NewBroker bid (routePort (Cluster c)) (Router c) (Worker c) (PluginAuth (Plugin c)) (PluginBridge (Plugin c)) False"
    and tls: "TlsPort c \<noteq> [] \<longleftrightarrow> tls \<noteq> None"
    and loaded: "tls = Some t \<Longrightarrow> NewTLSConfig w (TlsInfo c) = Inr t" for t
    using c(2) by (auto simp: newBrokerOf_def Let_def map_sum_def split: if_splits sum.splits)
  have "ClientListener True \<in> set (services c) \<longleftrightarrow> TlsPort c \<noteq> []" by (auto simp: services_def)
  with configured_well [OF c(1)] Start_reachable [OF b0, of c env] c(1) st svcs tls HTTPServer_service [of c]
    launch_panics [of c tls] loaded
  show ?thesis by (intro exI [of _ c]) (simp add: launch_def listenClient_def)
qed

lemma bare_runs:
  "mainProgram bareWorld ''b'' calm [''-p=1884'', ''-ws'', ''80''] =
     Running [HTTPServer, ClientListener False, WebsocketListener] None (NewBroker ''b'' [] [] 1024 None False True)"
proof -
  let ?c = "(zeroConfig noPlugins)\<lparr>Worker := 1024, HTTPPort := ''8080'', Port := ''1884'', Host := ''0.0.0.0'', WsPort := ''80''\<rparr>"
  have "ConfigureConfig bareWorld [''-p=1884'', ''-ws'', ''80''] = Inr ?c" by code_simp
  then show ?thesis
    by (simp add: mainProgram_def newBrokerOf_def Start_def services_def zeroConfig_def noPlugins_def NewBroker_def Let_def)
qed

lemma program_starts_witness:
  "\<exists>c. ConfigureConfig bareWorld [''-p=1884'', ''-ws'', ''80''] = Inr c \<and> well_configured c
    \<and> (PanicPattern \<in> launch c None ` {HTTPServer, ClientListener False, WebsocketListener} \<longleftrightarrow> WsPort c \<noteq> [] \<and> WsPath c = [])"
  using program_starts [OF bare_runs] by auto

section \<open>Metrics\<close>

lemma acceptClient_no_metrics:
  assumes "binv {} b" "\<not> metricsOn b"
  shows "crashed (acceptClient env ty k msg b)"
proof -
  define x where "x = initClient ty k (ClientIdentifier msg) (Username msg) (Password msg) (Keepalive msg) (willOf msg)
    (connLocalIP env) (connRemoteIP env) [] []"
  obtain b1 c where a: "allocClient x b = (b1, c)" by (cases "allocClient x b")
  have "fresh_client x" "ctyp x = ty" by (auto simp: x_def fresh_client_def initClient_def)
  with alloc_pending [OF assms(1) a] have 1: "pending_client c ty (clientID x) b1" by simp
  obtain b2 err where s: "getSession env c msg b1 = (b2, err)" by (cases "getSession env c msg b1")
  have 2: "err = None" "pending_client c ty (clientID x) b2" using getSession_pending [OF 1 s] by auto
  obtain sr mp where "b2 = upd c (\<lambda>x. x\<lparr>csession := Some sr\<rparr>) (b1\<lparr>sessionMgr := mp\<rparr>)" using getSession_eq [OF s] by blast
  then have "metricsOn b2 = metricsOn b" using a by (auto simp: allocClient_def)
  moreover have "ready b2" using 2(2) by (auto simp: pending_client_def binv_ready)
  then have "level b2 (register env msg c b2)" by (rule level_register)
  ultimately have "\<not> metricsOn (register env msg c b2)" using assms(2) by (simp add: level_def)
  with 2(1) a s show ?thesis by (simp add: acceptClient_def x_def [symmetric] crash_def Let_def)
qed

text \<open>
  C37. A configuration without an HTTP port, which a configuration file without the key gives and
  the checks accept, starts a broker without metrics; and the first client such a broker accepts
  makes the process panic, in every state it can reach.
\<close>

theorem no_http_port_panics:
  assumes "newBrokerOf w bid (Some c) = Inr (b0, tls)" "HTTPPort c = []" "Router c = []" "Worker c < 2 ^ 64"
    and "reachable (snd (Start env0 c b0)) b" "\<not> metricsOn b"
    and "validateConnect env msg = Accepted" "writeOk env (length (trace b))"
    and "snd (brokerConnectAuth env (ClientIdentifier msg) (Username msg) (Password msg) (b\<lparr>connNext := connNext b + 1\<rparr>))"
  shows "\<not> metricsOn (snd (Start env0 c b0)) \<and> crashed (handleConnection env CLIENT (Some (ConnectP msg)) b)"
proof -
  have b0: "b0 = NewBroker bid (routePort (Cluster c)) (Router c) (Worker c) (PluginAuth (Plugin c)) (PluginBridge (Plugin c)) False"
    using assms(1) by (auto simp: newBrokerOf_def Let_def map_sum_def split: if_splits sum.splits)
  have start: "snd (Start env0 c b0) = b0" using assms(2,3) by (simp add: Start_def services_def)
  have bb: "binv {} b" using reachable_binv [OF _ assms(4)] assms(5) unfolding start unfolding b0 by blast
  let ?b0 = "b\<lparr>connNext := connNext b + 1\<rparr>"
  obtain b1 ok where a: "brokerConnectAuth env (ClientIdentifier msg) (Username msg) (Password msg) ?b0 = (b1, ok)"
    by (cases "brokerConnectAuth env (ClientIdentifier msg) (Username msg) (Password msg) ?b0")
  obtain v where b1: "b1 = ?b0\<lparr>bauth := v\<rparr>" using connectAuth_eq [OF a] by blast
  define b2 where "b2 = emit (Wrote (connNext b) (ConnackP (CleanSession msg) Accepted) True) b1"
  have "binv {} b2" using bb by (simp add: b2_def b1)
  moreover have "\<not> metricsOn b2" using assms(6) by (simp add: b2_def b1 emit_def)
  moreover have "rawWrite env (connNext b) (ConnackP (CleanSession msg) Accepted) b1 = (b2, False)"
    using assms(8) by (simp add: rawWrite_def b2_def Let_def b1)
  ultimately have "crashed (handleConnection env CLIENT (Some (ConnectP msg)) b)"
    using assms(7,9) a acceptClient_no_metrics by (simp add: handleConnection_def Let_def)
  then show ?thesis unfolding start by (simp add: b0 NewBroker_def)
qed

lemma no_http_port_panics_witness:
  "crashed (handleConnection calm CLIENT (Some (ConnectP hello))
     (NewBroker ''b'' [] [] 1024 None False False))"
proof -
  let ?b = "NewBroker ''b'' [] [] 1024 None False False"
  have n: "newBrokerOf bareWorld ''b'' (Some fileConfig) = Inr (?b, None)"
    by (simp add: newBrokerOf_def fileConfig_def zeroConfig_def noPlugins_def Let_def)
  have c: "HTTPPort fileConfig = []" "Router fileConfig = []" "Worker fileConfig < 2 ^ 64"
    by (simp_all add: fileConfig_def zeroConfig_def)
  have s: "snd (Start calm fileConfig ?b) = ?b" using c by (simp add: Start_def services_def)
  have v: "validateConnect calm hello = Accepted" "writeOk calm (length (trace ?b))"
    by (simp_all add: calm_def Accepted_def)
  have a: "snd (brokerConnectAuth calm (ClientIdentifier hello) (Username hello) (Password hello) (?b\<lparr>connNext := connNext ?b + 1\<rparr>))"
    by (simp add: brokerConnectAuth_def NewBroker_def)
  have "reachable (snd (Start calm fileConfig ?b)) ?b" unfolding s by (rule reach_init)
  moreover have "\<not> metricsOn ?b" by (simp add: NewBroker_def)
  ultimately show ?thesis using no_http_port_panics [OF n c, of calm ?b calm hello] v a by blast
qed

section \<open>Accepting connections\<close>

lemma acceptLoop_handles:
  "List.map_filter (\<lambda>a. case a of Handle c \<Rightarrow> Some c | _ \<Rightarrow> None) (acceptLoop d rs)
     = List.map_filter (\<lambda>r. case r of Conn c \<Rightarrow> Some c | _ \<Rightarrow> None) rs"
  by (induction d rs rule: acceptLoop.induct) (simp_all add: List.map_filter_def)

lemma acceptLoop_counts:
  "length (filter (\<lambda>a. case a of SleepMs n \<Rightarrow> True | _ \<Rightarrow> False) (acceptLoop d rs)) = length (filter (\<lambda>r. r = TemporaryErr) rs)"
  by (induction d rs rule: acceptLoop.induct) simp_all

lemma acceptLoop_pauses:
  "100 \<le> d \<Longrightarrow> d \<le> 10000 \<Longrightarrow> SleepMs n \<in> set (acceptLoop d rs) \<Longrightarrow> 100 \<le> n \<and> n \<le> 10000"
proof (induction d rs rule: acceptLoop.induct)
  case (2 d c rs)
  then show ?case by (simp add: ACCEPT_MIN_SLEEP_def)
next
  case (3 d rs)
  let ?d = "if 2 * d > ACCEPT_MAX_SLEEP then ACCEPT_MAX_SLEEP else 2 * d"
  have "100 \<le> ?d" "?d \<le> 10000" using 3(2) by (auto simp: ACCEPT_MAX_SLEEP_def)
  note ih = 3(1) [OF this]
  consider "n = d" | "SleepMs n \<in> set (acceptLoop ?d rs)" using 3(4) by auto
  then show ?case using ih 3(2,3) by cases simp_all
qed simp_all

text \<open>
  A client listener that can listen at last hands on every connection it accepts, once each and
  in order, whatever errors come between; it pauses only after a temporary error, for at least a
  tenth of a second and at most ten seconds, and a second for each failed attempt to listen.
\<close>

theorem listener_hands_on:
  assumes "True \<in> set listens"
  shows "List.map_filter (\<lambda>a. case a of Handle c \<Rightarrow> Some c | _ \<Rightarrow> None) (StartClientListening listens rs)
      = List.map_filter (\<lambda>r. case r of Conn c \<Rightarrow> Some c | _ \<Rightarrow> None) rs
    \<and> (\<forall>n. SleepMs n \<in> set (StartClientListening listens rs) \<longrightarrow> 100 \<le> n \<and> n \<le> 10000)
    \<and> length (filter (\<lambda>a. case a of SleepMs n \<Rightarrow> True | _ \<Rightarrow> False) (StartClientListening listens rs))
      = length (takeWhile Not listens) + length (filter (\<lambda>r. r = TemporaryErr) rs)"
proof -
  have l: "StartClientListening listens rs = map (\<lambda>_. SleepMs 1000) (takeWhile Not listens) @ acceptLoop 1000 rs"
    using assms by (simp add: StartClientListening_def ACCEPT_MIN_SLEEP_def)
  have none: "List.map_filter (\<lambda>a. case a of Handle c \<Rightarrow> Some c | _ \<Rightarrow> None) (map (\<lambda>_. SleepMs 1000) xs) = []" for xs :: "bool list"
    by (induction xs) (simp_all add: List.map_filter_def)
  have app: "List.map_filter f (xs @ ys) = List.map_filter f xs @ List.map_filter f ys" for f :: "'x \<Rightarrow> 'y option" and xs ys
    by (simp add: List.map_filter_def)
  have "filter (\<lambda>a. case a of SleepMs n \<Rightarrow> True | _ \<Rightarrow> False) (map (\<lambda>_. SleepMs 1000) xs) = map (\<lambda>_. SleepMs 1000) xs"
    for xs :: "bool list" by (induction xs) simp_all
  with acceptLoop_pauses [of 1000 _ rs] show ?thesis
    unfolding l by (simp add: app none acceptLoop_handles acceptLoop_counts) auto
qed

lemma listener_hands_on_witness:
  "List.map_filter (\<lambda>a. case a of Handle c \<Rightarrow> Some c | _ \<Rightarrow> None)
     (StartClientListening [False, True] [TemporaryErr, Conn 1, OtherErr, Conn (2::nat)]) = [1, 2]"
  using listener_hands_on [of "[False, True]" "[TemporaryErr, Conn 1, OtherErr, Conn (2::nat)]"]
  by (simp add: List.map_filter_def)

end
