(* ===== verification/Identity_Frame.thy ===== *)
theory Identity_Frame
  imports Runs
begin

text \<open>
  What no handler touches: the queues of the workers and of the cluster loop, what is counted, and of
  every client its kind, its identifier and, for an accepted connection, whether its reader runs. The
  frame needs no invariant: it holds of \<open>Close\<close> by induction on the fuel.
\<close>

section \<open>The frame\<close>

definition acceptedType :: "ctype \<Rightarrow> bool" where
  "acceptedType ty = (ty = CLIENT \<or> ty = ROUTER)"

definition same_identity :: "client \<Rightarrow> client \<Rightarrow> bool" where
  "same_identity x y =
     (ctyp y = ctyp x \<and> clientID y = clientID x \<and> (acceptedType (ctyp x) \<longrightarrow> reading y = reading x))"

definition tame :: "broker \<Rightarrow> broker \<Rightarrow> bool" where
  "tame b b' =
     (wpool b' = wpool b \<and> clusterPool b' = clusterPool b \<and> counted b' = counted b
      \<and> metricsOn b' = metricsOn b \<and> cnext b \<le> cnext b'
      \<and> (\<forall>c < cnext b'. if c < cnext b then same_identity (cheap b c) (cheap b' c)
                        else \<not> acceptedType (ctyp (cheap b' c))))"

lemma same_identity_refl [simp]: "same_identity x x"
  by (simp add: same_identity_def)

lemma same_identity_trans: "same_identity x y \<Longrightarrow> same_identity y z \<Longrightarrow> same_identity x z"
  by (simp add: same_identity_def)

lemma tame_refl [simp]: "tame b b"
  by (simp add: tame_def)

lemma tame_trans [trans]:
  assumes "tame a b" "tame b c"
  shows "tame a c"
proof -
  have le: "cnext a \<le> cnext b" "cnext b \<le> cnext c" using assms by (auto simp: tame_def)
  have "if d < cnext a then same_identity (cheap a d) (cheap c d) else \<not> acceptedType (ctyp (cheap c d))" if "d < cnext c" for d
  proof (cases "d < cnext b")
    case True
    then have "if d < cnext a then same_identity (cheap a d) (cheap b d) else \<not> acceptedType (ctyp (cheap b d))"
      "same_identity (cheap b d) (cheap c d)" using assms that by (auto simp: tame_def)
    then show ?thesis using same_identity_trans by (auto simp: same_identity_def)
  next
    case False
    then show ?thesis using assms(2) that le by (auto simp: tame_def)
  qed
  with assms le show ?thesis by (auto simp: tame_def)
qed

lemma tame_same:
  "cheap b' = cheap b \<Longrightarrow> cnext b' = cnext b \<Longrightarrow> wpool b' = wpool b \<Longrightarrow> clusterPool b' = clusterPool b \<Longrightarrow>
   counted b' = counted b \<Longrightarrow> metricsOn b' = metricsOn b \<Longrightarrow> tame b b'"
  by (simp add: tame_def)

lemma tame_upd: "same_identity (cheap b c) (f (cheap b c)) \<Longrightarrow> tame b (upd c f b)"
  by (simp add: tame_def)

lemma tame_upd_other: "(\<And>x. ctyp (f x) = ctyp x \<and> clientID (f x) = clientID x \<and> reading (f x) = reading x) \<Longrightarrow> tame b (upd c f b)"
  by (rule tame_upd) (simp add: same_identity_def)

lemma tame_fields [simp]:
  "tame b (b\<lparr>bauth := a\<rparr>)" "tame b (b\<lparr>nodes := ns\<rparr>)" "tame b (b\<lparr>goroutines := gs\<rparr>)" "tame b (b\<lparr>connNext := k\<rparr>)"
  "tame b (crash b)" "tame b (emit e b)" "tame b (spawn g b)" "tame b (bridgePublish el b)" "tame b (b\<lparr>routes := rs\<rparr>)"
  "tame b (b\<lparr>clients := cs\<rparr>)" "tame b (b\<lparr>remotes := cs\<rparr>)" "tame b (b\<lparr>topicsMgr := tm\<rparr>)" "tame b (b\<lparr>sessionMgr := sm\<rparr>)"
  "tame b (b\<lparr>stuck := True\<rparr>)" "tame b (removeClient c b)" "tame b (unsubscribeAll subs b)" "tame b (onClientSession c f b)"
  by (rule tame_same; simp add: crash_def emit_def spawn_def bridgePublish_def removeClient_def unsubscribeAll_def
      onClientSession_def Let_def split: ctype.split option.split)+

lemma tame_foldl: "(\<And>b x. tame b (f b x)) \<Longrightarrow> tame b (foldl f b xs)"
proof (induction xs arbitrary: b)
  case Nil
  then show ?case by simp
next
  case (Cons x xs)
  have "tame b (f b x)" by (rule Cons.prems)
  also have "tame (f b x) (foldl f (f b x) xs)" using Cons.prems by (rule Cons.IH)
  finally show ?case by simp
qed

lemma tame_fold_fst: "(\<And>b rcs x. tame b (fst (f (b, rcs) x))) \<Longrightarrow> tame b (fst (foldl f (b, rcs) xs))"
proof (induction xs arbitrary: b rcs)
  case Nil
  then show ?case by simp
next
  case (Cons x xs)
  obtain b1 rcs1 where f: "f (b, rcs) x = (b1, rcs1)" by (cases "f (b, rcs) x")
  have "tame b b1" using Cons.prems [of b rcs x] by (simp add: f)
  also have "tame b1 (fst (foldl f (b1, rcs1) xs))" using Cons.prems by (rule Cons.IH)
  finally show ?case by (simp add: f)
qed

section \<open>Writing, connecting, closing\<close>

definition tame_writer :: "writer \<Rightarrow> bool" where
  "tame_writer w = (\<forall>c p b. tame b (fst (w c p b)))"

lemma tame_writerD: "tame_writer w \<Longrightarrow> tame b (fst (w c p b))"
  by (simp add: tame_writer_def)

lemma tame_sends:
  assumes "tame_writer w"
  shows "tame b (BroadcastSubOrUnsubMessage w p b)" "tame b (BroadcastUnSubscribe w subs b)"
    "tame b (PublishMessage w q b)" "tame b (OnlineOfflineNotification env w cid online b)"
    "tame b (SendInfo w c b)" "tame b (SendConnect w c b)"
proof -
  note w = tame_writerD [OF assms]
  show cast: "tame b (BroadcastSubOrUnsubMessage w p b)" for p b
    unfolding BroadcastSubOrUnsubMessage_def by (rule tame_foldl) (simp add: w split: prod.split)
  show "tame b (BroadcastUnSubscribe w subs b)" by (simp add: BroadcastUnSubscribe_def cast Let_def)
  show pub: "tame b (PublishMessage w q b)" for q b
    by (auto simp: PublishMessage_def w intro!: tame_foldl split: prod.split option.split)
  show "tame b (OnlineOfflineNotification env w cid online b)" by (simp add: OnlineOfflineNotification_def pub)
  show "tame b (SendInfo w c b)" by (simp add: SendInfo_def w Let_def)
  show "tame b (SendConnect w c b)" by (simp add: SendConnect_def w)
qed

lemma tame_identity:
  assumes "tame b b'" "c < cnext b"
  shows "same_identity (cheap b c) (cheap b' c)" "c < cnext b'"
proof -
  show "c < cnext b'" using assms by (simp add: tame_def)
  with assms show "same_identity (cheap b c) (cheap b' c)" by (simp add: tame_def)
qed

lemma tame_kind: "tame b b' \<Longrightarrow> c < cnext b \<Longrightarrow> ctyp (cheap b' c) = ctyp (cheap b c) \<and> c < cnext b'"
  using tame_identity by (simp add: same_identity_def)

lemma tame_start:
  assumes "tame_writer w" "c < cnext b" "\<not> acceptedType (ctyp (cheap b c))"
  shows "tame b (startClient w i c b)"
proof -
  define b1 where "b1 = SendConnect w c b"
  define b2 where "b2 = (if i then SendInfo w c b1 else b1)"
  have "tame b b1" unfolding b1_def by (rule tame_sends [OF assms(1)])
  also have "tame b1 b2" using tame_sends(5) [OF assms(1)] by (simp add: b2_def)
  finally have 2: "tame b b2" .
  have "tame b2 (upd c (\<lambda>x. x\<lparr>reading := True, pinging := True\<rparr>) b2)"
    using tame_kind [OF 2 assms(2)] assms(3) by (intro tame_upd) (simp add: same_identity_def)
  with 2 show ?thesis
    unfolding startClient_def Let_def b1_def [symmetric] b2_def [symmetric] by (rule tame_trans)
qed

lemma tame_alloc_start:
  assumes "tame_writer w" "\<not> acceptedType (ctyp x)" "allocClient x b = (b1, c)" "tame b1 b2"
  shows "tame b (startClient w i c b2)"
proof -
  have b1: "b1 = b\<lparr>cheap := (cheap b)(cnext b := x), cnext := cnext b + 1\<rparr>" "c = cnext b"
    using assms(3) by (auto simp: allocClient_def)
  have "tame b b1" using assms(2) by (auto simp: b1 tame_def)
  also note assms(4)
  also have "tame b2 (startClient w i c b2)"
    using tame_kind [OF assms(4), of c] assms(2) by (intro tame_start [OF assms(1)]) (simp_all add: b1)
  finally show ?thesis .
qed

lemma tame_emits: "tame b (foldl (\<lambda>b d. emit (Slept d) (emit (Dialed a False) b)) b ds)"
  by (rule tame_foldl) (rule tame_trans [OF tame_fields(6) tame_fields(6)])

lemma tame_Discovery:
  assumes "tame_writer w"
  shows "tame b (ConnectToDiscovery env w b)"
proof -
  define b1 where "b1 = foldl (\<lambda>b d. emit (Slept d) (emit (Dialed (routerAddr b) False) b)) b (delays 20 0 (discoveryFails env))"
  define b2 where "b2 = emit (Dialed (routerAddr b1) True) b1"
  define x where "x = initClient CLUSTER (connNext b2) (brokerId b2) [] [] 60 None (connLocalIP env) (connRemoteIP env) [] []"
  obtain b3 c where a: "allocClient x (b2\<lparr>connNext := connNext b2 + 1\<rparr>) = (b3, c)"
    by (cases "allocClient x (b2\<lparr>connNext := connNext b2 + 1\<rparr>)")
  have "tame b b1" unfolding b1_def by (rule tame_foldl) (rule tame_trans [OF tame_fields(6) tame_fields(6)])
  also have "tame b1 b2" by (simp add: b2_def)
  also have "tame b2 (b2\<lparr>connNext := connNext b2 + 1\<rparr>)" by simp
  also have "tame (b2\<lparr>connNext := connNext b2 + 1\<rparr>) (startClient w True c b3)"
    using assms _ a tame_refl by (rule tame_alloc_start) (simp add: x_def initClient_def acceptedType_def)
  finally show ?thesis
    unfolding ConnectToDiscovery_def Let_def b1_def [symmetric] b2_def [symmetric] x_def [symmetric] a by simp
qed

lemma tame_connectRouter:
  assumes "tame_writer w"
  shows "tame b (connectRouter env w rid addr b)"
proof -
  obtain pauses ok where d: "routerDial (dialOk env) 0 0 = (pauses, ok)" by (cases "routerDial (dialOk env) 0 0")
  define b1 where "b1 = emit (Dialed addr ok) (foldl (\<lambda>b d. emit (Slept d) (emit (Dialed addr False) b)) b pauses)"
  define cid where "cid = uuid env (cnext b1)"
  define x where "x = initClient REMOTE (connNext b1) cid [] [] 60 None (connLocalIP env) (connRemoteIP env) rid addr"
  obtain b2 c where a: "allocClient x (b1\<lparr>connNext := connNext b1 + 1\<rparr>) = (b2, c)"
    by (cases "allocClient x (b1\<lparr>connNext := connNext b1 + 1\<rparr>)")
  have 1: "tame b b1" unfolding b1_def using tame_emits tame_fields(6) by (rule tame_trans)
  also have "tame b1 (b1\<lparr>connNext := connNext b1 + 1\<rparr>)" by simp
  also have "tame (b1\<lparr>connNext := connNext b1 + 1\<rparr>) (startClient w False c (b2\<lparr>remotes := rs\<rparr>))" for rs
    using assms _ a by (rule tame_alloc_start) (simp_all add: x_def initClient_def acceptedType_def)
  finally show ?thesis using 1
    unfolding connectRouter_def Let_def d prod.case b1_def [symmetric] cid_def [symmetric] x_def [symmetric] a by simp
qed

lemma tame_closeNotify:
  assumes "tame_writer w"
  shows "tame b (closeNotify env w c b)"
proof -
  define b1 where "b1 = (if ctyp (cheap b c) = CLIENT
    then OnlineOfflineNotification env w (clientID (cheap b c)) False (BroadcastUnSubscribe w (subMap (cheap b c)) b) else b)"
  define b2 where "b2 = (case willMsg (cheap b1 c) of None \<Rightarrow> b1 | Some m \<Rightarrow> PublishMessage w m b1)"
  define b3 where "b3 = (if ctyp (cheap b2 c) = CLUSTER then ConnectToDiscovery env w b2 else b2)"
  have "tame b b1" using tame_trans [OF tame_sends(2) tame_sends(4)] assms by (simp add: b1_def)
  also have "tame b1 b2" using tame_sends(3) [OF assms] by (simp add: b2_def split: option.split)
  also have "tame b2 b3" using tame_Discovery [OF assms] by (simp add: b3_def)
  finally have 3: "tame b b3" .
  then show ?thesis using tame_trans [OF 3 tame_fields(7)]
    unfolding closeNotify_def Let_def b1_def [symmetric] b2_def [symmetric] b3_def [symmetric] by simp
qed

lemma tame_closeSelf: "tame b (closeSelf env c b)"
proof -
  define b1 where "b1 = upd c (\<lambda>x. x\<lparr>cancelled := True, status := Disconnected\<rparr>) b"
  define b2 where "b2 = bridgePublish (element (cheap b1 c) bDisconnect (now env) [] []) b1"
  have "tame b b1" unfolding b1_def by (rule tame_upd_other) simp
  also have "tame b1 b2" by (simp add: b2_def)
  also have "tame b2 (closeConn c b2)"
  proof -
    have "tame x (upd c (\<lambda>x. x\<lparr>conn := None\<rparr>) x)" for x by (rule tame_upd_other) simp
    then have "tame b2 (upd c (\<lambda>x. x\<lparr>conn := None\<rparr>) (emit e b2))" for e using tame_fields(6) tame_trans by blast
    then show ?thesis by (simp add: closeConn_def split: option.split)
  qed
  finally show ?thesis
    using tame_trans [OF _ tame_trans [OF tame_fields(15) tame_fields(16)]]
    unfolding closeSelf_def Let_def b1_def [symmetric] b2_def [symmetric] by blast
qed

lemma tame_WriterPacket: "(\<And>b. tame b (cl c b)) \<Longrightarrow> tame b (fst (WriterPacket env cl c p b))"
  by (simp add: WriterPacket_def rawWrite_def Let_def split: option.split)

lemma tame_CloseWith: "tame b (CloseWith n env c b)"
proof (induction n arbitrary: c b)
  case 0
  then show ?case by simp
next
  case (Suc n)
  then have "tame_writer (WriterPacket env (CloseWith n env))"
    by (simp add: tame_writer_def tame_WriterPacket)
  from tame_trans [OF tame_closeSelf tame_closeNotify [OF this]] show ?case by simp
qed

lemma tame_Close [simp]: "tame b (Close env c b)"
  unfolding Close_def by (rule tame_CloseWith)

lemma tame_writePacket [simp]: "tame_writer (writePacket env)"
  by (simp add: tame_writer_def writePacket_def tame_WriterPacket)

lemma tame_write [simp]: "tame b (fst (writePacket env c p b))"
  by (rule tame_writerD) simp

lemma tame_write': "writePacket env c p b = (b', err) \<Longrightarrow> tame b b'"
  using tame_write by (metis fst_conv)

section \<open>Publishing and retrying\<close>

lemma tame_publish: "tame b (publish env (writePacket env) r p b)"
proof -
  let ?c = "sclient (sheap b r)"
  have "tame b (upd ?c (trackInflight (now env) p) b)" by (rule tame_upd_other) (simp add: trackInflight_def)
  also have "tame \<dots> (fst (writePacket env ?c (PublishP p) \<dots>))" by simp
  also have "tame \<dots> (upd ?c (ensureRetryTimer retryInterval) \<dots>)" by (rule tame_upd_other) (simp add: ensureRetryTimer_def)
  finally show ?thesis by (simp add: publish_def Let_def)
qed

lemma tame_PPM: "tame b (ProcessPublishMessage env (writePacket env) c p b)"
proof -
  obtain out err where s: "mtSubscribers (TopicName p) (Qos p) (topicsMgr (retainIn p b)) (foundSubs (cheap b c)) = (out, err)"
    by (cases "mtSubscribers (TopicName p) (Qos p) (topicsMgr (retainIn p b)) (foundSubs (cheap b c))")
  define b2 where "b2 = upd c (\<lambda>x. x\<lparr>foundSubs := out\<rparr>) (retainIn p b)"
  obtain b3 q where f: "foldl (deliverTo env (writePacket env) (ctyp (cheap b c)) p) (b2, []) (fst out) = (b3, q)"
    by (cases "foldl (deliverTo env (writePacket env) (ctyp (cheap b c)) p) (b2, []) (fst out)")
  have "tame b (retainIn p b)" by (simp add: retainIn_def)
  also have "tame (retainIn p b) b2" unfolding b2_def by (rule tame_upd_other) simp
  finally have 2: "tame b b2" .
  have "tame x (fst (deliverTo env (writePacket env) ty p (x, rs) s))" for x rs ty s
    using tame_publish by (auto simp: deliverTo_def Let_def split: option.split)
  then have "tame b2 b3"
    using tame_fold_fst [of "deliverTo env (writePacket env) (ctyp (cheap b c)) p" b2 "[]" "fst out"] by (simp add: f)
  with 2 have 3: "tame b b3" by (rule tame_trans)
  then have "tame b (publish env (writePacket env) r p b3)" for r using tame_publish by (rule tame_trans)
  with 2 3 show ?thesis
    by (simp add: ProcessPublishMessage_def retainIn_def [symmetric] s b2_def [symmetric] f Let_def)
qed

lemma tame_retry: "tame b (retryDelivery env (writePacket env) c b)"
proof -
  have touch: "tame x (upd d (ensureRetryTimer n) x)" "tame x (upd d (\<lambda>y. y\<lparr>inflight := g y\<rparr>) x)" "tame x (upd d resetRetryTimer x)"
    for x d n g
    by (rule tame_upd_other; simp add: ensureRetryTimer_def resetRetryTimer_def)+
  have "tame x (retryElem env (writePacket env) c x ke)" for x ke
    using touch(1) tame_trans [OF tame_write touch(2)]
    by (simp add: retryElem_def Let_def split: prod.split InflightStatus.split)
  then have "tame x (foldl (retryElem env (writePacket env) c) x es)" for x es by (rule tame_foldl)
  from tame_trans [OF touch(3) tame_trans [OF this touch(1)]] touch(3) show ?thesis
    by (simp add: retryDelivery_def Let_def)
qed

section \<open>The handlers\<close>

lemma tame_auth: "tame b (fst (brokerTopicAuth env act x t b))" "tame b (fst (brokerConnectAuth env i u p b))"
  by (simp_all add: brokerTopicAuth_def brokerConnectAuth_def split: option.split prod.split)

lemma tame_auth': "brokerTopicAuth env act x t b = (b', ok) \<Longrightarrow> tame b b'"
  using tame_auth(1) by (metis fst_conv)

lemma tame_ack_publish:
  "writePacket env c ack b = (b1, err) \<Longrightarrow>
   tame b (if err then b1 else ProcessPublishMessage env (writePacket env) c p b1)"
  using tame_write' tame_trans [OF tame_write' tame_PPM] by auto

lemma tame_ProcessPublish: "tame b (ProcessPublish env c p b)"
proof -
  obtain b1 ok where auth: "brokerTopicAuth env aPUB (cheap b c) (TopicName p) b = (b1, ok)"
    by (cases "brokerTopicAuth env aPUB (cheap b c) (TopicName p) b")
  define b2 where "b2 = bridgePublish (element (cheap b1 c) bPublish (now env) (Payload p) (TopicName p)) b1"
  have 1: "tame b b1" using auth by (rule tame_auth')
  have 2: "tame b b2" using tame_trans [OF 1 tame_fields(8)] by (simp add: b2_def)
  obtain x e where reg: "registerPublishPacketId (now env) (MessageID p) (cheap b2 c) = (x, e)"
    by (cases "registerPublishPacketId (now env) (MessageID p) (cheap b2 c)")
  have "same_identity (cheap b2 c) x"
    using reg by (auto simp: registerPublishPacketId_def same_identity_def split: if_splits)
  then have 3: "tame b (upd c (\<lambda>_. x) b2)" using tame_trans [OF 2 tame_upd] by simp
  obtain b3 err where w: "writePacket env c (PubackP (MessageID p)) b2 = (b3, err)"
    by (cases "writePacket env c (PubackP (MessageID p)) b2")
  obtain b4 err' where w': "writePacket env c (PubrecP (MessageID p)) (upd c (\<lambda>_. x) b2) = (b4, err')"
    by (cases "writePacket env c (PubrecP (MessageID p)) (upd c (\<lambda>_. x) b2)")
  have client: "tame b (processClientPublish env c p b)"
    using 1 2 tame_trans [OF 2 tame_PPM] tame_trans [OF 2 tame_ack_publish [OF w]] tame_trans [OF 3 tame_ack_publish [OF w']]
    by (cases err; cases err')
      (simp_all add: processClientPublish_def auth b2_def [symmetric] reg w w' Let_def split: option.split)
  obtain b5 err'' where w'': "writePacket env c (PubackP (MessageID p)) b = (b5, err'')"
    by (cases "writePacket env c (PubackP (MessageID p)) b")
  have router: "tame b (processRouterPublish env c p b)"
    using tame_PPM tame_ack_publish [OF w''] by (simp add: processRouterPublish_def w'')
  have check: "tame y (fst (CheckRemoteExist rid url y))" for rid url y
    by (auto simp: CheckRemoteExist_def intro: tame_upd_other split: option.split)
  have "tame y (connectNode env y kv)" for y kv
    using check tame_trans [OF check tame_connectRouter [OF tame_writePacket]]
    by (auto simp: connectNode_def split: prod.splits jvalue.split) (metis fst_conv)+
  then have "tame b (foldl (connectNode env) (b\<lparr>nodes := rs\<rparr>) rs)" for rs
    by (rule tame_trans [OF tame_fields(2) tame_foldl])
  then have "tame b (ProcessInfo env c p b)" by (simp add: ProcessInfo_def split: option.split)
  with client router show ?thesis by (simp add: ProcessPublish_def processRemotePublish_def split: ctype.split)
qed

lemma tame_dropSub: "tame b (dropSub c t r b)"
  unfolding dropSub_def by (rule tame_trans [OF tame_fields(12)]) (rule tame_upd_other, simp)

lemma tame_enterSub: "enterSub c topic q sh grp b = (b', r, res) \<Longrightarrow> tame b b'"
  by (drule enterSub_eqs(2)) (simp add: tame_same allocSub_def)

lemma tame_clientSubscribeTopic: "tame b (fst (clientSubscribeTopic env c qoss (b, rcs) (i, t)))"
proof -
  obtain b1 ok where auth: "brokerTopicAuth env aSUB (cheap b c) t b = (b1, ok)"
    by (cases "brokerTopicAuth env aSUB (cheap b c) t b")
  define b2 where "b2 = bridgePublish (element (cheap b1 c) bSubscribe (now env) [] t) b1"
  define b3 where "b3 = (case map_of (subMap (cheap b2 c)) t of None \<Rightarrow> b2 | Some old \<Rightarrow> dropSub c t old b2)"
  have 1: "tame b b1" using auth by (rule tame_auth')
  have 2: "tame b b2" using tame_trans [OF 1 tame_fields(8)] by (simp add: b2_def)
  have 3: "tame b b3" using tame_trans [OF 2 tame_dropSub] 2 by (simp add: b3_def split: option.split)
  have entered: "tame b3 (fst (case enterSub c topic q sh grp b3 of
        (b4, r, None) \<Rightarrow> (b4, rcs @ [QosFailure])
      | (b4, r, Some rq) \<Rightarrow>
          (upd c (\<lambda>x. x\<lparr>rmsgs := fst (mtRetained topic (topicsMgr b4) (rmsgs x))\<rparr>)
             (onClientSession c (\<lambda>s. fst (AddTopic t q s))
               (upd c (\<lambda>x. x\<lparr>subMap := AList.update t r (subMap x)\<rparr>) b4)),
           rcs @ [rq])))" for topic q sh grp
  proof -
    obtain b4 r res where e: "enterSub c topic q sh grp b3 = (b4, r, res)" by (cases "enterSub c topic q sh grp b3") auto
    have 4: "tame b3 b4" using e by (rule tame_enterSub)
    have "tame b4 (upd c (\<lambda>x. x\<lparr>subMap := g x\<rparr>) b4)" "tame y (upd c (\<lambda>x. x\<lparr>rmsgs := g' x\<rparr>) y)" for g g' y
      by (rule tame_upd_other; simp)+
    then have "tame b4 (upd c (\<lambda>x. x\<lparr>rmsgs := g' x\<rparr>) (onClientSession c f (upd c (\<lambda>x. x\<lparr>subMap := g x\<rparr>) b4)))" for g g' f
      using tame_fields(17) tame_trans by meson
    with 4 show ?thesis using tame_trans [OF 4] by (simp add: e split: option.split)
  qed
  have "tame b (crash b3)" using 3 by (rule tame_trans) simp
  then show ?thesis using 1 2 tame_trans [OF 3 entered]
    by (auto simp: clientSubscribeTopic_def auth b2_def [symmetric] b3_def [symmetric] Let_def split: option.split)
qed

lemma tame_routerSubscribeTopic: "tame b (fst (routerSubscribeTopic c qoss (b, rcs) (i, t)))"
proof -
  have "tame b (fst (case enterSub c topic q sh grp b of
        (b1, r, None) \<Rightarrow> (b1, rcs @ [QosFailure])
      | (b1, r, Some rq) \<Rightarrow>
          (upd c (\<lambda>x. x\<lparr>subMap := AList.update t r (subMap x), routeSubMap := addSubMap topic (routeSubMap x)\<rparr>) b1,
           rcs @ [rq])))" for topic q sh grp
  proof -
    obtain b1 r res where e: "enterSub c topic q sh grp b = (b1, r, res)" by (cases "enterSub c topic q sh grp b") auto
    have 1: "tame b b1" using e by (rule tame_enterSub)
    also have "tame b1 (upd c (\<lambda>x. x\<lparr>subMap := AList.update t r (subMap x), routeSubMap := addSubMap topic (routeSubMap x)\<rparr>) b1)"
      by (rule tame_upd_other) simp
    finally show ?thesis using 1 by (simp add: e split: option.split)
  qed
  then show ?thesis by (auto simp: routerSubscribeTopic_def Let_def split: option.split)
qed

lemma tame_fold_pairs:
  "(\<And>b rcs i t. tame b (fst (f (b, rcs) (i, t)))) \<Longrightarrow> foldl f (b, rcs) xs = (b', rcs') \<Longrightarrow> tame b b'"
  using tame_fold_fst [of f b rcs xs] by (metis fst_conv surj_pair)

lemma tame_ProcessSubscribe: "tame b (ProcessSubscribe env c mid topics qoss b)"
proof -
  obtain b1 rcs where f: "foldl (clientSubscribeTopic env c qoss) (b, []) (enumerate 0 topics) = (b1, rcs)"
    by (cases "foldl (clientSubscribeTopic env c qoss) (b, []) (enumerate 0 topics)")
  obtain b2 err where w: "writePacket env c (SubackP mid rcs) b1 = (b2, err)" by (cases "writePacket env c (SubackP mid rcs) b1")
  have "tame b b1" using tame_clientSubscribeTopic f by (rule tame_fold_pairs)
  also have "tame b1 b2" using w by (rule tame_write')
  finally have 2: "tame b b2" .
  also have "tame b2 (spawn g b2)" for g by simp
  also have "tame x (foldl (\<lambda>b rm. fst (writePacket env c (PublishP rm) b)) x rms)" for x rms by (rule tame_foldl) simp
  finally have cl: "tame b (processClientSubscribe env c mid topics qoss b)"
    using 2 by (simp add: processClientSubscribe_def f w)
  obtain b1' rcs' where f': "foldl (routerSubscribeTopic c qoss) (b, []) (enumerate 0 topics) = (b1', rcs')"
    by (cases "foldl (routerSubscribeTopic c qoss) (b, []) (enumerate 0 topics)")
  have "tame b b1'" using tame_routerSubscribeTopic f' by (rule tame_fold_pairs)
  then have "tame b (processRouterSubscribe env c mid topics qoss b)"
    using tame_trans [OF _ tame_write] by (simp add: processRouterSubscribe_def f')
  with cl show ?thesis by (simp add: ProcessSubscribe_def split: ctype.split)
qed

lemma tame_ProcessUnSubscribe: "tame b (ProcessUnSubscribe env c mid topics b)"
proof -
  have "tame x (routerUnsubscribeTopic c x t)" for x t
  proof -
    have "tame x (upd c (\<lambda>y. y\<lparr>routeSubMap := m\<rparr>) x)" for m by (rule tame_upd_other) simp
    then show ?thesis
      using tame_trans [OF _ tame_dropSub] by (simp add: routerUnsubscribeTopic_def Let_def split: option.split prod.split)
  qed
  then have r: "tame b (foldl (routerUnsubscribeTopic c) b topics)" by (rule tame_foldl)
  have "tame x (clientUnsubscribeTopic env c x t)" for x t
  proof -
    have "tame x (dropSub c t r (onClientSession c f (bridgePublish e x)))" for r f e
      by (rule tame_trans [OF tame_trans [OF tame_fields(8) tame_fields(17)] tame_dropSub])
    then show ?thesis by (simp add: clientUnsubscribeTopic_def Let_def split: option.split)
  qed
  then have k: "tame b (foldl (clientUnsubscribeTopic env c) b topics)" by (rule tame_foldl)
  obtain b1 err where w: "writePacket env c (UnsubackP mid) (foldl (clientUnsubscribeTopic env c) b topics) = (b1, err)"
    by (cases "writePacket env c (UnsubackP mid) (foldl (clientUnsubscribeTopic env c) b topics)")
  have 1: "tame b b1" using k tame_write' [OF w] by (rule tame_trans)
  have "tame b (BroadcastSubOrUnsubMessage (writePacket env) p b1)" for p
    using 1 tame_sends(1) [OF tame_writePacket] by (rule tame_trans)
  with 1 r show ?thesis
    using tame_trans [OF r tame_write]
    by (simp add: ProcessUnSubscribe_def processRouterUnSubscribe_def processClientUnSubscribe_def w split: ctype.split)
qed

lemma tame_ProcessMessage: "tame b (ProcessMessage env m b)"
proof -
  let ?c = "mclient m"
  have acts: "tame b (upd ?c (onPuback i) b)" "tame b (upd ?c (onPubcomp i) b)" "tame b (upd ?c (onPubrec t i) b)"
    "tame b (upd ?c (\<lambda>x. fst (pubRel i x)) b)" for i t
    by (rule tame_upd_other; simp add: onPuback_def onPubcomp_def onPubrec_def pubRel_def split: option.split)+
  have "tame b (processPacket env ?c (mpacket m) b)"
    using acts tame_trans [OF acts(3) tame_write] tame_trans [OF acts(4) tame_write]
    by (cases "mpacket m")
      (simp_all add: processPacket_def tame_ProcessPublish tame_ProcessSubscribe tame_ProcessUnSubscribe ProcessPing_def)
  then show ?thesis by (simp add: ProcessMessage_def Let_def split: option.split)
qed

end
