(* ===== verification/Reading_Order.thy ===== *)
theory Reading_Order
  imports Identity_Frame Panics
begin

text \<open>
  From the reader to the worker: what each event does to the queues, to what is counted and to the
  set of running readers, and the two invariants that follow along every run: the packets of a client
  are processed in the order they were read, and what is counted is what there is.
\<close>

section \<open>What an event hands on\<close>

text \<open>The message a turn of a reader hands to the workers, when there are metrics to count it in.\<close>

definition handed :: "event \<Rightarrow> broker \<Rightarrow> message list" where
  "handed e b =
     (case e of
        EvRead c res \<Rightarrow>
          if \<not> metricsOn b then []
          else (case res of
              DeadlineErr \<Rightarrow> if 0 < keepAlive (cheap b c) then [\<lparr>mclient = c, mpacket = DisconnectP\<rparr>] else []
            | ReadErr \<Rightarrow> [\<lparr>mclient = c, mpacket = DisconnectP\<rparr>]
            | ReadPacket p \<Rightarrow> [\<lparr>mclient = c, mpacket = p\<rparr>])
      | _ \<Rightarrow> [])"

text \<open>The clients of accepted connections whose reader runs.\<close>

definition running :: "broker \<Rightarrow> cref set" where
  "running b = {c. c < cnext b \<and> acceptedType (ctyp (cheap b c)) \<and> reading (cheap b c)}"

lemma running_finite: "finite (running b)"
  by (simp add: running_def)

lemma running_tame:
  assumes "tame b b'"
  shows "running b' = running b"
proof -
  have "c \<in> running b' \<longleftrightarrow> c \<in> running b" for c
  proof (cases "c < cnext b")
    case True
    with tame_identity [OF assms True] show ?thesis by (auto simp: running_def same_identity_def)
  next
    case False
    with assms show ?thesis by (auto simp: running_def tame_def)
  qed
  then show ?thesis by blast
qed

text \<open>How the queues change with a list of messages handed on, none or one.\<close>

definition queued :: "env \<Rightarrow> message list \<Rightarrow> broker \<Rightarrow> broker \<Rightarrow> bool" where
  "queued env ms b b' =
     (case ms of
        [] \<Rightarrow> wpool b' = wpool b \<and> clusterPool b' = clusterPool b
      | m # _ \<Rightarrow>
          if ctyp (cheap b (mclient m)) = CLUSTER
          then clusterPool b = [] \<and> clusterPool b' = [m] \<and> wpool b' = wpool b
          else Submit (hashString env) (clientID (cheap b (mclient m))) (Some m) (wpool b) = Some (wpool b')
               \<and> clusterPool b' = clusterPool b)"

definition same_ids :: "broker \<Rightarrow> broker \<Rightarrow> bool" where
  "same_ids b b' =
     (cnext b \<le> cnext b' \<and> (\<forall>c < cnext b. ctyp (cheap b' c) = ctyp (cheap b c) \<and> clientID (cheap b' c) = clientID (cheap b c)))"

lemma same_ids_tame:
  assumes "tame b b'"
  shows "same_ids b b'"
proof -
  have "ctyp (cheap b' c) = ctyp (cheap b c) \<and> clientID (cheap b' c) = clientID (cheap b c)" if "c < cnext b" for c
    using tame_identity(1) [OF assms that] by (simp add: same_identity_def)
  moreover have "cnext b \<le> cnext b'" using assms by (simp add: tame_def)
  ultimately show ?thesis by (simp add: same_ids_def)
qed

lemma SubmitWork_cases:
  assumes "SubmitWork env cid m b = Some b'" "metricsOn b"
  obtains "ctyp (cheap b (mclient m)) = CLUSTER" "clusterPool b = []"
      "b' = (counting (Inc MetricNumberOfMessages) b)\<lparr>clusterPool := [m]\<rparr>"
    | q where "ctyp (cheap b (mclient m)) \<noteq> CLUSTER" "Submit (hashString env) cid (Some m) (wpool b) = Some q"
      "b' = (counting (Inc MetricNumberOfMessages) b)\<lparr>wpool := q\<rparr>"
proof (cases "ctyp (cheap b (mclient m)) = CLUSTER")
  case True
  then show thesis using assms that(1) by (simp add: SubmitWork_def Let_def split: if_splits)
next
  case False
  then obtain q where "Submit (hashString env) cid (Some m) (wpool b) = Some q"
    "b' = (counting (Inc MetricNumberOfMessages) b)\<lparr>wpool := q\<rparr>"
    using assms by (auto simp add: SubmitWork_def Let_def)
  with False show thesis by (rule that(2))
qed

lemma SubmitWork_queued:
  assumes "SubmitWork env (clientID (cheap b (mclient m))) m b = Some b'" "metricsOn b"
  shows "queued env [m] b b'" "cheap b' = cheap b" "cnext b' = cnext b"
    "counted b' = counted b @ [Inc MetricNumberOfMessages]"
  using assms by (cases rule: SubmitWork_cases; simp add: queued_def)+

text \<open>A turn of a reader: one message at most, and one reader less when it ends.\<close>

lemma readTurn_cases:
  assumes "readTurn env c res b = Some b'" "metricsOn b"
  obtains (nothing) "handed (EvRead c res) b = []" "b' = b"
    | (one) m b0 b1 where "handed (EvRead c res) b = [m]" "mclient m = c"
      "cheap b0 = (cheap b)(c := cheap b0 c)" "same_identity (cheap b c) (cheap b0 c)" "reading (cheap b0 c) = reading (cheap b c)"
      "cnext b0 = cnext b" "wpool b0 = wpool b" "clusterPool b0 = clusterPool b" "counted b0 = counted b" "metricsOn b0"
      "SubmitWork env (clientID (cheap b c)) m b0 = Some b1" "b' = b1 \<or> b' = stopReading c b1"
proof -
  let ?bye = "\<lparr>mclient = c, mpacket = DisconnectP\<rparr>"
  have stop: thesis if "handed (EvRead c res) b = [?bye]"
    "map_option (stopReading c) (SubmitWork env (clientID (cheap b c)) ?bye b) = Some b'"
  proof -
    obtain b1 where "SubmitWork env (clientID (cheap b c)) ?bye b = Some b1" "b' = stopReading c b1" using \<open>map_option _ _ = _\<close> by auto
    then show thesis using assms(2) \<open>handed _ _ = _\<close> by (intro one [of ?bye b b1]) simp_all
  qed
  show thesis
  proof (cases res)
    case DeadlineErr
    show thesis
    proof (cases "0 < keepAlive (cheap b c)")
      case True
      with assms stop DeadlineErr show thesis by (simp add: readTurn_def handed_def Let_def)
    next
      case False
      show thesis
        by (rule nothing) (use assms DeadlineErr False in \<open>simp_all add: readTurn_def handed_def Let_def\<close>)
    qed
  next
    case ReadErr
    with assms stop show thesis by (simp add: readTurn_def handed_def Let_def)
  next
    case (ReadPacket p)
    define b0 where "b0 = (if isDisconnect p then upd c (\<lambda>x. x\<lparr>willMsg := None, cancelled := True\<rparr>) b else b)"
    obtain b1 where "SubmitWork env (clientID (cheap b c)) \<lparr>mclient = c, mpacket = p\<rparr> b0 = Some b1" "b' = checkContext c b1"
      using assms(1) ReadPacket by (auto simp: readTurn_def b0_def)
    then show thesis
      using assms(2) ReadPacket
      by (intro one [of "\<lparr>mclient = c, mpacket = p\<rparr>" b0 b1])
        (auto simp: handed_def b0_def checkContext_def same_identity_def)
  qed
qed

text \<open>What is counted of running readers less the readers there are: it never changes.\<close>

definition clientDrift :: "broker \<Rightarrow> int" where
  "clientDrift b = tally MetricNumberOfClients (counted b) - int (card (running b))"

lemma tally_append [simp]: "tally n (xs @ ys) = tally n xs + tally n ys"
  by (simp add: tally_def)

lemma tally_Cons [simp]:
  "tally n (c # cs) = (case c of Inc m \<Rightarrow> if m = n then 1 else 0 | Dec m \<Rightarrow> if m = n then - 1 else 0) + tally n cs"
  "tally n [] = 0"
  by (simp_all add: tally_def split: count.split)

lemma metric_names [simp]: "MetricNumberOfMessages \<noteq> MetricNumberOfClients" "MetricNumberOfClients \<noteq> MetricNumberOfMessages"
  by (simp_all add: MetricNumberOfMessages_def MetricNumberOfClients_def)

lemma stop_running:
  assumes "cheap b1 = (cheap b)(c := cheap b1 c)" "cnext b1 = cnext b" "same_identity (cheap b c) (cheap b1 c)"
    "reading (cheap b1 c) = reading (cheap b c)" "c < cnext b" "reading (cheap b c)"
  shows "running b1 = running b"
    "running (stopReading c b1) = (if acceptedType (ctyp (cheap b c)) then running b - {c} else running b)"
proof -
  have others: "cheap b1 d = cheap b d" if "d \<noteq> c" for d using that by (subst assms(1)) simp
  have here: "ctyp (cheap b1 c) = ctyp (cheap b c)" using assms(3) by (simp add: same_identity_def)
  have "d \<in> running b1 \<longleftrightarrow> d \<in> running b" for d
    using others [of d] here assms(2,4) by (cases "d = c") (simp_all add: running_def)
  then show same: "running b1 = running b" by blast
  have "d \<in> running (stopReading c b1) \<longleftrightarrow> d \<in> running b1 \<and> d \<noteq> c" for d
    by (auto simp: running_def stopReading_same)
  moreover have "c \<notin> running b" if "\<not> acceptedType (ctyp (cheap b c))" using that by (simp add: running_def)
  ultimately show "running (stopReading c b1) = (if acceptedType (ctyp (cheap b c)) then running b - {c} else running b)"
    using same by auto
qed

lemma readTurn_effect:
  assumes "readTurn env c res b = Some b'" "metricsOn b" "c < cnext b" "reading (cheap b c)"
  shows "queued env (handed (EvRead c res) b) b b' \<and> same_ids b b'
    \<and> (\<exists>cs. counted b' = counted b @ cs \<and> list_all exported cs \<and> length cs \<le> 2
             \<and> tally MetricNumberOfMessages cs = int (length (handed (EvRead c res) b)))
    \<and> clientDrift b' = clientDrift b"
  using assms(1,2)
proof (cases rule: readTurn_cases)
  case nothing
  then show ?thesis by (simp add: queued_def same_ids_def)
next
  case (one m b0 b1)
  have id: "clientID (cheap b0 c) = clientID (cheap b c)" "ctyp (cheap b0 c) = ctyp (cheap b c)"
    using one(4) by (simp_all add: same_identity_def)
  note sub = SubmitWork_queued [of env b0 m b1, unfolded one(2) id, OF one(11,10)]
  have same: "cheap b1 = (cheap b)(c := cheap b1 c)" "cnext b1 = cnext b" "same_identity (cheap b c) (cheap b1 c)"
    "reading (cheap b1 c) = reading (cheap b c)"
    using one(3-6) sub(2,3) by simp_all
  note run = stop_running [OF same assms(3,4)]
  have q: "queued env [m] b b1"
    using sub(1) unfolding queued_def list.case one(2,7,8) id .
  have in_run: "acceptedType (ctyp (cheap b c)) \<Longrightarrow> c \<in> running b" using assms(3,4) by (simp add: running_def)
  have ids: "same_ids b b1" unfolding same_ids_def
    using one(6) sub(3) same(1,3) by (metis fun_upd_other order_refl same_identity_def)
  have count: "counted b1 = counted b @ [Inc MetricNumberOfMessages]" using sub(4) one(9) by simp
  have acc: "ctyp (cheap b1 c) = CLIENT \<or> ctyp (cheap b1 c) = ROUTER \<longleftrightarrow> acceptedType (ctyp (cheap b c))"
    using same(3) by (simp add: acceptedType_def same_identity_def)
  from one(12) show ?thesis
  proof
    assume "b' = b1"
    then show ?thesis using q ids by (simp add: one(1) count clientDrift_def run exported_def)
  next
    assume b': "b' = stopReading c b1"
    have "queued env [m] b b'" using q by (simp add: queued_def b' stopReading_same)
    moreover have "same_ids b b'" using ids by (auto simp: same_ids_def b' stopReading_same)
    moreover have "clientDrift b' = clientDrift b"
      using in_run card_gt_0_iff [of "running b"] running_finite [of b]
      by (auto simp: clientDrift_def b' stopReading_same acc count run card_Diff_singleton)
    ultimately show ?thesis by (simp add: one(1) b' stopReading_same acc count exported_def)
  qed
qed

section \<open>Every event\<close>

lemma tame_others:
  "tame b (runGo env g b)" "tame b (pingTurn env tick c b)" "tame b (deleteConnection env cid b)"
  "tame b (upd c (expireAwaitingRel t) b)"
proof -
  show "tame b (runGo env g b)"
    using tame_sends(1) [OF tame_writePacket] tame_connectRouter [OF tame_writePacket]
    by (simp add: runGo_def split: goroutine.split)
  obtain b1 err where w: "writePacket env c PingreqP b = (b1, err)" by (cases "writePacket env c PingreqP b")
  have "tame b (upd c (\<lambda>x. x\<lparr>pinging := False\<rparr>) b)" by (rule tame_upd_other) simp
  then show "tame b (pingTurn env tick c b)"
    using tame_write' [OF w] tame_trans [OF tame_write' [OF w] tame_Close] by (simp add: pingTurn_def w)
  show "tame b (deleteConnection env cid b)" by (simp add: deleteConnection_def split: option.split)
  show "tame b (upd c (expireAwaitingRel t) b)" by (rule tame_upd_other) (simp add: expireAwaitingRel_def)
qed

lemma tame_register: "tame b (register env msg c b)"
proof -
  let ?cid = "clientID (cheap b c)"
  have close: "tame b (case map_of m ?cid of None \<Rightarrow> b | Some old \<Rightarrow> Close env old b)" for m
    by (simp split: option.split)
  have "tame b (bridgePublish el (OnlineOfflineNotification env (writePacket env) cid True (b1\<lparr>clients := cs\<rparr>)))"
    if "tame b b1" for el cid cs b1
    using tame_trans [OF tame_trans [OF tame_trans [OF that tame_fields(10)] tame_sends(4) [OF tame_writePacket]] tame_fields(8)] .
  with close tame_trans [OF close tame_fields(9)] show ?thesis
    by (simp add: register_def Let_def split: ctype.split)
qed

definition steps_ok :: "env \<Rightarrow> message list \<Rightarrow> broker \<Rightarrow> broker \<Rightarrow> bool" where
  "steps_ok env ms b b' =
     (queued env ms b b' \<and> same_ids b b' \<and> metricsOn b' = metricsOn b \<and> clientDrift b' = clientDrift b
      \<and> (\<exists>cs. counted b' = counted b @ cs \<and> list_all exported cs \<and> length cs \<le> 2
               \<and> tally MetricNumberOfMessages cs = int (length ms)))"

lemma steps_tame: "tame b b' \<Longrightarrow> steps_ok env [] b b'"
  using same_ids_tame [of b b'] running_tame [of b b']
  by (simp add: steps_ok_def queued_def clientDrift_def) (simp add: tame_def)

lemma accept_effect:
  assumes "ty = CLIENT \<or> ty = ROUTER"
  shows "steps_ok env [] b (acceptClient env ty k msg b)"
proof -
  define x where "x = initClient ty k (ClientIdentifier msg) (Username msg) (Password msg) (Keepalive msg) (willOf msg)
    (connLocalIP env) (connRemoteIP env) [] []"
  have x: "acceptedType (ctyp x)" "\<not> reading x" "ctyp x = ty" using assms by (auto simp: x_def initClient_def acceptedType_def)
  define c where "c = cnext b"
  define b1 where "b1 = b\<lparr>cheap := (cheap b)(c := x), cnext := c + 1\<rparr>"
  have a: "allocClient x b = (b1, c)" by (simp add: allocClient_def b1_def c_def)
  obtain b2 err where s: "getSession env c msg b1 = (b2, err)" by (cases "getSession env c msg b1")
  obtain r mp where b2: "b2 = upd c (\<lambda>x. x\<lparr>csession := Some r\<rparr>) (b1\<lparr>sessionMgr := mp\<rparr>)" using getSession_eq [OF s] by blast
  have 2: "tame b1 b2" unfolding b2 using tame_fields(13) by (rule tame_trans) (rule tame_upd_other, simp)
  have new: "steps_ok env [] b b1 \<and> running b1 = running b"
  proof -
    have "running b1 = running b" by (auto simp: running_def b1_def c_def x less_Suc_eq)
    then show ?thesis by (auto simp: steps_ok_def queued_def same_ids_def clientDrift_def b1_def c_def)
  qed
  have idle: "steps_ok env [] b b'" if "tame b1 b'" for b'
  proof -
    have "cnext b1 = Suc (cnext b)" by (simp add: b1_def c_def)
    then have "same_ids b b'" using new same_ids_tame [OF that] by (auto simp: steps_ok_def same_ids_def)
    with new running_tame [OF that] that show ?thesis
      by (auto simp: steps_ok_def queued_def clientDrift_def tame_def)
  qed
  define b3 where "b3 = register env msg c b2"
  have 3: "tame b1 b3" unfolding b3_def using 2 tame_register by (rule tame_trans)
  have c3: "c < cnext b3" "ctyp (cheap b3 c) = ty" "c \<notin> running b3"
  proof -
    have c1: "c < cnext b1" "cheap b1 c = x" by (simp_all add: b1_def)
    from tame_identity [OF 3 c1(1)] c1(2) x show "c < cnext b3" "ctyp (cheap b3 c) = ty" "c \<notin> running b3"
      by (simp_all add: same_identity_def running_def)
  qed
  define b4 where "b4 = upd c (\<lambda>x. x\<lparr>reading := True\<rparr>) (counting (Inc MetricNumberOfClients) b3)"
  have run4: "running b4 = insert c (running b3)"
    using c3 x(1,3) by (auto simp: running_def b4_def)
  have "steps_ok env [] b b4"
  proof -
    have "clientDrift b4 = clientDrift b3"
      using c3(3) running_finite [of b3] by (simp add: clientDrift_def run4) (simp add: b4_def counting_def)
    moreover have "same_ids b3 b4" "wpool b4 = wpool b3" "clusterPool b4 = clusterPool b3" "metricsOn b4 = metricsOn b3"
      "counted b4 = counted b3 @ [Inc MetricNumberOfClients]"
      by (simp_all add: b4_def same_ids_def counting_def)
    moreover have "counted b3 = counted b" using 3 by (simp add: tame_def b1_def)
    ultimately show ?thesis using idle [OF 3] by (auto simp: steps_ok_def queued_def same_ids_def exported_def)
  qed
  moreover have "acceptClient env ty k msg b = (if err \<noteq> None then b2 else if \<not> metricsOn b3 then crash b3 else b4)"
    using a s by (simp add: acceptClient_def x_def [symmetric] b3_def [symmetric] b4_def [symmetric] Let_def)
  ultimately show ?thesis using idle [OF 2] idle [OF tame_trans [OF 3 tame_fields(5)]] by simp
qed

lemma rawWrite_tame: "tame b (fst (rawWrite env k p b))"
  by (simp add: rawWrite_def Let_def)

lemma steps_after: "tame b b1 \<Longrightarrow> steps_ok env [] b1 b2 \<Longrightarrow> steps_ok env [] b b2"
  using same_ids_tame [of b b1] running_tame [of b b1]
  by (auto simp: steps_ok_def queued_def clientDrift_def same_ids_def tame_def)

lemma connection_effect:
  assumes "ty = CLIENT \<or> ty = ROUTER"
  shows "steps_ok env [] b (handleConnection env ty packet b)"
proof -
  define b0 where "b0 = b\<lparr>connNext := connNext b + 1\<rparr>"
  have 0: "tame b b0" by (simp add: b0_def)
  have connect: "steps_ok env [] b (handleConnection env ty (Some (ConnectP msg)) b)" for msg
  proof -
    obtain b1 ok where a: "brokerConnectAuth env (ClientIdentifier msg) (Username msg) (Password msg) b0 = (b1, ok)"
      by (cases "brokerConnectAuth env (ClientIdentifier msg) (Username msg) (Password msg) b0")
    have 1: "tame b b1" using tame_trans [OF 0 tame_auth(2)] a by (metis fst_conv)
    have wr: "tame b (fst (rawWrite env k p x))" if "tame b x" for k p x using that rawWrite_tame by (rule tame_trans)
    have acc: "steps_ok env [] b (case rawWrite env k p x of (b2, err) \<Rightarrow> if err then b2 else acceptClient env ty k msg b2)"
      if "tame b x" for x k p
    proof -
      obtain b2 err where w: "rawWrite env k p x = (b2, err)" by (cases "rawWrite env k p x")
      have 2: "tame b b2" using wr [OF that, of k p] by (simp add: w)
      show ?thesis using steps_tame [OF 2] steps_after [OF 2 accept_effect [OF assms]] by (simp add: w)
    qed
    show ?thesis
      using acc [OF 0] acc [OF 1] steps_tame [OF wr [OF 0]] steps_tame [OF wr [OF 1]]
      unfolding handleConnection_def Let_def b0_def [symmetric] by (cases "ty = CLIENT") (simp_all add: a)
  qed
  show ?thesis
  proof (cases packet)
    case None
    then show ?thesis using steps_tame [OF 0] by (simp add: handleConnection_def b0_def)
  next
    case (Some p)
    then show ?thesis using steps_tame [OF 0] connect by (cases p) (simp_all add: handleConnection_def b0_def)
  qed
qed

text \<open>An event takes a packet up for processing, or hands at most one on; it never does both.\<close>

lemma event_effect:
  assumes "handleEvent env e b = Some b'" "metricsOn b"
  obtains (idle) "processed e b = None" "steps_ok env (handed e b) b b'"
    | (pool) i m p where "processed e b = Some m" "handed e b = []" "takeTask i (wpool b) = Some (m, p)"
        "steps_ok env [] (b\<lparr>wpool := p\<rparr>) b'"
    | (cluster) m ms where "processed e b = Some m" "handed e b = []" "clusterPool b = m # ms"
        "steps_ok env [] (b\<lparr>clusterPool := ms\<rparr>) b'"
proof (cases e)
  case (EvAccept cl pk)
  then have "b' = handleConnection env (if cl then ROUTER else CLIENT) pk b"
    using assms(1) by (simp add: handleEvent_def split: if_splits)
  then show thesis
    using idle connection_effect [of "if cl then ROUTER else CLIENT"] EvAccept by (simp add: processed_def handed_def)
next
  case (EvRead c res)
  then have turn: "readTurn env c res b = Some b'" "c < cnext b" "reading (cheap b c)"
    using assms(1) by (auto simp: handleEvent_def split: if_splits)
  show thesis
    using idle EvRead readTurn_effect [OF turn(1) assms(2) turn(2,3)] level_readTurn [OF assms(2) turn(1)]
    by (simp add: processed_def steps_ok_def level_def)
next
  case (EvWork i)
  then obtain m p where "takeTask i (wpool b) = Some (m, p)" "b' = ProcessMessage env m (b\<lparr>wpool := p\<rparr>)"
    using assms(1) by (auto simp: handleEvent_def split: if_splits option.splits)
  then show thesis using pool EvWork steps_tame [OF tame_ProcessMessage] by (simp add: processed_def handed_def)
next
  case EvCluster
  then obtain m ms where "clusterPool b = m # ms" "b' = ProcessMessage env m (b\<lparr>clusterPool := ms\<rparr>)"
    using assms(1) by (auto simp: handleEvent_def processClusterInfo_def split: if_splits list.splits)
  then show thesis using cluster EvCluster steps_tame [OF tame_ProcessMessage] by (simp add: processed_def handed_def)
next
  case EvGo
  then obtain g gs where "b' = runGo env g (b\<lparr>goroutines := gs\<rparr>)"
    using assms(1) by (auto simp: handleEvent_def split: if_splits list.splits)
  then show thesis
    using idle EvGo steps_tame [OF tame_trans [OF tame_fields(3) tame_others(1)]] by (simp add: processed_def handed_def)
qed (use assms(1) idle steps_tame [OF tame_retry] steps_tame [OF tame_others(2)] steps_tame [OF tame_others(3)]
      steps_tame [OF tame_others(4)] steps_tame [OF tame_Discovery [OF tame_writePacket]]
    in \<open>auto simp: handleEvent_def processed_def handed_def split: if_splits\<close>)

section \<open>Runs\<close>

text \<open>What is gathered along a run, and the two lists the order is about.\<close>

fun gather :: "(event \<Rightarrow> broker \<Rightarrow> 'a list) \<Rightarrow> (env \<times> event) list \<Rightarrow> broker \<Rightarrow> 'a list" where
  "gather f [] b = []"
| "gather f ((env, e) # es) b = f e b @ (case handleEvent env e b of None \<Rightarrow> [] | Some b1 \<Rightarrow> gather f es b1)"

definition handedAlong :: "(env \<times> event) list \<Rightarrow> broker \<Rightarrow> message list" where
  "handedAlong = gather handed"

definition processedAlong :: "(env \<times> event) list \<Rightarrow> broker \<Rightarrow> message list" where
  "processedAlong = gather (\<lambda>e b. case processed e b of None \<Rightarrow> [] | Some m \<Rightarrow> [m])"

text \<open>Where the messages of a client wait.\<close>

definition waiting :: "(string \<Rightarrow> uint64) \<Rightarrow> cref \<Rightarrow> broker \<Rightarrow> message list" where
  "waiting h c b =
     (if ctyp (cheap b c) = CLUSTER then clusterPool b
      else taskQueue (wpool b) ! poolIndex h (clientID (cheap b c)) (wpool b))"

abbreviation queueOf :: "nat \<Rightarrow> broker \<Rightarrow> message list" where
  "queueOf i b \<equiv> (if i < length (taskQueue (wpool b)) then taskQueue (wpool b) ! i else [])"

definition toHub :: "broker \<Rightarrow> message \<Rightarrow> bool" where
  "toHub b m = (ctyp (cheap b (mclient m)) = CLUSTER)"

definition toQueue :: "(string \<Rightarrow> uint64) \<Rightarrow> nat \<Rightarrow> broker \<Rightarrow> message \<Rightarrow> bool" where
  "toQueue h i b m =
     (\<not> toHub b m \<and> poolIndex h (clientID (cheap b (mclient m))) (wpool b) = i)"

definition in_turn :: "(string \<Rightarrow> uint64) \<Rightarrow> broker \<Rightarrow> message list \<Rightarrow> message list \<Rightarrow> bool" where
  "in_turn h b hs ps =
     (pool_inv (wpool b) \<and> (\<forall>m \<in> set hs \<union> set ps. mclient m < cnext b)
      \<and> (\<forall>i. filter (toQueue h i b) hs = filter (toQueue h i b) ps @ queueOf i b)
      \<and> filter (toHub b) hs = filter (toHub b) ps @ clusterPool b)"

lemma same_ids_filters:
  assumes "same_ids b b'" "\<forall>m \<in> set ms. mclient m < cnext b" "\<And>u. poolIndex h u (wpool b') = poolIndex h u (wpool b)"
  shows "filter (toQueue h i b') ms = filter (toQueue h i b) ms" "filter (toHub b') ms = filter (toHub b) ms"
  using assms by (auto simp: toQueue_def toHub_def same_ids_def intro!: filter_cong)

lemma in_turn_hand:
  assumes "in_turn h b hs ps" "steps_ok env ms b b'" "ms = [] \<or> ms = [m]" "\<forall>m \<in> set ms. mclient m < cnext b"
    "hashString env = h"
  shows "in_turn h b' (hs @ ms) ps"
proof -
  note i = assms(1) [unfolded in_turn_def]
  have ids: "same_ids b b'" and q: "queued env ms b b'" using assms(2) by (auto simp: steps_ok_def)
  have le: "cnext b \<le> cnext b'" using ids by (simp add: same_ids_def)
  have bound: "\<forall>m \<in> set (hs @ ms) \<union> set ps. mclient m < cnext b'"
    using i assms(4) le by (auto dest: less_le_trans)
  show ?thesis
  proof (cases "ms = [] \<or> toHub b m")
    case True
    then have w: "wpool b' = wpool b" "clusterPool b' = clusterPool b @ ms" and none: "filter (toQueue h i b) ms = []" "filter (toHub b) ms = ms" for i
      using q assms(3) by (auto simp: queued_def toHub_def toQueue_def)
    note f = same_ids_filters [OF ids _, of _ h, unfolded w(1)]
    show ?thesis using i bound assms(4) none
      unfolding in_turn_def w by (simp add: f)
  next
    case False
    with assms(3) have ms: "ms = [m]" by simp
    with False q have sub: "Submit h (clientID (cheap b (mclient m))) (Some m) (wpool b) = Some (wpool b')"
      and cl: "clusterPool b' = clusterPool b"
      by (auto simp: queued_def toHub_def assms(5))
    have p: "pool_inv (wpool b)" using i by simp
    note f = same_ids_filters [OF ids _ fixpool.submit_index [OF p sub]]
    have "filter (toQueue h j b') (hs @ ms) = filter (toQueue h j b') ps @ queueOf j b'" for j
    proof -
      have "filter (toQueue h j b') (hs @ ms) = filter (toQueue h j b) (hs @ ms)"
        "filter (toQueue h j b') ps = filter (toQueue h j b) ps"
        by (rule f(1); use i assms(4) in auto)+
      then show ?thesis
        using i fixpool.submit_pending [OF p sub, of j] False by (simp add: ms toQueue_def)
    qed
    moreover have "filter (toHub b') (hs @ ms) = filter (toHub b') ps @ clusterPool b'"
    proof -
      have "filter (toHub b') (hs @ ms) = filter (toHub b) (hs @ ms)" "filter (toHub b') ps = filter (toHub b) ps"
        by (rule f(2); use i assms(4) in auto)+
      then show ?thesis using i False by (simp add: ms cl)
    qed
    ultimately show ?thesis using bound fixpool.submit_inv [OF p sub] by (simp add: in_turn_def)
  qed
qed

lemma in_turn_take:
  assumes "in_turn h b hs ps"
  shows "takeTask i (wpool b) = Some (m, p) \<Longrightarrow> in_turn h (b\<lparr>wpool := p\<rparr>) hs (ps @ [m])"
    "clusterPool b = m # ms \<Longrightarrow> in_turn h (b\<lparr>clusterPool := ms\<rparr>) hs (ps @ [m])"
proof -
  note i = assms [unfolded in_turn_def]
  {
    assume t: "takeTask i (wpool b) = Some (m, p)"
    have inv: "pool_inv (wpool b)" using i by simp
    note take = fixpool.take_pending [OF inv t] fixpool.take_index [OF inv t] fixpool.take_inv [OF inv t]
    have "filter (toQueue h i b) hs = filter (toQueue h i b) ps @ queueOf i b" using i by blast
    also have "queueOf i b = m # (if i < length (taskQueue p) then taskQueue p ! i else [])" using take(1) by blast
    finally have "m \<in> set (filter (toQueue h i b) hs)" by simp
    then have "m \<in> set hs" "toQueue h i b m" unfolding set_filter by blast+
    then have m: "toQueue h i b m" "\<not> toHub b m" "mclient m < cnext b" using conjunct1 [OF conjunct2 [OF i]] by (auto simp: toQueue_def)
    have same: "toQueue h j (b\<lparr>wpool := p\<rparr>) = toQueue h j b" "toHub (b\<lparr>wpool := p\<rparr>) = toHub b" for j
      using take(2) [of h] by (auto simp: toQueue_def toHub_def fun_eq_iff)
    have "filter (toQueue h j b) hs = filter (toQueue h j b) (ps @ [m]) @ queueOf j (b\<lparr>wpool := p\<rparr>)" for j
    proof (cases "j = i")
      case True
      then show ?thesis using i take(1) m(1) by simp
    next
      case False
      then have "\<not> toQueue h j b m" using m(1) by (simp add: toQueue_def)
      moreover have "queueOf j (b\<lparr>wpool := p\<rparr>) = queueOf j b"
        using conjunct2 [OF take(1), rule_format, OF False] by (simp split: if_splits)
      moreover have "filter (toQueue h j b) hs = filter (toQueue h j b) ps @ queueOf j b" using i by blast
      ultimately show ?thesis by (simp only: filter_append filter.simps if_False append_Nil2)
    qed
    moreover have "filter (toHub b) hs = filter (toHub b) (ps @ [m]) @ clusterPool b" using i m(2) by simp
    moreover have "\<forall>x \<in> set hs \<union> set (ps @ [m]). mclient x < cnext b" using i m(3) by auto
    ultimately show "in_turn h (b\<lparr>wpool := p\<rparr>) hs (ps @ [m])"
      unfolding in_turn_def same using take(3) by simp
  }
  {
    assume t: "clusterPool b = m # ms"
    have "m \<in> set (filter (toHub b) hs)" using i t by simp
    then have "m \<in> set hs" "toHub b m" unfolding set_filter by blast+
    then have m: "toHub b m" "mclient m < cnext b" using conjunct1 [OF conjunct2 [OF i]] by auto
    have same: "toQueue h j (b\<lparr>clusterPool := ms\<rparr>) = toQueue h j b" "toHub (b\<lparr>clusterPool := ms\<rparr>) = toHub b" for j
      by (auto simp: toQueue_def toHub_def fun_eq_iff)
    have "\<not> toQueue h j b m" for j using m(1) by (simp add: toQueue_def)
    then show "in_turn h (b\<lparr>clusterPool := ms\<rparr>) hs (ps @ [m])"
      using i m t by (simp add: in_turn_def same)
  }
qed

lemma handed_shape:
  assumes "handleEvent env e b = Some b'"
  shows "handed e b = [] \<or> (\<exists>m. handed e b = [m] \<and> mclient m < cnext b)"
  using assms by (cases e) (auto simp: handed_def handleEvent_def split: read_result.splits if_splits)

text \<open>Everything the two properties need of one event of a run.\<close>

definition told :: "nat \<Rightarrow> nat \<Rightarrow> broker \<Rightarrow> broker \<Rightarrow> bool" where
  "told k n b b' =
     (\<exists>cs. counted b' = counted b @ cs \<and> list_all exported cs \<and> length cs \<le> 2 * k
           \<and> tally MetricNumberOfMessages cs = int n)"

lemma told_trans: "told j n a b \<Longrightarrow> told k m b c \<Longrightarrow> told (j + k) (n + m) a c"
  unfolding told_def by (elim exE conjE, rule_tac x = "cs @ csa" in exI) simp

lemma event_keeps:
  assumes "handleEvent env e b = Some b'" "metricsOn b" "hashString env = h" "in_turn h b hs ps"
  shows "in_turn h b' (hs @ handed e b) (ps @ (case processed e b of None \<Rightarrow> [] | Some m \<Rightarrow> [m]))
    \<and> metricsOn b' \<and> clientDrift b' = clientDrift b \<and> told 1 (length (handed e b)) b b'"
  using assms(1,2)
proof (cases rule: event_effect)
  case idle
  have "in_turn h b' (hs @ handed e b) ps"
    using in_turn_hand [OF assms(4) idle(2) _ _ assms(3)] handed_shape [OF assms(1)] by auto
  with idle assms(2) show ?thesis by (auto simp: steps_ok_def told_def)
next
  case (pool i m p)
  have "in_turn h b' (hs @ []) (ps @ [m])"
    using in_turn_hand [OF in_turn_take(1) [OF assms(4) pool(3)] pool(4) _ _ assms(3)] by simp
  with pool assms(2) show ?thesis by (auto simp: steps_ok_def told_def clientDrift_def running_def)
next
  case (cluster m ms)
  have "in_turn h b' (hs @ []) (ps @ [m])"
    using in_turn_hand [OF in_turn_take(2) [OF assms(4) cluster(3)] cluster(4) _ _ assms(3)] by simp
  with cluster assms(2) show ?thesis by (auto simp: steps_ok_def told_def clientDrift_def running_def)
qed

lemma run_turn:
  assumes "plays es b = Some b'" "metricsOn b" "\<forall>x \<in> set es. hashString (fst x) = h" "in_turn h b hs ps"
  shows "in_turn h b' (hs @ handedAlong es b) (ps @ processedAlong es b)
    \<and> clientDrift b' = clientDrift b \<and> told (length es) (length (handedAlong es b)) b b'"
  using assms
proof (induction es b arbitrary: hs ps rule: plays.induct)
  case (1 b)
  then show ?case by (simp add: handedAlong_def processedAlong_def told_def)
next
  case (2 env e es b)
  obtain b1 where b1: "handleEvent env e b = Some b1" "plays es b1 = Some b'"
    using "2.prems"(1) by (auto split: option.splits)
  have h: "hashString env = h" "\<forall>x \<in> set es. hashString (fst x) = h" using "2.prems"(3) by simp_all
  have one: "in_turn h b1 (hs @ handed e b) (ps @ (case processed e b of None \<Rightarrow> [] | Some m \<Rightarrow> [m]))"
    "metricsOn b1" "clientDrift b1 = clientDrift b" "told 1 (length (handed e b)) b b1"
    using event_keeps [OF b1(1) "2.prems"(2) h(1) "2.prems"(4)] by blast+
  note rest = "2.IH" [OF b1 one(2) h(2) one(1)]
  have along: "handedAlong ((env, e) # es) b = handed e b @ handedAlong es b1"
    "processedAlong ((env, e) # es) b = (case processed e b of None \<Rightarrow> [] | Some m \<Rightarrow> [m]) @ processedAlong es b1"
    using b1(1) by (simp_all add: handedAlong_def processedAlong_def)
  show ?case
    using rest one(3) told_trans [OF one(4), of "length es" "length (handedAlong es b1)" b'] unfolding along by simp
qed

lemma new_turn:
  assumes "workers < 2 ^ 64"
  shows "in_turn h (NewBroker bid cport router workers auth bridge metrics) [] []"
    "clientDrift (NewBroker bid cport router workers auth bridge metrics) = 0"
    "counted (NewBroker bid cport router workers auth bridge metrics) = []"
proof -
  have "queueOf i (NewBroker bid cport router workers auth bridge metrics) = []" for i
    by (simp add: NewBroker_def newPool_def Let_def)
  then show "in_turn h (NewBroker bid cport router workers auth bridge metrics) [] []"
    using newPool_inv [OF assms] by (simp add: in_turn_def) (simp add: NewBroker_def)
qed (simp_all add: NewBroker_def clientDrift_def running_def)

text \<open>
  C7. Under every interleaving of readers, workers, timers and connections, the packets of one client
  are processed in the order its reader handed them on, each once and none lost: those processed so
  far, followed by those that wait in the client's one queue, are those handed on. The hub's packets
  wait in the cluster loop's queue. No queue of a worker ever holds more than its channel.
\<close>

theorem packets_processed_in_order:
  assumes "plays es (NewBroker bid cport router workers auth bridge True) = Some b" "workers < 2 ^ 64"
    and "\<forall>x \<in> set es. hashString (fst x) = h"
  shows "filter (\<lambda>m. mclient m = c) (handedAlong es (NewBroker bid cport router workers auth bridge True))
      = filter (\<lambda>m. mclient m = c) (processedAlong es (NewBroker bid cport router workers auth bridge True))
        @ filter (\<lambda>m. mclient m = c) (waiting h c b)
    \<and> poolIndex h u (wpool b) < length (taskQueue (wpool b))
    \<and> length (taskQueue (wpool b) ! poolIndex h u (wpool b)) \<le> 1024"
proof -
  let ?b = "NewBroker bid cport router workers auth bridge True"
  have t: "in_turn h b (handedAlong es ?b) (processedAlong es ?b)"
    using run_turn [OF assms(1) _ assms(3) new_turn(1) [OF assms(2)]] by (simp add: NewBroker_def)
  then have inv: "pool_inv (wpool b)" by (simp add: in_turn_def)
  then have i: "poolIndex h v (wpool b) < length (taskQueue (wpool b))" for v
    using poolIndex_less [OF inv] by (simp add: pool_inv_def)
  then have "length (taskQueue (wpool b) ! poolIndex h u (wpool b)) \<le> 1024"
    using inv by (auto simp: pool_inv_def list_all_length chanSize_def)
  moreover have "filter (\<lambda>m. mclient m = c) (handedAlong es ?b)
      = filter (\<lambda>m. mclient m = c) (processedAlong es ?b) @ filter (\<lambda>m. mclient m = c) (waiting h c b)"
  proof (cases "ctyp (cheap b c) = CLUSTER")
    case True
    have sub: "filter (\<lambda>m. mclient m = c) xs = filter (\<lambda>m. mclient m = c) (filter (toHub b) xs)" for xs
      using True by (auto simp: toHub_def intro: filter_cong)
    have "filter (toHub b) (handedAlong es ?b) = filter (toHub b) (processedAlong es ?b) @ clusterPool b"
      using t unfolding in_turn_def by blast
    with True show ?thesis
      unfolding sub [of "handedAlong es ?b"] sub [of "processedAlong es ?b"] by (simp add: waiting_def)
  next
    case False
    let ?i = "poolIndex h (clientID (cheap b c)) (wpool b)"
    have sub: "filter (\<lambda>m. mclient m = c) xs = filter (\<lambda>m. mclient m = c) (filter (toQueue h ?i b) xs)" for xs
      using False by (auto simp: toHub_def toQueue_def intro: filter_cong)
    have "filter (toQueue h ?i b) (handedAlong es ?b) = filter (toQueue h ?i b) (processedAlong es ?b) @ queueOf ?i b"
      using t unfolding in_turn_def by blast
    with i False show ?thesis
      unfolding sub [of "handedAlong es ?b"] sub [of "processedAlong es ?b"] by (simp add: waiting_def)
  qed
  ultimately show ?thesis using i by blast
qed

lemma packets_processed_in_order_witness:
  "filter (\<lambda>m. mclient m = 0) [\<lparr>mclient = 0, mpacket = PingreqP\<rparr>, \<lparr>mclient = 0, mpacket = SubscribeP 7 [''a''] [QosAtLeastOnce]\<rparr>]
   = [\<lparr>mclient = 0, mpacket = PingreqP\<rparr>] @ [\<lparr>mclient = 0, mpacket = SubscribeP 7 [''a''] [QosAtLeastOnce]\<rparr>]"
proof -
  let ?es = "map (Pair calm) [EvAccept False (Some (ConnectP hello)), EvRead 0 (ReadPacket PingreqP),
    EvRead 0 (ReadPacket (SubscribeP 7 [''a''] [QosAtLeastOnce])), EvWork 0]"
  let ?b = "the (plays ?es quietBroker)"
  have facts: "\<not> Option.is_none (plays ?es quietBroker)"
    "filter (\<lambda>m. mclient m = 0) (handedAlong ?es quietBroker)
       = [\<lparr>mclient = 0, mpacket = PingreqP\<rparr>, \<lparr>mclient = 0, mpacket = SubscribeP 7 [''a''] [QosAtLeastOnce]\<rparr>]"
    "filter (\<lambda>m. mclient m = 0) (processedAlong ?es quietBroker) = [\<lparr>mclient = 0, mpacket = PingreqP\<rparr>]"
    "filter (\<lambda>m. mclient m = 0) (waiting (hashString calm) 0 ?b)
       = [\<lparr>mclient = 0, mpacket = SubscribeP 7 [''a''] [QosAtLeastOnce]\<rparr>]"
    by code_simp+
  have p: "plays ?es quietBroker = Some ?b" using facts(1) by (cases "plays ?es quietBroker") auto
  from packets_processed_in_order [OF p [unfolded quietBroker_def], where h = "hashString calm" and c = 0] facts(2-4)
  show ?thesis unfolding quietBroker_def by simp
qed



end
