(* ===== verification/Write_Race.thy ===== *)
theory Write_Race
  imports Broker_State
begin

text \<open>
  \<^verbatim>\<open>WriterPacket\<close> and \<^verbatim>\<open>Close\<close> of one client, run by many goroutines at once (a worker, the
  retry timer, the ping ticker, a connection that takes the identifier over, the deletion over HTTP).
  Here their statements interleave: each turn is one access to the shared fields \<^verbatim>\<open>status\<close>,
  \<^verbatim>\<open>conn\<close> and \<^verbatim>\<open>mu\<close>, which Go does not order, taken one after the other. A packet goes to the
  network in the pieces the packet library writes it in; how it is cut is a parameter.
\<close>

section \<open>Goroutines\<close>

text \<open>A goroutine that calls \<open>Close\<close> is \<open>guarded\<close> when its caller recovers, as the HTTP server does.\<close>

datatype job = Writes controlPacket | Closes bool

datatype result = ReturnsNil | ReturnsErr | Recovered

text \<open>The statement a goroutine is at.\<close>

datatype at =
    AtStatus            \<comment> \<open>\<^verbatim>\<open>WriterPacket\<close>: is the client disconnected\<close>
  | AtConn              \<comment> \<open>is there a connection\<close>
  | AtLock              \<comment> \<open>waits for \<^verbatim>\<open>c.mu\<close>\<close>
  | AtArg               \<comment> \<open>reads \<^verbatim>\<open>c.conn\<close> for \<^verbatim>\<open>packet.Write\<close>\<close>
  | AtWire connId "string list"   \<comment> \<open>the pieces still to be written\<close>
  | ClStatus            \<comment> \<open>\<^verbatim>\<open>Close\<close>: is the client disconnected\<close>
  | ClCancel
  | ClMark              \<comment> \<open>\<^verbatim>\<open>c.status = Disconnected\<close>\<close>
  | ClConn              \<comment> \<open>is there a connection\<close>
  | ClShut              \<comment> \<open>\<^verbatim>\<open>c.conn.Close()\<close>\<close>
  | ClNil               \<comment> \<open>\<^verbatim>\<open>c.conn = nil\<close>\<close>
  | ClRest              \<comment> \<open>registry, index, notifications, will, reconnecting\<close>
  | Ended result

record goproc =
  job :: job
  pc :: at

text \<open>The fields of the client, what is on the wire and who put it there, and how far \<open>Close\<close> came.\<close>

record race =
  rstatus :: cstatus
  rconn :: "connId option"
  rcancelled :: bool
  mu :: "nat option"
  wire :: "(nat \<times> connId \<times> string) list"
  shut :: "connId list"
  rests :: nat
  panicked :: bool
  procs :: "goproc list"

definition start :: "job \<Rightarrow> goproc" where
  "start j = \<lparr>job = j, pc = (case j of Writes _ \<Rightarrow> AtStatus | Closes _ \<Rightarrow> ClStatus)\<rparr>"

definition raceStart :: "connId \<Rightarrow> job list \<Rightarrow> race" where
  "raceStart k js =
     \<lparr>rstatus = Connected, rconn = Some k, rcancelled = False, mu = None, wire = [], shut = [], rests = 0,
      panicked = False, procs = map start js\<rparr>"

definition goto :: "nat \<Rightarrow> at \<Rightarrow> race \<Rightarrow> race" where
  "goto i a s = s\<lparr>procs := (procs s)[i := (procs s ! i)\<lparr>pc := a\<rparr>]\<rparr>"

text \<open>Returning from \<open>Close\<close>: \<^verbatim>\<open>WriterPacket\<close> goes on to return its error.\<close>

definition afterClose :: "job \<Rightarrow> at" where
  "afterClose j = (case j of Writes _ \<Rightarrow> Ended ReturnsErr | Closes _ \<Rightarrow> Ended ReturnsNil)"

text \<open>A panic runs the deferred calls of \<^verbatim>\<open>WriterPacket\<close>; elsewhere it ends the process or is recovered.\<close>

definition panics :: "nat \<Rightarrow> job \<Rightarrow> race \<Rightarrow> race" where
  "panics i j s =
     (case j of
        Writes _ \<Rightarrow> goto i (Ended Recovered) (if mu s = Some i then s\<lparr>mu := None\<rparr> else s)
      | Closes guarded \<Rightarrow> if guarded then goto i (Ended Recovered) s else s\<lparr>panicked := True\<rparr>)"

text \<open>A turn of goroutine \<open>i\<close>; \<open>ok\<close> is what the network says to a piece. A closed connection refuses it.\<close>

definition turn :: "(controlPacket \<Rightarrow> string list) \<Rightarrow> nat \<Rightarrow> bool \<Rightarrow> race \<Rightarrow> race" where
  "turn pieces i ok s =
     (let j = job (procs s ! i) in
      case pc (procs s ! i) of
        AtStatus \<Rightarrow> goto i (if rstatus s = Disconnected then Ended ReturnsNil else AtConn) s
      | AtConn \<Rightarrow> goto i (if rconn s = None then ClStatus else AtLock) s
      | AtLock \<Rightarrow> if mu s = None then goto i AtArg (s\<lparr>mu := Some i\<rparr>) else s
      | AtArg \<Rightarrow>
          (case (rconn s, j) of
             (Some k, Writes p) \<Rightarrow> goto i (AtWire k (pieces p)) s
           | _ \<Rightarrow> panics i j s)
      | AtWire k rest \<Rightarrow>
          (case rest of
             [] \<Rightarrow> goto i (Ended ReturnsNil) (s\<lparr>mu := None\<rparr>)
           | w # ws \<Rightarrow>
               if ok \<and> k \<notin> set (shut s) then goto i (AtWire k ws) (s\<lparr>wire := wire s @ [(i, k, w)]\<rparr>)
               else goto i (Ended ReturnsErr) (s\<lparr>mu := None\<rparr>))
      | ClStatus \<Rightarrow> goto i (if rstatus s = Disconnected then afterClose j else ClCancel) s
      | ClCancel \<Rightarrow> goto i ClMark (s\<lparr>rcancelled := True\<rparr>)
      | ClMark \<Rightarrow> goto i ClConn (s\<lparr>rstatus := Disconnected\<rparr>)
      | ClConn \<Rightarrow> goto i (if rconn s = None then ClRest else ClShut) s
      | ClShut \<Rightarrow> (case rconn s of None \<Rightarrow> panics i j s | Some k \<Rightarrow> goto i ClNil (s\<lparr>shut := shut s @ [k]\<rparr>))
      | ClNil \<Rightarrow> goto i ClRest (s\<lparr>rconn := None\<rparr>)
      | ClRest \<Rightarrow> goto i (afterClose j) (s\<lparr>rests := rests s + 1\<rparr>)
      | Ended r \<Rightarrow> s)"

definition raceStep :: "(controlPacket \<Rightarrow> string list) \<Rightarrow> race \<Rightarrow> nat \<times> bool \<Rightarrow> race" where
  "raceStep pieces s io = (if panicked s \<or> length (procs s) \<le> fst io then s else turn pieces (fst io) (snd io) s)"

text \<open>A schedule: whose turn it is, with the answer of the network.\<close>

definition scheduled :: "(controlPacket \<Rightarrow> string list) \<Rightarrow> connId \<Rightarrow> job list \<Rightarrow> (nat \<times> bool) list \<Rightarrow> race" where
  "scheduled pieces k js io = foldl (raceStep pieces) (raceStart k js) io"

abbreviation pcOf :: "race \<Rightarrow> nat \<Rightarrow> at" where
  "pcOf s i \<equiv> pc (procs s ! i)"

lemma goto_simps [simp]:
  "length (procs (goto i a s)) = length (procs s)" "rstatus (goto i a s) = rstatus s" "rconn (goto i a s) = rconn s"
  "mu (goto i a s) = mu s" "wire (goto i a s) = wire s" "shut (goto i a s) = shut s" "rests (goto i a s) = rests s"
  "panicked (goto i a s) = panicked s" "rcancelled (goto i a s) = rcancelled s"
  "d < length (procs s) \<Longrightarrow> pcOf (goto i a s) d = (if d = i then a else pcOf s d)"
  "d < length (procs s) \<Longrightarrow> job (procs (goto i a s) ! d) = job (procs s ! d)"
  by (simp_all add: goto_def) (cases "d = i"; simp)+

lemma turn_others:
  "length (procs (turn pieces i ok s)) = length (procs s)"
  "d < length (procs s) \<Longrightarrow> job (procs (turn pieces i ok s) ! d) = job (procs s ! d)"
  "d < length (procs s) \<Longrightarrow> d \<noteq> i \<Longrightarrow> pcOf (turn pieces i ok s) d = pcOf s d"
  by (cases "pcOf s i"; simp add: turn_def panics_def Let_def split: job.split option.split list.split)+

lemma scheduled_induct:
  assumes "P (raceStart k js)"
    and "\<And>s i ok. P s \<Longrightarrow> i < length (procs s) \<Longrightarrow> \<not> panicked s \<Longrightarrow> P (turn pieces i ok s)"
  shows "P (scheduled pieces k js io)"
  unfolding scheduled_def
proof (induction io rule: rev_induct)
  case Nil
  then show ?case using assms(1) by simp
next
  case (snoc x xs)
  then show ?case using assms(2) by (auto simp: raceStep_def)
qed

section \<open>The lock\<close>

definition writing :: "at \<Rightarrow> bool" where
  "writing a = (case a of AtArg \<Rightarrow> True | AtWire k ws \<Rightarrow> True | _ \<Rightarrow> False)"

lemma writing_simps [simp]:
  "writing AtArg" "writing (AtWire k ws)" "\<not> writing AtStatus" "\<not> writing AtConn" "\<not> writing AtLock" "\<not> writing ClStatus"
  "\<not> writing ClCancel" "\<not> writing ClMark" "\<not> writing ClConn" "\<not> writing ClShut" "\<not> writing ClNil" "\<not> writing ClRest"
  "\<not> writing (Ended r)" "\<not> writing (afterClose j)"
  by (simp_all add: writing_def afterClose_def split: job.split)

text \<open>Only \<open>WriterPacket\<close> gets at its own statements.\<close>

definition may_be :: "job \<Rightarrow> at \<Rightarrow> bool" where
  "may_be j a =
     (case a of
        AtStatus \<Rightarrow> (\<exists>p. j = Writes p) | AtConn \<Rightarrow> (\<exists>p. j = Writes p) | AtLock \<Rightarrow> (\<exists>p. j = Writes p)
      | AtArg \<Rightarrow> (\<exists>p. j = Writes p) | AtWire k ws \<Rightarrow> (\<exists>p. j = Writes p) | _ \<Rightarrow> True)"

definition locked :: "race \<Rightarrow> bool" where
  "locked s =
     (\<forall>i < length (procs s). (writing (pcOf s i) \<longleftrightarrow> mu s = Some i) \<and> may_be (job (procs s ! i)) (pcOf s i))"

lemma turn_may_be:
  "may_be (job (procs s ! i)) (pcOf s i) \<Longrightarrow> i < length (procs s) \<Longrightarrow> may_be (job (procs s ! i)) (pcOf (turn pieces i ok s) i)"
  by (cases "pcOf s i"; cases "job (procs s ! i)")
    (auto simp: may_be_def turn_def panics_def afterClose_def Let_def split: option.split list.split)

lemma turn_locked:
  assumes "locked s" "i < length (procs s)"
  shows "locked (turn pieces i ok s)"
proof -
  let ?t = "turn pieces i ok s"
  have i: "writing (pcOf s i) \<longleftrightarrow> mu s = Some i" "may_be (job (procs s ! i)) (pcOf s i)"
    using assms by (auto simp: locked_def)
  have others: "mu ?t = Some d \<longleftrightarrow> mu s = Some d" if "d \<noteq> i" for d
    using that i
    by (cases "pcOf s i"; cases "job (procs s ! i)")
      (auto simp: turn_def panics_def may_be_def Let_def split: option.split list.split)
  have here: "writing (pcOf ?t i) \<longleftrightarrow> mu ?t = Some i"
    using i assms(2)
    by (cases "pcOf s i"; cases "job (procs s ! i)")
      (auto simp: turn_def panics_def may_be_def Let_def split: option.split list.split)
  have "writing (pcOf ?t d) \<longleftrightarrow> mu ?t = Some d" "may_be (job (procs ?t ! d)) (pcOf ?t d)"
    if "d < length (procs s)" for d
    using here others [of d] turn_others(2,3) [where pieces = pieces and i = i and ok = ok, OF that] turn_may_be [where pieces = pieces and ok = ok, OF i(2) assms(2)] assms(1) that
    by (cases "d = i"; auto simp: locked_def)+
  then show ?thesis by (simp add: locked_def turn_others(1))
qed

lemma start_locked: "locked (raceStart k js)"
  by (simp add: locked_def raceStart_def start_def may_be_def split: job.split)

lemma scheduled_locked: "locked (scheduled pieces k js io)"
  using start_locked turn_locked by (rule scheduled_induct)

section \<open>What is on the wire\<close>

text \<open>What goroutine \<open>i\<close> put on connection \<open>k\<close>, one piece after the other.\<close>

definition segment :: "nat \<times> connId \<times> string list \<Rightarrow> (nat \<times> connId \<times> string) list" where
  "segment = (\<lambda>(i, k, ws). map (\<lambda>w. (i, k, w)) ws)"

text \<open>A segment is a part of a packet of its goroutine: the whole of it when that returned without an error.\<close>

definition segment_ok :: "(controlPacket \<Rightarrow> string list) \<Rightarrow> race \<Rightarrow> nat \<times> connId \<times> string list \<Rightarrow> bool" where
  "segment_ok pieces s = (\<lambda>(i, k, ws).
     i < length (procs s) \<and>
     (\<exists>p rest. job (procs s ! i) = Writes p \<and> pieces p = ws @ rest
        \<and> (case pcOf s i of AtWire k' rest' \<Rightarrow> k' = k \<and> rest' = rest
                          | Ended r \<Rightarrow> r = ReturnsErr \<or> r = ReturnsNil \<and> rest = [] | _ \<Rightarrow> False)))"

definition whole :: "(controlPacket \<Rightarrow> string list) \<Rightarrow> race \<Rightarrow> (nat \<times> connId \<times> string list) list \<Rightarrow> bool" where
  "whole pieces s segs =
     (wire s = concat (map segment segs) \<and> distinct (map fst segs) \<and> list_all (segment_ok pieces s) segs
      \<and> (\<forall>i < length (procs s). case pcOf s i of AtWire k rest \<Rightarrow> segs \<noteq> [] \<and> fst (last segs) = i
                                               | Ended r \<Rightarrow> True | _ \<Rightarrow> i \<notin> fst ` set segs))"

lemma segment_other:
  assumes "fst x \<noteq> i" "segment_ok pieces s x"
  shows "segment_ok pieces (turn pieces i ok s) x"
  using assms turn_others [where pieces = pieces and i = i and ok = ok and s = s] by (auto simp: segment_ok_def split: prod.splits)

lemma whole_still:
  assumes "whole pieces s segs" "i < length (procs s)" "wire (turn pieces i ok s) = wire s"
    and "i \<notin> fst ` set segs" "\<And>k ws. pcOf (turn pieces i ok s) i \<noteq> AtWire k ws"
  shows "whole pieces (turn pieces i ok s) segs"
proof -
  let ?t = "turn pieces i ok s"
  have "list_all (segment_ok pieces ?t) segs"
    unfolding list_all_iff
  proof
    fix x assume x: "x \<in> set segs"
    then have "fst x \<noteq> i" using assms(4) by blast
    moreover have "segment_ok pieces s x" using assms(1) x by (simp add: whole_def list_all_iff)
    ultimately show "segment_ok pieces ?t x" by (rule segment_other)
  qed
  moreover have "case pcOf ?t d of AtWire k rest \<Rightarrow> segs \<noteq> [] \<and> fst (last segs) = d | Ended r \<Rightarrow> True | _ \<Rightarrow> d \<notin> fst ` set segs"
    if "d < length (procs s)" for d
  proof (cases "d = i")
    case True
    with assms(4,5) show ?thesis by (simp split: at.split)
  next
    case False
    with assms(1) that turn_others(3) [where pieces = pieces and i = i and ok = ok, OF that False] show ?thesis by (simp add: whole_def)
  qed
  ultimately show ?thesis using assms(1,3) by (simp add: whole_def turn_others(1))
qed

text \<open>While one goroutine is at \<^verbatim>\<open>packet.Write\<close>, no other is.\<close>

lemma whole_writer:
  assumes "whole pieces s segs" "locked s" "i < length (procs s)" "writing (pcOf s i)"
    and "wire t = concat (map segment segs')" "distinct (map fst segs')" "fst ` set segs' \<subseteq> insert i (fst ` set segs)"
    and "\<And>d. d < length (procs s) \<Longrightarrow> d \<noteq> i \<Longrightarrow> pcOf t d = pcOf s d \<and> job (procs t ! d) = job (procs s ! d)"
    and "length (procs t) = length (procs s)"
    and "\<And>x. x \<in> set segs' \<Longrightarrow> fst x \<noteq> i \<Longrightarrow> x \<in> set segs"
    and "\<And>x. x \<in> set segs' \<Longrightarrow> fst x = i \<Longrightarrow> segment_ok pieces t x"
    and "case pcOf t i of AtWire k rest \<Rightarrow> segs' \<noteq> [] \<and> fst (last segs') = i | Ended r \<Rightarrow> True | _ \<Rightarrow> False"
  shows "whole pieces t segs'"
proof -
  have "segment_ok pieces t x" if "x \<in> set segs'" for x
  proof (cases "fst x = i")
    case True
    with assms(11) that show ?thesis by blast
  next
    case False
    then have "segment_ok pieces s x" using assms(1,10) that by (auto simp: whole_def list_all_iff)
    with False assms(8,9) show ?thesis by (auto simp: segment_ok_def split: prod.splits)
  qed
  moreover have "case pcOf t d of AtWire k rest \<Rightarrow> segs' \<noteq> [] \<and> fst (last segs') = d | Ended r \<Rightarrow> True | _ \<Rightarrow> d \<notin> fst ` set segs'"
    if "d < length (procs s)" for d
  proof (cases "d = i")
    case True
    with assms(12) show ?thesis by (simp split: at.splits)
  next
    case False
    have "\<not> writing (pcOf s d)" using assms(2-4) that False by (auto simp: locked_def)
    moreover have "case pcOf s d of AtWire k rest \<Rightarrow> segs \<noteq> [] \<and> fst (last segs) = d | Ended r \<Rightarrow> True | _ \<Rightarrow> d \<notin> fst ` set segs"
      using assms(1) that by (simp add: whole_def)
    moreover have "pcOf t d = pcOf s d" using assms(8) that False by blast
    ultimately show ?thesis using assms(7) False by (cases "pcOf s d") (auto simp del: fst_conv)
  qed
  ultimately show ?thesis using assms(5,6,9) by (simp add: whole_def list_all_iff)
qed

lemma whole_at:
  assumes "whole pieces s segs" "i < length (procs s)"
  shows "case pcOf s i of AtWire k rest \<Rightarrow> segs \<noteq> [] \<and> fst (last segs) = i | Ended r \<Rightarrow> True | _ \<Rightarrow> i \<notin> fst ` set segs"
  using assms by (simp add: whole_def)

lemma whole_split:
  assumes "whole pieces s segs" "pcOf s i = AtWire k rest" "i < length (procs s)"
  obtains pre ws p where "segs = pre @ [(i, k, ws)]" "job (procs s ! i) = Writes p" "pieces p = ws @ rest"
    "i \<notin> fst ` set pre"
proof -
  have last: "segs \<noteq> []" "fst (last segs) = i" using whole_at [OF assms(1,3)] assms(2) by simp_all
  then obtain pre x where segs: "segs = pre @ [x]" by (cases segs rule: rev_cases) auto
  obtain k' ws where x: "x = (i, k', ws)" using last segs by (cases x) auto
  have "segment_ok pieces s x" "distinct (map fst segs)" using assms(1) segs by (auto simp: whole_def)
  with assms(2) segs x that show thesis by (auto simp: segment_ok_def)
qed

lemma turn_whole:
  assumes "whole pieces s segs" "locked s" "i < length (procs s)"
  obtains segs' where "whole pieces (turn pieces i ok s) segs'"
proof (cases "writing (pcOf s i)")
  case False
  show thesis
  proof (cases "\<exists>r. pcOf s i = Ended r")
    case True
    then have "turn pieces i ok s = s" by (auto simp: turn_def)
    with assms(1) that show thesis by simp
  next
    case going: False
    have "i \<notin> fst ` set segs" using False going whole_at [OF assms(1,3)] by (cases "pcOf s i") simp_all
    moreover have "wire (turn pieces i ok s) = wire s" "\<And>k ws. pcOf (turn pieces i ok s) i \<noteq> AtWire k ws"
      using False going assms(3)
      by (cases "pcOf s i"; auto simp: turn_def panics_def afterClose_def Let_def split: option.split job.split)+
    ultimately show thesis using that whole_still [OF assms(1,3)] by blast
  qed
next
  case True
  note others = turn_others [where pieces = pieces and i = i and ok = ok and s = s]
  note w = whole_writer [OF assms True, of "turn pieces i ok s", OF _ _ _ conjI [OF others(3,2)] others(1)]
  have inv: "wire s = concat (map segment segs)" "distinct (map fst segs)" "list_all (segment_ok pieces s) segs"
    using assms(1) by (auto simp: whole_def)
  obtain p where p: "job (procs s ! i) = Writes p"
    using assms(2,3) True by (cases "pcOf s i") (auto simp: locked_def may_be_def dest!: spec [of _ i])
  consider "pcOf s i = AtArg" | k rest where "pcOf s i = AtWire k rest" using True by (cases "pcOf s i") auto
  then show thesis
  proof cases
    case 1
    then have new: "i \<notin> fst ` set segs" using whole_at [OF assms(1,3)] by simp
    show thesis
    proof (cases "rconn s")
      case None
      then show thesis
        using 1 p new inv assms(3) that by (intro that [of segs] w) (auto simp: turn_def panics_def)
    next
      case (Some k)
      then show thesis
        using 1 p new inv assms(3)
        by (intro that [of "segs @ [(i, k, [])]"] w) (auto simp: turn_def segment_def segment_ok_def)
    qed
  next
    case (2 k rest)
    obtain pre ws q where s: "segs = pre @ [(i, k, ws)]" "job (procs s ! i) = Writes q" "pieces q = ws @ rest"
      "i \<notin> fst ` set pre" using whole_split [OF assms(1) 2 assms(3)] by blast
    show thesis
    proof (cases "rest = [] \<or> \<not> (ok \<and> k \<notin> set (shut s))")
      case True
      then show thesis
        using 2 s inv assms(3)
        by (intro that [of segs] w) (auto simp: turn_def segment_ok_def split: list.split)
    next
      case False
      then obtain v vs where "rest = v # vs" by (cases rest) auto
      with False show thesis
        using 2 s inv assms(3)
        by (intro that [of "pre @ [(i, k, ws @ [v])]"] w) (auto simp: turn_def segment_def segment_ok_def)
    qed
  qed
qed

lemma scheduled_whole: "\<exists>segs. whole pieces (scheduled pieces k js io) segs"
proof -
  have "locked (scheduled pieces k js io) \<and> (\<exists>segs. whole pieces (scheduled pieces k js io) segs)"
  proof (rule scheduled_induct)
    have "whole pieces (raceStart k js) []"
      by (auto simp: whole_def raceStart_def start_def split: job.split at.split)
    then show "locked (raceStart k js) \<and> (\<exists>segs. whole pieces (raceStart k js) segs)" using start_locked by blast
  next
    fix s i ok
    assume s: "locked s \<and> (\<exists>segs. whole pieces s segs)" and i: "i < length (procs s)"
    then obtain segs where "whole pieces s segs" by blast
    from turn_whole [OF this _ i] s turn_locked i
    show "locked (turn pieces i ok s) \<and> (\<exists>segs. whole pieces (turn pieces i ok s) segs)" by metis
  qed
  then show ?thesis by blast
qed

lemma scheduled_jobs:
  "length (procs (scheduled pieces k js io)) = length js
   \<and> (\<forall>d < length js. job (procs (scheduled pieces k js io) ! d) = js ! d)"
  by (rule scheduled_induct) (auto simp: raceStart_def start_def turn_others)

text \<open>
  C8. The lock keeps packets whole: however the goroutines that write to a client interleave with each
  other and with those that close it, what is on the wire is one packet after the other, each from one
  goroutine and in order, and only a packet whose write failed, or the one being written by the holder
  of the lock, is not there in full. Never do two goroutines write at once.
\<close>

theorem writes_do_not_interleave:
  assumes "s = scheduled pieces k js io"
  shows "(\<exists>segs. wire s = concat (map (\<lambda>(i, c, ws). map (\<lambda>w. (i, c, w)) ws) segs) \<and> distinct (map fst segs)
      \<and> (\<forall>(i, c, ws) \<in> set segs. i < length js \<and> (\<exists>p rest. js ! i = Writes p \<and> pieces p = ws @ rest
            \<and> (rest \<noteq> [] \<longrightarrow> pcOf s i = Ended ReturnsErr \<or> pcOf s i = AtWire c rest \<and> mu s = Some i))))
    \<and> (\<forall>i < length js. \<forall>j < length js. writing (pcOf s i) \<and> writing (pcOf s j) \<longrightarrow> i = j)"
proof
  note jobs = scheduled_jobs [of pieces k js io, folded assms]
  have locked: "locked s" unfolding assms by (rule scheduled_locked)
  obtain segs where w: "whole pieces s segs" using scheduled_whole unfolding assms by blast
  have "i < length js \<and> (\<exists>p rest. js ! i = Writes p \<and> pieces p = ws @ rest
      \<and> (rest \<noteq> [] \<longrightarrow> pcOf s i = Ended ReturnsErr \<or> pcOf s i = AtWire c rest \<and> mu s = Some i))"
    if "(i, c, ws) \<in> set segs" for i c ws
  proof -
    have ok: "segment_ok pieces s (i, c, ws)" using w that by (simp add: whole_def list_all_iff)
    then have "i < length (procs s)" by (simp add: segment_ok_def)
    with locked have "writing (pcOf s i) \<longleftrightarrow> mu s = Some i" by (simp add: locked_def)
    with ok jobs show ?thesis by (cases "pcOf s i") (auto simp: segment_ok_def)
  qed
  with w show "\<exists>segs. wire s = concat (map (\<lambda>(i, c, ws). map (\<lambda>w. (i, c, w)) ws) segs) \<and> distinct (map fst segs)
      \<and> (\<forall>(i, c, ws) \<in> set segs. i < length js \<and> (\<exists>p rest. js ! i = Writes p \<and> pieces p = ws @ rest
            \<and> (rest \<noteq> [] \<longrightarrow> pcOf s i = Ended ReturnsErr \<or> pcOf s i = AtWire c rest \<and> mu s = Some i)))"
    by (intro exI [of _ segs]) (auto simp: whole_def segment_def)
  show "\<forall>i < length js. \<forall>j < length js. writing (pcOf s i) \<and> writing (pcOf s j) \<longrightarrow> i = j"
    using locked jobs unfolding locked_def by (metis option.inject)
qed

text \<open>Two writers: the second waits for the lock while the first is between its two pieces.\<close>

lemma writes_do_not_interleave_witness:
  "\<exists>segs. [(0::nat, 7::connId, ''a''), (0, 7, ''b''), (1, 7, ''a'')] = concat (map (\<lambda>(i, c, ws). map (\<lambda>w. (i, c, w)) ws) segs)
     \<and> distinct (map fst segs)"
proof -
  let ?s = "scheduled (\<lambda>p. [''a'', ''b'']) 7 [Writes PingreqP, Writes PingrespP]
    [(0, True), (0, True), (1, True), (1, True), (0, True), (0, True), (0, True), (1, True), (0, True), (0, True), (1, True), (1, True), (1, True)]"
  have "wire ?s = [(0, 7, ''a''), (0, 7, ''b''), (1, 7, ''a'')]" by code_simp
  with writes_do_not_interleave [OF refl [of ?s]] show ?thesis by auto
qed

section \<open>Closing\<close>

text \<open>How far a goroutine is in \<open>Close\<close>.\<close>

definition phase :: "at \<Rightarrow> nat" where
  "phase a =
     (case a of ClStatus \<Rightarrow> 0 | ClCancel \<Rightarrow> 1 | ClMark \<Rightarrow> 2 | ClConn \<Rightarrow> 3 | ClShut \<Rightarrow> 4 | ClNil \<Rightarrow> 5 | ClRest \<Rightarrow> 6 | _ \<Rightarrow> 7)"

definition one_closer :: "connId \<Rightarrow> nat \<Rightarrow> race \<Rightarrow> bool" where
  "one_closer k j s =
     (let n = phase (pcOf s j) in
      j < length (procs s) \<and> (\<exists>g. job (procs s ! j) = Closes g)
      \<and> (rstatus s = Disconnected \<longleftrightarrow> 3 \<le> n) \<and> rconn s = (if 6 \<le> n then None else Some k)
      \<and> shut s = (if 5 \<le> n then [k] else []) \<and> rests s = (if n = 7 then 1 else 0) \<and> \<not> panicked s
      \<and> (n = 7 \<longrightarrow> pcOf s j = Ended ReturnsNil)
      \<and> (\<forall>i < length (procs s). i \<noteq> j \<longrightarrow> (\<exists>p. job (procs s ! i) = Writes p)
            \<and> (phase (pcOf s i) = 7 \<or> pcOf s i = ClStatus \<and> 6 \<le> n)))"

lemma phase_simps [simp]:
  "phase AtStatus = 7" "phase AtConn = 7" "phase AtLock = 7" "phase AtArg = 7" "phase (AtWire c ws) = 7" "phase ClStatus = 0"
  "phase ClCancel = 1" "phase ClMark = 2" "phase ClConn = 3" "phase ClShut = 4" "phase ClNil = 5" "phase ClRest = 6"
  "phase (Ended r) = 7"
  by (simp_all add: phase_def)

lemma turn_one_closer:
  assumes "one_closer k j s" "i < length (procs s)"
  shows "one_closer k j (turn pieces i ok s)"
proof -
  let ?t = "turn pieces i ok s"
  let ?n = "phase (pcOf s j)"
  obtain g where j: "j < length (procs s)" "job (procs s ! j) = Closes g"
    and core: "rstatus s = Disconnected \<longleftrightarrow> 3 \<le> ?n" "rconn s = (if 6 \<le> ?n then None else Some k)"
      "shut s = (if 5 \<le> ?n then [k] else [])" "rests s = (if ?n = 7 then 1 else 0)" "\<not> panicked s"
      "?n = 7 \<Longrightarrow> pcOf s j = Ended ReturnsNil"
    and writers: "\<And>i. i < length (procs s) \<Longrightarrow> i \<noteq> j \<Longrightarrow> (\<exists>p. job (procs s ! i) = Writes p)
            \<and> (phase (pcOf s i) = 7 \<or> pcOf s i = ClStatus \<and> 6 \<le> ?n)"
    using assms(1) by (auto simp: one_closer_def Let_def)
  note others = turn_others(2,3) [where pieces = pieces and i = i and ok = ok and s = s]
  show ?thesis
  proof (cases "i = j")
    case True
    have le: "?n \<le> phase (pcOf ?t j)"
      and new: "rstatus ?t = Disconnected \<longleftrightarrow> 3 \<le> phase (pcOf ?t j)"
        "rconn ?t = (if 6 \<le> phase (pcOf ?t j) then None else Some k)"
        "shut ?t = (if 5 \<le> phase (pcOf ?t j) then [k] else [])" "rests ?t = (if phase (pcOf ?t j) = 7 then 1 else 0)"
        "\<not> panicked ?t" "phase (pcOf ?t j) = 7 \<longrightarrow> pcOf ?t j = Ended ReturnsNil"
      using core j True by (cases "pcOf s j"; simp add: turn_def afterClose_def Let_def)+
    have "(\<exists>p. job (procs ?t ! d) = Writes p) \<and> (phase (pcOf ?t d) = 7 \<or> pcOf ?t d = ClStatus \<and> 6 \<le> phase (pcOf ?t j))"
      if "d < length (procs s)" "d \<noteq> j" for d
      using writers [OF that] others [OF that(1)] that(2) True le by auto
    with new others(1) [OF j(1)] j show ?thesis by (simp add: one_closer_def Let_def turn_others(1))
  next
    case False
    obtain p where i: "job (procs s ! i) = Writes p" "phase (pcOf s i) = 7 \<or> pcOf s i = ClStatus \<and> 6 \<le> ?n"
      using writers [OF assms(2) False] by blast
    have same: "pcOf ?t j = pcOf s j" using others(2) [OF j(1)] False by simp
    have keeps: "rstatus ?t = rstatus s" "rconn ?t = rconn s" "shut ?t = shut s" "rests ?t = rests s" "\<not> panicked ?t"
      "phase (pcOf ?t i) = 7 \<or> pcOf ?t i = ClStatus \<and> 6 \<le> ?n"
      using i core(1,2,5) assms(2)
      by (cases "pcOf s i"; auto simp: turn_def panics_def afterClose_def Let_def split: option.split list.split)+
    have "(\<exists>p. job (procs ?t ! d) = Writes p) \<and> (phase (pcOf ?t d) = 7 \<or> pcOf ?t d = ClStatus \<and> 6 \<le> ?n)"
      if "d < length (procs s)" "d \<noteq> j" for d
      using writers [OF that] others [OF that(1)] keeps(6) by (cases "d = i") auto
    with keeps core others(1) [OF j(1)] j show ?thesis by (simp add: one_closer_def Let_def turn_others(1) same)
  qed
qed

text \<open>
  C18. When one goroutine closes a client, whatever the others write meanwhile, \<^verbatim>\<open>Close\<close> runs once: it
  shuts the connection once, goes through its registry, notifications and will once, and nothing
  panics. Two that close the same client can both pass the test of the status: one schedule runs the
  rest of \<^verbatim>\<open>Close\<close> twice, and another ends the process.
\<close>

theorem close_runs_once:
  assumes "s = scheduled pieces k js io" "j < length js" "js ! j = Closes g" "\<forall>i < length js. i \<noteq> j \<longrightarrow> (\<exists>p. js ! i = Writes p)"
  shows "\<not> panicked s \<and> rests s \<le> 1 \<and> shut s \<in> {[], [k]}
    \<and> (\<forall>r. pcOf s j = Ended r \<longrightarrow>
         r = ReturnsNil \<and> rests s = 1 \<and> shut s = [k] \<and> rconn s = None \<and> rstatus s = Disconnected)
    \<and> (\<exists>io. rests (scheduled pieces k [Closes False, Closes False] io) = 2)
    \<and> (\<exists>io. panicked (scheduled pieces k [Closes False, Closes False] io))"
proof -
  have "one_closer k j s" unfolding assms(1)
  proof (rule scheduled_induct)
    show "one_closer k j (raceStart k js)"
      using assms(2-4) by (auto simp: one_closer_def raceStart_def start_def)
  qed (rule turn_one_closer)
  then have one: "\<not> panicked s \<and> rests s \<le> 1 \<and> shut s \<in> {[], [k]}
    \<and> (\<forall>r. pcOf s j = Ended r \<longrightarrow>
         r = ReturnsNil \<and> rests s = 1 \<and> shut s = [k] \<and> rconn s = None \<and> rstatus s = Disconnected)"
    by (auto simp: one_closer_def Let_def)
  note run = scheduled_def raceStep_def raceStart_def start_def turn_def goto_def panics_def afterClose_def
  let ?both = "[(0, True), (1, True)]"
  have "rests (scheduled pieces k [Closes False, Closes False]
      (?both @ ?both @ ?both @ [(0, True), (0, True), (0, True), (0, True), (1, True), (1, True)])) = 2"
    by (simp add: run)
  moreover have "panicked (scheduled pieces k [Closes False, Closes False] (?both @ ?both @ ?both @ ?both @ [(0, True), (0, True), (1, True)]))"
    by (simp add: run)
  ultimately show ?thesis using one by blast
qed

lemma close_runs_once_witness:
  "rests (scheduled (\<lambda>p. []) 7 [Closes False, Writes PingreqP] [(0, True), (0, True), (0, True), (0, True), (0, True), (1, True)]) \<le> 1"
  using close_runs_once [OF refl, of 0 "[Closes False, Writes PingreqP]" False "\<lambda>p. []" 7] by simp

section \<open>Coming to an end\<close>

definition stepsLeft :: "(controlPacket \<Rightarrow> string list) \<Rightarrow> goproc \<Rightarrow> nat" where
  "stepsLeft pieces g =
     (let l = (case job g of Writes p \<Rightarrow> length (pieces p) | Closes x \<Rightarrow> 0) in
      case pc g of
        AtStatus \<Rightarrow> 12 + l | AtConn \<Rightarrow> 11 + l | AtLock \<Rightarrow> 3 + l | AtArg \<Rightarrow> 2 + l | AtWire k ws \<Rightarrow> 1 + length ws
      | ClStatus \<Rightarrow> 8 | ClCancel \<Rightarrow> 7 | ClMark \<Rightarrow> 6 | ClConn \<Rightarrow> 5 | ClShut \<Rightarrow> 4 | ClNil \<Rightarrow> 3 | ClRest \<Rightarrow> 2 | Ended r \<Rightarrow> 0)"

definition allLeft :: "(controlPacket \<Rightarrow> string list) \<Rightarrow> race \<Rightarrow> nat" where
  "allLeft pieces s = sum_list (map (stepsLeft pieces) (procs s)) + (if panicked s then 0 else 1)"

lemma turn_left:
  assumes "i < length (procs s)" "\<not> panicked s"
    and "\<forall>r. pcOf s i \<noteq> Ended r" "pcOf s i = AtLock \<longrightarrow> mu s = None"
  shows "allLeft pieces (turn pieces i ok s) < allLeft pieces s"
proof -
  let ?t = "turn pieces i ok s"
  have "\<exists>g. procs ?t = (procs s)[i := g] \<and> (stepsLeft pieces g < stepsLeft pieces (procs s ! i) \<and> \<not> panicked ?t
      \<or> g = procs s ! i \<and> panicked ?t)"
    using assms
    by (cases "pcOf s i"; cases "job (procs s ! i)")
      (auto simp: turn_def panics_def goto_def afterClose_def stepsLeft_def Let_def split: option.split list.split
        intro: exI [of _ "procs s ! i"])
  then obtain g where g: "procs ?t = (procs s)[i := g]"
    "stepsLeft pieces g < stepsLeft pieces (procs s ! i) \<and> \<not> panicked ?t \<or> g = procs s ! i \<and> panicked ?t" by blast
  have "stepsLeft pieces (procs s ! i) \<le> sum_list (map (stepsLeft pieces) (procs s))"
    using assms(1) by (intro member_le_sum_list) (auto intro!: imageI nth_mem)
  with g assms(1,2) show ?thesis by (auto simp: allLeft_def map_update sum_list_update)
qed

lemma scheduled_holder: "\<forall>m. mu (scheduled pieces k js io) = Some m \<longrightarrow> m < length (procs (scheduled pieces k js io))"
proof (rule scheduled_induct)
  fix s :: race and i ok
  assume s: "\<forall>m. mu s = Some m \<longrightarrow> m < length (procs s)" "i < length (procs s)"
  then show "\<forall>m. mu (turn pieces i ok s) = Some m \<longrightarrow> m < length (procs (turn pieces i ok s))"
    by (cases "pcOf s i"; cases "job (procs s ! i)")
      (auto simp: turn_def panics_def Let_def split: option.split list.split)
qed (simp add: raceStart_def)

text \<open>
  C36. Nobody waits forever: as long as the process runs and some goroutine has not returned there is
  one whose turn is possible, whatever the network answers, and each possible turn uses up one of a
  number of turns that is fixed at the start. So every fair schedule lets all of them return.
\<close>

theorem nobody_waits_forever:
  assumes "s = scheduled pieces k js io"
  shows "(\<not> panicked s \<and> (\<exists>i < length js. \<forall>r. pcOf s i \<noteq> Ended r) \<longrightarrow>
      (\<exists>i < length js. \<forall>ok. allLeft pieces (raceStep pieces s (i, ok)) < allLeft pieces s))
    \<and> (\<forall>i ok. raceStep pieces s (i, ok) = s \<or> allLeft pieces (raceStep pieces s (i, ok)) < allLeft pieces s)
    \<and> allLeft pieces (raceStart k js)
        \<le> 1 + 12 * length js + sum_list (map (\<lambda>j. case j of Writes p \<Rightarrow> length (pieces p) | Closes g \<Rightarrow> 0) js)"
proof (intro conjI allI)
  note jobs = scheduled_jobs [of pieces k js io, folded assms]
  have locked: "locked s" unfolding assms by (rule scheduled_locked)
  have blocked: "turn pieces i ok s = s" if "pcOf s i = AtLock" "mu s \<noteq> None" for i ok
    using that by (auto simp: turn_def)
  show "\<not> panicked s \<and> (\<exists>i < length js. \<forall>r. pcOf s i \<noteq> Ended r) \<longrightarrow>
      (\<exists>i < length js. \<forall>ok. allLeft pieces (raceStep pieces s (i, ok)) < allLeft pieces s)"
  proof (intro impI, elim conjE exE)
    fix i assume up: "\<not> panicked s" and i: "i < length js" "\<forall>r. pcOf s i \<noteq> Ended r"
    show "\<exists>i < length js. \<forall>ok. allLeft pieces (raceStep pieces s (i, ok)) < allLeft pieces s"
    proof (cases "pcOf s i = AtLock \<and> mu s \<noteq> None")
      case False
      then show ?thesis using turn_left [OF _ up i(2)] i(1) up jobs by (auto simp: raceStep_def)
    next
      case True
      then obtain m where m: "mu s = Some m" "m < length js"
        using scheduled_holder [of pieces k js io, folded assms] jobs by auto
      then have "writing (pcOf s m)" using locked jobs by (simp add: locked_def)
      then have "\<forall>r. pcOf s m \<noteq> Ended r" "pcOf s m \<noteq> AtLock" by auto
      then show ?thesis using turn_left [of m s, OF _ up] m(2) up jobs by (auto simp: raceStep_def)
    qed
  qed
  show "raceStep pieces s (i, ok) = s \<or> allLeft pieces (raceStep pieces s (i, ok)) < allLeft pieces s" for i ok
  proof (cases "panicked s \<or> length (procs s) \<le> i \<or> (\<exists>r. pcOf s i = Ended r) \<or> pcOf s i = AtLock \<and> mu s \<noteq> None")
    case True
    then have "raceStep pieces s (i, ok) = s" using blocked by (auto simp: raceStep_def turn_def)
    then show ?thesis ..
  next
    case False
    then show ?thesis using turn_left [of i s pieces ok] by (simp add: raceStep_def)
  qed
  have "sum_list (map (stepsLeft pieces) (map start js))
      \<le> 12 * length js + sum_list (map (\<lambda>j. case j of Writes p \<Rightarrow> length (pieces p) | Closes g \<Rightarrow> 0) js)"
    by (induction js) (auto simp: stepsLeft_def start_def split: job.split)
  then show "allLeft pieces (raceStart k js)
        \<le> 1 + 12 * length js + sum_list (map (\<lambda>j. case j of Writes p \<Rightarrow> length (pieces p) | Closes g \<Rightarrow> 0) js)"
    by (simp add: allLeft_def raceStart_def)
qed

text \<open>A writer holds the lock and another waits: the first can go on.\<close>

lemma nobody_waits_forever_witness:
  "\<exists>i < 2. allLeft (\<lambda>p. [''a'']) (raceStep (\<lambda>p. [''a'']) (scheduled (\<lambda>p. [''a'']) 7 [Writes PingreqP, Writes PingrespP]
       [(0, True), (1, True), (0, True), (1, True), (0, True)]) (i, True))
     < allLeft (\<lambda>p. [''a'']) (scheduled (\<lambda>p. [''a'']) 7 [Writes PingreqP, Writes PingrespP]
       [(0, True), (1, True), (0, True), (1, True), (0, True)])"
proof -
  let ?s = "scheduled (\<lambda>p. [''a'']) 7 [Writes PingreqP, Writes PingrespP] [(0, True), (1, True), (0, True), (1, True), (0, True)]"
  have "\<not> panicked ?s \<and> pcOf ?s 0 = AtArg" by code_simp
  with nobody_waits_forever [OF refl [of ?s]] show ?thesis by (auto simp: numeral_2_eq_2)
qed

end
