(* ===== verification/Write_Refines.thy ===== *)
theory Write_Refines
  imports Write_Race Broker_Core
begin

text \<open>
  The two models of \<^verbatim>\<open>WriterPacket\<close> agree: a goroutine that is not disturbed by others does in the
  model of interleavings what the function of the broker does in one step.
\<close>

section \<open>A sole writer\<close>

text \<open>The client as the interleaved model sees it, with one goroutine that writes a packet to it.\<close>

definition soleWriter :: "client \<Rightarrow> controlPacket \<Rightarrow> race" where
  "soleWriter x p = (raceStart 0 [Writes p])\<lparr>rstatus := status x, rconn := conn x\<rparr>"

definition alone :: "(controlPacket \<Rightarrow> string list) \<Rightarrow> bool list \<Rightarrow> race \<Rightarrow> race" where
  "alone pieces oks s = foldl (raceStep pieces) s (map (Pair 0) oks)"

definition only :: "controlPacket \<Rightarrow> at \<Rightarrow> race \<Rightarrow> bool" where
  "only p a s = (procs s = [\<lparr>job = Writes p, pc = a\<rparr>] \<and> \<not> panicked s)"

lemma alone_Cons [simp]: "alone pieces (ok # oks) s = alone pieces oks (raceStep pieces s (0, ok))"
  and alone_Nil [simp]: "alone pieces [] s = s"
  by (simp_all add: alone_def)

lemma only_step: "only p a s \<Longrightarrow> raceStep pieces s (0, ok) = turn pieces 0 ok s"
  by (simp add: only_def raceStep_def)

lemma alone_ended: "only p (Ended r) s \<Longrightarrow> alone pieces oks s = s"
  by (induction oks) (simp_all add: only_step, simp add: only_def turn_def)

lemma only_goto: "only p a s \<Longrightarrow> only p a' (goto 0 a' s)" "only p a s \<Longrightarrow> only p a (s\<lparr>mu := m\<rparr>)"
  "only p a s \<Longrightarrow> only p a (s\<lparr>wire := w\<rparr>)"
  by (simp_all add: only_def goto_def)

text \<open>The pieces go out one by one, up to the first the network refuses.\<close>

lemma alone_wire:
  assumes "only p (AtWire k ws) s" "k \<notin> set (shut s)" "length oks = length ws + 1"
  shows "only p (Ended (if list_all id (take (length ws) oks) then ReturnsNil else ReturnsErr)) (alone pieces oks s)
    \<and> mu (alone pieces oks s) = None \<and> rstatus (alone pieces oks s) = rstatus s
    \<and> wire (alone pieces oks s)
        = wire s @ map (\<lambda>w. (0, k, w)) (take (length (takeWhile id (take (length ws) oks))) ws)"
  using assms
proof (induction ws arbitrary: s oks)
  case Nil
  then obtain ok where oks: "oks = [ok]" by (cases oks) auto
  from Nil(1) have "turn pieces 0 ok s = goto 0 (Ended ReturnsNil) (s\<lparr>mu := None\<rparr>)" by (simp add: only_def turn_def)
  with oks only_goto(1) [OF only_goto(2) [OF Nil(1)], of "Ended ReturnsNil" None] show ?case
    by (simp add: only_step [OF Nil(1)])
next
  case (Cons w ws)
  then obtain ok rest where oks: "oks = ok # rest" "length rest = length ws + 1" by (cases oks) auto
  show ?case
  proof (cases ok)
    case True
    let ?s = "goto 0 (AtWire k ws) (s\<lparr>wire := wire s @ [(0, k, w)]\<rparr>)"
    have t: "turn pieces 0 ok s = ?s" using Cons(2,3) True by (simp add: only_def turn_def)
    have "only p (AtWire k ws) ?s" using only_goto(1) [OF only_goto(3) [OF Cons(2)]] .
    from Cons(1) [OF this _ oks(2)] Cons(2,3) oks t True show ?thesis by (simp add: only_step [OF Cons(2)])
  next
    case False
    let ?s = "goto 0 (Ended ReturnsErr) (s\<lparr>mu := None\<rparr>)"
    have t: "turn pieces 0 ok s = ?s" using Cons(2) False by (simp add: only_def turn_def)
    have "only p (Ended ReturnsErr) ?s" using only_goto(1) [OF only_goto(2) [OF Cons(2)]] .
    with alone_ended [OF this, of pieces rest] oks(1) t False show ?thesis by (simp add: only_step [OF Cons(2)])
  qed
qed

text \<open>Four turns bring it to the wire.\<close>

lemma sole_start:
  assumes "status x \<noteq> Disconnected" "conn x = Some k"
  obtains s4 where "\<And>o1 o2 o3 o4 rest. alone pieces (o1 # o2 # o3 # o4 # rest) (soleWriter x p) = alone pieces rest s4"
    "only p (AtWire k (pieces p)) s4" "shut s4 = []" "wire s4 = []"
proof -
  let ?s = "soleWriter x p"
  let ?s1 = "goto 0 AtConn ?s"
  let ?s2 = "goto 0 AtLock ?s1"
  let ?s3 = "goto 0 AtArg (?s2\<lparr>mu := Some 0\<rparr>)"
  let ?s4 = "goto 0 (AtWire k (pieces p)) ?s3"
  have s0: "only p AtStatus ?s" by (simp add: only_def soleWriter_def raceStart_def start_def)
  note o1 = only_goto(1) [OF s0, of AtConn]
  note o2 = only_goto(1) [OF o1, of AtLock]
  note o3 = only_goto(1) [OF only_goto(2) [OF o2, of "Some 0"], of AtArg]
  note o4 = only_goto(1) [OF o3, of "AtWire k (pieces p)"]
  have "turn pieces 0 ok ?s = ?s1" for ok using assms(1) by (simp add: turn_def soleWriter_def raceStart_def start_def)
  moreover have "turn pieces 0 ok ?s1 = ?s2" for ok
    using assms(2) o1 by (simp add: turn_def only_def) (simp add: soleWriter_def)
  moreover have "turn pieces 0 ok ?s2 = ?s3" for ok
    using o2 by (simp add: turn_def only_def) (simp add: soleWriter_def raceStart_def)
  moreover have "turn pieces 0 ok ?s3 = ?s4" for ok
    using assms(2) o3 by (simp add: turn_def only_def) (simp add: soleWriter_def)
  ultimately have "alone pieces (r1 # r2 # r3 # r4 # rest) ?s = alone pieces rest ?s4" for r1 r2 r3 r4 rest
    by (simp add: only_step [OF s0] only_step [OF o1] only_step [OF o2] only_step [OF o3])
  then show thesis by (rule that [OF _ o4]) (simp_all add: soleWriter_def raceStart_def)
qed

text \<open>
  Undisturbed, the goroutine returns what \<^verbatim>\<open>WriterPacket\<close> of the broker's model returns, leaves
  the lock free, and has put the packet on the wire in full exactly when that records a successful
  write. The write succeeds in one model when the network takes all pieces in the other.
\<close>

lemma sole_writer:
  assumes "conn (cheap b c) \<noteq> None" "length oks = length (pieces p) + 5"
    and "writeOk env (length (trace b)) = list_all id (take (length (pieces p)) (drop 4 oks))"
    and "s = alone pieces oks (soleWriter (cheap b c) p)" "(b', err) = WriterPacket env close c p b"
  shows "pcOf s 0 = Ended (if err then ReturnsErr else ReturnsNil)" "mu s = None"
    and "status (cheap b c) = Disconnected \<Longrightarrow> wire s = [] \<and> trace b' = trace b"
    and "status (cheap b c) \<noteq> Disconnected \<Longrightarrow> conn (cheap b c) = Some k \<Longrightarrow>
      trace b' = trace b @ [Wrote k p (\<not> err)]
      \<and> (\<not> err \<longrightarrow> wire s = map (\<lambda>w. (0, k, w)) (pieces p))
      \<and> (\<exists>n \<le> length (pieces p). wire s = map (\<lambda>w. (0, k, w)) (take n (pieces p)))"
proof -
  let ?x = "cheap b c"
  let ?s = "soleWriter ?x p"
  obtain k' where k: "conn ?x = Some k'" using assms(1) by auto
  have s0: "only p AtStatus ?s" by (simp add: only_def soleWriter_def raceStart_def start_def)
  obtain o1 o2 o3 o4 rest where oks: "oks = o1 # o2 # o3 # o4 # rest" "length rest = length (pieces p) + 1"
    using assms(2) by (auto simp: numeral_eq_Suc length_Suc_conv)
  have rest: "take (length (pieces p)) (drop 4 oks) = take (length (pieces p)) rest" by (simp add: oks(1))
  have res: "pcOf s 0 = Ended (if err then ReturnsErr else ReturnsNil) \<and> mu s = None
    \<and> (status ?x = Disconnected \<longrightarrow> wire s = [] \<and> trace b' = trace b)
    \<and> (status ?x \<noteq> Disconnected \<longrightarrow> trace b' = trace b @ [Wrote k' p (\<not> err)]
      \<and> wire s = map (\<lambda>w. (0, k', w)) (take (length (takeWhile id (take (length (pieces p)) rest))) (pieces p))
      \<and> err = (\<not> list_all id (take (length (pieces p)) rest)))"
  proof (cases "status ?x = Disconnected")
    case True
    then have "turn pieces 0 o1 ?s = goto 0 (Ended ReturnsNil) ?s"
      by (simp add: turn_def soleWriter_def raceStart_def start_def)
    with alone_ended [OF only_goto(1) [OF s0]] only_step [OF s0] have "s = goto 0 (Ended ReturnsNil) ?s"
      by (simp add: assms(4) oks)
    with True assms(5) show ?thesis
      by (simp add: WriterPacket_def soleWriter_def raceStart_def start_def goto_def)
  next
    case False
    obtain s4 where s4: "s = alone pieces rest s4" "only p (AtWire k' (pieces p)) s4" "shut s4 = []" "wire s4 = []"
      using sole_start [OF False k, of pieces p] assms(4) oks(1) by metis
    with alone_wire [OF s4(2) _ oks(2), of pieces]
    have w: "only p (Ended (if list_all id (take (length (pieces p)) rest) then ReturnsNil else ReturnsErr)) s"
      "mu s = None" "wire s = map (\<lambda>w. (0, k', w)) (take (length (takeWhile id (take (length (pieces p)) rest))) (pieces p))"
      by simp_all
    have "err = (\<not> list_all id (take (length (pieces p)) rest))" "trace b' = trace b @ [Wrote k' p (\<not> err)]"
      using assms(3,5) False k unfolding rest by (simp_all add: WriterPacket_def rawWrite_def emit_def Let_def)
    with w False show ?thesis by (simp add: only_def)
  qed
  then show "pcOf s 0 = Ended (if err then ReturnsErr else ReturnsNil)" "mu s = None"
    and "status ?x = Disconnected \<Longrightarrow> wire s = [] \<and> trace b' = trace b" by blast+
  show "trace b' = trace b @ [Wrote k p (\<not> err)]
      \<and> (\<not> err \<longrightarrow> wire s = map (\<lambda>w. (0, k, w)) (pieces p))
      \<and> (\<exists>n \<le> length (pieces p). wire s = map (\<lambda>w. (0, k, w)) (take n (pieces p)))"
    if "status ?x \<noteq> Disconnected" "conn ?x = Some k"
  proof -
    let ?t = "take (length (pieces p)) rest"
    let ?n = "length (takeWhile id ?t)"
    have kk: "k' = k" using that(2) k by simp
    have err: "trace b' = trace b @ [Wrote k p (\<not> err)]" "err = (\<not> list_all id ?t)"
      and wire: "wire s = map (\<lambda>w. (0, k, w)) (take ?n (pieces p))"
      using res that(1) unfolding kk by blast+
    have len: "length ?t = length (pieces p)" using oks(2) by simp
    have n: "?n \<le> length (pieces p)" using length_takeWhile_le [of id ?t] unfolding len .
    have "wire s = map (\<lambda>w. (0, k, w)) (pieces p)" if "\<not> err"
    proof -
      have "takeWhile id ?t = ?t" using that err(2) by (simp add: takeWhile_eq_all_conv list_all_iff)
      then have "?n = length (pieces p)" using len by (rule ssubst)
      then show ?thesis using wire by (metis take_all_iff order_refl)
    qed
    with err(1) wire n show ?thesis by blast
  qed
qed

end
