(* ===== verification/Subscribe_Race.thy ===== *)
theory Subscribe_Race
  imports Life_Laws Broker_Examples
begin

text \<open>
  A worker that processes a SUBSCRIBE of a client while another goroutine closes that client. The
  broker's lock is held inside the calls of the topic index only, and the client's table \<^verbatim>\<open>subMap\<close>
  has none. So here the two handlers interleave, each turn being one access to the client's status, to
  its table or to the index. (That Go may also stop a program in which one goroutine writes a map while
  another ranges over it is left aside.)
\<close>

section \<open>The worker and the closer\<close>

text \<open>
  Where the worker is: at the test of the status, before a topic, or inside the treatment of a topic,
  whose group has been split off; the return codes so far are kept.
\<close>

datatype subStmt =
    StRemove subref          \<comment> \<open>\<^verbatim>\<open>c.topicsMgr.Unsubscribe(oldSub.topic, oldSub)\<close>\<close>
  | StDelete                 \<comment> \<open>\<^verbatim>\<open>delete(c.subMap, t)\<close>\<close>
  | StEnter                  \<comment> \<open>\<^verbatim>\<open>c.topicsMgr.Subscribe(topic, qoss[i], sub)\<close>\<close>
  | StStore subref byte byte \<comment> \<open>\<^verbatim>\<open>c.subMap[t] = sub\<close> and what follows\<close>

datatype atSub =
    SubStatus
  | SubTopic "(nat \<times> string) list" "byte list"
  | SubAt subStmt nat string "bool \<times> string \<times> string" "(nat \<times> string) list" "byte list"
  | SubOver "byte list"

text \<open>
  Where the closer is. Its loop ranges over the table itself: it has to give every key that was there at
  its start and is not deleted before (\<open>due\<close>), each at most once (\<open>seen\<close>), and may give those added since.
\<close>

datatype atClose =
    ClsStatus
  | ClsMark
  | ClsShut
  | ClsRange "string list" "string list"
  | ClsUnsub subref "string list" "string list"
  | ClsOver

text \<open>\<open>late\<close> lists the subscriptions that were stored in the table after the loop began.\<close>

record subRace =
  held :: broker
  worker :: atSub
  closer :: atClose
  late :: "subref list"

fun forget :: "string \<Rightarrow> atClose \<Rightarrow> atClose" where
  "forget t (ClsRange due seen) = ClsRange (removeAll t due) (removeAll t seen)"
| "forget t (ClsUnsub r due seen) = ClsUnsub r (removeAll t due) (removeAll t seen)"
| "forget t x = x"

fun ranging :: "atClose \<Rightarrow> bool" where
  "ranging (ClsRange due seen) = True"
| "ranging (ClsUnsub r due seen) = True"
| "ranging ClsOver = True"
| "ranging x = False"

definition workerTurn :: "env \<Rightarrow> cref \<Rightarrow> string list \<Rightarrow> byte list \<Rightarrow> subRace \<Rightarrow> subRace" where
  "workerTurn env c topics qoss s =
     (let b = held s in
      case worker s of
        SubStatus \<Rightarrow>
          s\<lparr>worker := if status (cheap b c) = Disconnected then SubOver [] else SubTopic (enumerate 0 topics) []\<rparr>
      | SubTopic todo codes \<Rightarrow>
          (case todo of
             [] \<Rightarrow> s\<lparr>worker := SubOver codes\<rparr>
           | (i, t) # rest \<Rightarrow>
               (case brokerTopicAuth env aSUB (cheap b c) t b of (b1, ok) \<Rightarrow>
                  if \<not> ok then s\<lparr>held := b1, worker := SubTopic rest (codes @ [QosFailure])\<rparr>
                  else
                    (let b2 = bridgePublish (element (cheap b1 c) bSubscribe (now env) [] t) b1 in
                     case splitShare t of
                       None \<Rightarrow> s\<lparr>held := b2, worker := SubTopic rest (codes @ [QosFailure])\<rparr>
                     | Some sgt \<Rightarrow>
                         s\<lparr>held := b2,
                           worker := SubAt (case map_of (subMap (cheap b2 c)) t of None \<Rightarrow> StEnter | Some old \<Rightarrow> StRemove old)
                             i t sgt rest codes\<rparr>)))
      | SubAt op i t sgt rest codes \<Rightarrow>
          (case op of
             StRemove old \<Rightarrow>
               s\<lparr>held := b\<lparr>topicsMgr := fst (mtUnsubscribe (stopic (sheap b old)) (subPtr old) (topicsMgr b))\<rparr>,
                 worker := SubAt StDelete i t sgt rest codes\<rparr>
           | StDelete \<Rightarrow>
               s\<lparr>held := upd c (\<lambda>x. x\<lparr>subMap := AList.delete t (subMap x)\<rparr>) b,
                 worker := SubAt StEnter i t sgt rest codes, closer := forget t (closer s)\<rparr>
           | StEnter \<Rightarrow>
               (case nthOpt qoss i of
                  None \<Rightarrow> s\<lparr>held := crash b\<rparr>
                | Some q \<Rightarrow>
                    (case sgt of (sh, grp, topic) \<Rightarrow>
                       (case enterSub c topic q sh grp b of
                          (b1, r, None) \<Rightarrow> s\<lparr>held := b1, worker := SubTopic rest (codes @ [QosFailure])\<rparr>
                        | (b1, r, Some rq) \<Rightarrow> s\<lparr>held := b1, worker := SubAt (StStore r q rq) i t sgt rest codes\<rparr>)))
           | StStore r q rq \<Rightarrow>
               (let b5 = upd c (\<lambda>x. x\<lparr>subMap := AList.update t r (subMap x)\<rparr>) b;
                    b6 = onClientSession c (\<lambda>x. fst (AddTopic t q x)) b5;
                    b7 = upd c (\<lambda>x. x\<lparr>rmsgs := fst (mtRetained (snd (snd sgt)) (topicsMgr b6) (rmsgs x))\<rparr>) b6
                in s\<lparr>held := b7, worker := SubTopic rest (codes @ [rq]),
                     late := if ranging (closer s) then r # late s else late s\<rparr>))
      | SubOver codes \<Rightarrow> s)"

text \<open>The key the loop gives next: one the schedule picks among those not given yet, or the first that is due.\<close>

definition rangeNext :: "string option \<Rightarrow> (string \<times> subref) list \<Rightarrow> string list \<Rightarrow> string list \<Rightarrow> (string \<times> subref) option" where
  "rangeNext choice m due seen =
     (let first = (case filter (\<lambda>x. fst x \<in> set due) m of [] \<Rightarrow> None | x # xs \<Rightarrow> Some x) in
      case choice of
        None \<Rightarrow> first
      | Some t \<Rightarrow> (case map_of m t of Some r \<Rightarrow> if t \<in> set seen then first else Some (t, r) | None \<Rightarrow> first))"

definition closerTurn :: "env \<Rightarrow> cref \<Rightarrow> string option \<Rightarrow> subRace \<Rightarrow> subRace" where
  "closerTurn env c choice s =
     (let b = held s in
      case closer s of
        ClsStatus \<Rightarrow> s\<lparr>closer := if status (cheap b c) = Disconnected then ClsOver else ClsMark\<rparr>
      | ClsMark \<Rightarrow>
          (let b1 = upd c (\<lambda>x. x\<lparr>cancelled := True, status := Disconnected\<rparr>) b
           in s\<lparr>held := bridgePublish (element (cheap b1 c) bDisconnect (now env) [] []) b1, closer := ClsShut\<rparr>)
      | ClsShut \<Rightarrow>
          (let b3 = closeConn c b
           in s\<lparr>held := removeClient c b3, closer := ClsRange (map fst (subMap (cheap b3 c))) []\<rparr>)
      | ClsRange due seen \<Rightarrow>
          (case rangeNext choice (subMap (cheap b c)) due seen of
             None \<Rightarrow> s\<lparr>closer := ClsOver\<rparr>
           | Some (t, r) \<Rightarrow> s\<lparr>closer := ClsUnsub r (removeAll t due) (t # seen)\<rparr>)
      | ClsUnsub r due seen \<Rightarrow>
          s\<lparr>held := b\<lparr>topicsMgr := fst (mtUnsubscribe (stopic (sheap b r)) (subPtr r) (topicsMgr b))\<rparr>,
            closer := ClsRange due seen\<rparr>
      | ClsOver \<Rightarrow> s)"

text \<open>A schedule: the worker's turn, or the closer's with the key its loop is to give.\<close>

datatype who = Worker | Closer "string option"

definition subStep :: "env \<Rightarrow> cref \<Rightarrow> string list \<Rightarrow> byte list \<Rightarrow> subRace \<Rightarrow> who \<Rightarrow> subRace" where
  "subStep env c topics qoss s w =
     (if crashed (held s) then s
      else (case w of Worker \<Rightarrow> workerTurn env c topics qoss s | Closer choice \<Rightarrow> closerTurn env c choice s))"

definition raced :: "env \<Rightarrow> cref \<Rightarrow> string list \<Rightarrow> byte list \<Rightarrow> broker \<Rightarrow> who list \<Rightarrow> subRace" where
  "raced env c topics qoss b ws =
     foldl (subStep env c topics qoss) \<lparr>held = b, worker = SubStatus, closer = ClsStatus, late = []\<rparr> ws"

section \<open>What the turns do to the tables\<close>

definition indexed :: "broker \<Rightarrow> subref \<Rightarrow> bool" where
  "indexed b r = (\<exists>fs. (fs, subPtr r) \<in> mt_subs (topicsMgr b))"

definition tables_ok :: "cref \<Rightarrow> broker \<Rightarrow> bool" where
  "tables_ok c b =
     (mt_inv (topicsMgr b)
      \<and> (\<forall>fs r. (fs, subPtr r) \<in> mt_subs (topicsMgr b) \<longrightarrow> r < snext b \<and> topicLevels (stopic (sheap b r)) = Inr fs)
      \<and> own_subs b c)"

definition same_tables :: "cref \<Rightarrow> broker \<Rightarrow> broker \<Rightarrow> bool" where
  "same_tables c b b' =
     (topicsMgr b' = topicsMgr b \<and> sheap b' = sheap b \<and> snext b' = snext b \<and> subMap (cheap b' c) = subMap (cheap b c))"

lemma same_tables_keeps:
  assumes "same_tables c b b'"
  shows "tables_ok c b' = tables_ok c b" "indexed b' r = indexed b r" "subMap (cheap b' c) = subMap (cheap b c)"
    "sclient (sheap b' r) = sclient (sheap b r)" "snext b' = snext b" "sheap b' = sheap b"
  using assms by (simp_all add: same_tables_def tables_ok_def indexed_def own_subs_def)

lemma unsubscribe_tables:
  assumes "tables_ok c b" "b' = b\<lparr>topicsMgr := fst (mtUnsubscribe (stopic (sheap b r)) (subPtr r) (topicsMgr b))\<rparr>"
  shows "tables_ok c b'" "indexed b' d \<longleftrightarrow> indexed b d \<and> d \<noteq> r"
proof -
  note one = unsubscribe_one [of "topicsMgr b" "stopic (sheap b r)" r]
  have mt: "mt_inv (topicsMgr b)" and lv: "\<And>fs r. (fs, subPtr r) \<in> mt_subs (topicsMgr b) \<Longrightarrow> topicLevels (stopic (sheap b r)) = Inr fs"
    using assms(1) by (auto simp: tables_ok_def)
  show "tables_ok c b'" using assms one [OF mt] by (auto simp: tables_ok_def own_subs_def)
  show "indexed b' d \<longleftrightarrow> indexed b d \<and> d \<noteq> r" using one(2) [OF mt] lv by (auto simp: assms(2) indexed_def)
qed

lemma enter_tables:
  assumes "tables_ok c b" "enterSub c topic q sh grp b = (b', r, res)"
  shows "tables_ok c b'" "r = snext b" "subMap (cheap b' c) = subMap (cheap b c)" "snext b' = snext b + 1"
    "\<And>d. d < snext b \<Longrightarrow> sheap b' d = sheap b d" "sclient (sheap b' r) = c" "cheap b' = cheap b"
    "indexed b' d \<longleftrightarrow> indexed b d \<or> res \<noteq> None \<and> d = r"
proof -
  note eqs = enterSub_eqs [OF assms(2)]
  let ?m = "mtSubscribe topic q (subPtr r) (topicsMgr b)"
  have mt: "mt_inv (topicsMgr b)" and ix: "\<And>fs r. (fs, subPtr r) \<in> mt_subs (topicsMgr b) \<Longrightarrow> r < snext b \<and> topicLevels (stopic (sheap b r)) = Inr fs"
    and own: "own_subs b c"
    using assms(1) by (auto simp: tables_ok_def)
  note one = subscribe_one [OF mt, of topic q r]
  show r: "r = snext b" by (rule eqs)
  show heap: "cheap b' = cheap b" "snext b' = snext b + 1" "\<And>d. d < snext b \<Longrightarrow> sheap b' d = sheap b d"
    "sclient (sheap b' r) = c" and "subMap (cheap b' c) = subMap (cheap b c)"
    by (simp_all add: eqs(2) allocSub_def r)
  have new: "stopic (sheap b' r) = topic" and mgr: "topicsMgr b' = fst ?m" by (simp_all add: eqs(2) allocSub_def r)
  have subs: "if res = None then mt_subs (fst ?m) = mt_subs (topicsMgr b)
      else (\<exists>fs. topicLevels topic = Inr fs \<and> mt_subs (fst ?m) = insert (fs, subPtr r) (mt_subs (topicsMgr b)))"
    using one(2,3) eqs(3) by (cases "snd (snd ?m)") auto
  show "indexed b' d \<longleftrightarrow> indexed b d \<or> res \<noteq> None \<and> d = r"
    using subs by (cases res) (auto simp: indexed_def mgr)
  have "d < snext b' \<and> topicLevels (stopic (sheap b' d)) = Inr fs" if "(fs, subPtr d) \<in> mt_subs (topicsMgr b')" for fs d
  proof (cases "(fs, subPtr d) \<in> mt_subs (topicsMgr b)")
    case True
    with ix [OF True] heap(2,3) show ?thesis by simp
  next
    case False
    then have "res \<noteq> None" "d = r" "topicLevels topic = Inr fs" using that subs by (auto simp: mgr split: if_splits)
    with new heap(2) r show ?thesis by simp
  qed
  moreover have "own_subs b' c" using own heap by (fastforce simp: own_subs_def)
  ultimately show "tables_ok c b'" using one(1) by (simp add: tables_ok_def mgr)
qed

abbreviation entry :: "broker \<Rightarrow> cref \<Rightarrow> string \<Rightarrow> subref option" where
  "entry b c \<equiv> map_of (subMap (cheap b c))"

lemma tables_entry: "tables_ok c b \<Longrightarrow> entry b c t = Some r \<Longrightarrow> r < snext b \<and> sclient (sheap b r) = c"
  by (auto simp: tables_ok_def own_subs_def dest: map_of_SomeD)

lemma tables_indexed: "tables_ok c b \<Longrightarrow> indexed b r \<Longrightarrow> r < snext b"
  by (auto simp: tables_ok_def indexed_def)

lemma delete_tables:
  assumes "tables_ok c b" "b' = upd c (\<lambda>x. x\<lparr>subMap := AList.delete t (subMap x)\<rparr>) b"
  shows "tables_ok c b'" "indexed b' r = indexed b r" "entry b' c = (entry b c)(t := None)" "sheap b' = sheap b" "snext b' = snext b"
    "status (cheap b' c) = status (cheap b c)"
proof -
  have d: "own_subs b c" using assms(1) by (simp add: tables_ok_def)
  have "set (AList.delete t m) \<subseteq> set m" for m :: "(string \<times> subref) list" by (auto simp: AList.delete_eq)
  then have "own_subs b' c"
    using d by (auto simp: assms(2) own_subs_def upd_def intro: distinct_keys_delete)
  then show "tables_ok c b'" using assms by (simp add: tables_ok_def upd_def)
  show "indexed b' r = indexed b r" "entry b' c = (entry b c)(t := None)" "sheap b' = sheap b" "snext b' = snext b"
    "status (cheap b' c) = status (cheap b c)"
    by (simp_all add: assms(2) upd_def indexed_def go_map)
qed

lemma store_tables:
  assumes "tables_ok c b" "r < snext b" "sclient (sheap b r) = c" "entry b c t = None"
    and "b' = upd c (\<lambda>x. x\<lparr>subMap := AList.update t r (subMap x)\<rparr>) b"
  shows "tables_ok c b'" "indexed b' d = indexed b d" "entry b' c = (entry b c)(t \<mapsto> r)" "sheap b' = sheap b" "snext b' = snext b"
    "status (cheap b' c) = status (cheap b c)"
proof -
  have d: "own_subs b c" using assms(1) by (simp add: tables_ok_def)
  have keys: "distinct_keys (AList.update t r (subMap (cheap b c)))" using d by (simp add: own_subs_def distinct_keys_update)
  have "own_subs b' c"
    unfolding own_subs_def
  proof (intro conjI allI impI)
    show "distinct_keys (subMap (cheap b' c))" using keys by (simp add: assms(5) upd_def)
    fix u x assume "(u, x) \<in> set (subMap (cheap b' c))"
    then have "((entry b c)(t \<mapsto> r)) u = Some x" using keys by (simp add: assms(5) upd_def go_map)
    then show "x < snext b'" "sclient (sheap b' x) = c"
      using assms(2,3) tables_entry [OF assms(1), of u x] by (auto simp: assms(5) upd_def split: if_splits)
  qed
  then show "tables_ok c b'" using assms(1) by (simp add: tables_ok_def assms(5) upd_def)
  show "indexed b' d = indexed b d" "entry b' c = (entry b c)(t \<mapsto> r)" "sheap b' = sheap b" "snext b' = snext b"
    "status (cheap b' c) = status (cheap b c)"
    by (simp_all add: assms(5) upd_def indexed_def go_map)
qed

section \<open>What always holds\<close>

fun workerOk :: "cref \<Rightarrow> broker \<Rightarrow> atSub \<Rightarrow> bool" where
  "workerOk c b (SubAt op i t sgt rest codes) =
     (case op of
        StRemove old \<Rightarrow> entry b c t = Some old
      | StDelete \<Rightarrow> (\<forall>r. entry b c t = Some r \<longrightarrow> \<not> indexed b r)
      | StEnter \<Rightarrow> entry b c t = None
      | StStore r q rq \<Rightarrow> entry b c t = None \<and> r < snext b \<and> sclient (sheap b r) = c)"
| "workerOk c b w = True"

fun inHand :: "atSub \<Rightarrow> subref option" where
  "inHand (SubAt (StStore r q rq) i t sgt rest codes) = Some r"
| "inHand w = None"

fun closerOk :: "cref \<Rightarrow> broker \<Rightarrow> subref set \<Rightarrow> atClose \<Rightarrow> bool" where
  "closerOk c b l ClsStatus = (status (cheap b c) \<noteq> Disconnected)"
| "closerOk c b l ClsMark = True"
| "closerOk c b l ClsShut = True"
| "closerOk c b l (ClsRange due seen) = (\<forall>t r. entry b c t = Some r \<and> indexed b r \<longrightarrow> r \<in> l \<or> t \<in> set due)"
| "closerOk c b l (ClsUnsub x due seen) = (\<forall>t r. entry b c t = Some r \<and> indexed b r \<longrightarrow> r \<in> l \<or> t \<in> set due \<or> r = x)"
| "closerOk c b l ClsOver = (\<forall>t r. entry b c t = Some r \<and> indexed b r \<longrightarrow> r \<in> l)"

definition race_ok :: "cref \<Rightarrow> subRace \<Rightarrow> bool" where
  "race_ok c s =
     (let b = held s in
      tables_ok c b
      \<and> (\<forall>r. indexed b r \<and> sclient (sheap b r) = c \<longrightarrow> inHand (worker s) = Some r \<or> (\<exists>t. entry b c t = Some r))
      \<and> workerOk c b (worker s) \<and> closerOk c b (set (late s)) (closer s))"

text \<open>A turn that leaves the tables and the status alone, and takes nothing in hand.\<close>

lemma closerOk_mono:
  assumes "closerOk c b l cl" "status (cheap b' c) = status (cheap b c)" "l \<subseteq> l'"
    and "\<And>t r. entry b' c t = Some r \<Longrightarrow> indexed b' r \<Longrightarrow> (entry b c t = Some r \<and> indexed b r) \<or> r \<in> l'"
  shows "closerOk c b' l' cl"
  using assms by (cases cl) (auto; blast)+

lemma race_ok_still:
  assumes "race_ok c s" "same_tables c (held s) b'" "status (cheap b' c) = status (cheap (held s) c)"
    and "inHand (worker s) = None" "inHand w = None" "workerOk c b' w"
  shows "race_ok c (s\<lparr>held := b', worker := w\<rparr>)"
proof -
  note same = same_tables_keeps [OF assms(2)]
  have "closerOk c b' (set (late s)) (closer s)"
    by (rule closerOk_mono [OF _ assms(3) order_refl]) (use assms(1) same in \<open>auto simp: race_ok_def Let_def\<close>)
  with assms show ?thesis by (simp add: race_ok_def same Let_def)
qed

lemma same_tables_simple:
  "same_tables c b b" "same_tables c b (b\<lparr>bauth := v\<rparr>)" "same_tables c b (bridgePublish e b)" "same_tables c b (crash b)"
  "same_tables c b (onClientSession c f b)" "same_tables c b (closeConn c b)" "same_tables c b (removeClient c b)"
  "same_tables c b (upd c (\<lambda>x. x\<lparr>cancelled := True, status := Disconnected\<rparr>) b)"
  "same_tables c b (upd c (\<lambda>x. x\<lparr>rmsgs := g x\<rparr>) b)"
  by (auto simp: same_tables_def bridgePublish_def emit_def crash_def onClientSession_def closeConn_def removeClient_def upd_def
      Let_def split: option.split ctype.split)

lemma same_status:
  "status (cheap (bridgePublish e b) c) = status (cheap b c)" "status (cheap (crash b) c) = status (cheap b c)"
  "status (cheap (onClientSession c f b) c) = status (cheap b c)" "cheap (b\<lparr>bauth := v\<rparr>) = cheap b"
  "status (cheap (upd c (\<lambda>x. x\<lparr>rmsgs := g x\<rparr>) b) c) = status (cheap b c)"
  by (auto simp: bridgePublish_def emit_def crash_def onClientSession_def upd_def split: option.split)

lemma same_tables_trans: "same_tables c b1 b2 \<Longrightarrow> same_tables c b2 b3 \<Longrightarrow> same_tables c b1 b3"
  by (simp add: same_tables_def)

lemma closerOk_forget:
  assumes "closerOk c b l cl" "status (cheap b' c) = status (cheap b c)"
    and "\<And>u r. entry b' c u = (if u = t then None else entry b c u)" "\<And>r. indexed b' r = indexed b r"
  shows "closerOk c b' l (forget t cl)"
  using assms by (cases cl) auto

lemma race_okD:
  assumes "race_ok c s"
  shows "tables_ok c (held s)"
    and "\<And>r. indexed (held s) r \<Longrightarrow> sclient (sheap (held s) r) = c \<Longrightarrow>
      inHand (worker s) = Some r \<or> (\<exists>t. entry (held s) c t = Some r)"
    and "workerOk c (held s) (worker s)" "closerOk c (held s) (set (late s)) (closer s)"
  using assms unfolding race_ok_def Let_def by blast+

lemma turn_topic_ok:
  assumes "race_ok c s" "worker s = SubTopic todo codes"
  shows "race_ok c (workerTurn env c topics qoss s)"
proof (cases todo)
  case Nil
  then show ?thesis using assms by (simp add: workerTurn_def race_ok_def)
next
  case (Cons x rest)
    let ?b = "held s"
  obtain i t where x: "x = (i, t)" by (cases x)
  obtain b1 a where a: "brokerTopicAuth env aSUB (cheap ?b c) t ?b = (b1, a)"
    by (cases "brokerTopicAuth env aSUB (cheap ?b c) t ?b")
  obtain v where b1: "b1 = ?b\<lparr>bauth := v\<rparr>" using topicAuth_eq [OF a] by blast
  let ?b2 = "bridgePublish (element (cheap b1 c) bSubscribe (now env) [] t) b1"
  have s1: "same_tables c ?b b1" "status (cheap b1 c) = status (cheap ?b c)" by (simp_all add: b1 same_tables_simple)
  have s2: "same_tables c ?b ?b2" "status (cheap ?b2 c) = status (cheap ?b c)"
    using same_tables_trans [OF s1(1) same_tables_simple(3)] s1(2) by (simp_all add: same_status)
  have none: "inHand (worker s) = None" by (simp add: assms(2))
  show ?thesis
    using race_ok_still [OF assms(1) s1 none] race_ok_still [OF assms(1) s2 none] assms(2) Cons x a
    by (auto simp: workerTurn_def Let_def split: option.split)
qed

lemma turn_remove_ok:
  assumes "race_ok c s" "worker s = SubAt (StRemove old) i t sgt rest codes"
  shows "race_ok c (workerTurn env c topics qoss s)"
proof -
  let ?b = "held s"
  note tables = race_okD(1) [OF assms(1)] and mine = race_okD(2) [OF assms(1)]
    and w = race_okD(3) [OF assms(1)] and cl = race_okD(4) [OF assms(1)]
  let ?b' = "?b\<lparr>topicsMgr := fst (mtUnsubscribe (stopic (sheap ?b old)) (subPtr old) (topicsMgr ?b))\<rparr>"
  note u = unsubscribe_tables [OF tables, of ?b' old]
  have "closerOk c ?b' (set (late s)) (closer s)"
    by (rule closerOk_mono [OF cl _ order_refl]) (auto simp: u(2))
  moreover have "entry ?b c t = Some old" using w assms(2) by simp
  ultimately show ?thesis
    using u mine assms(2) by (simp add: workerTurn_def race_ok_def Let_def)
qed

lemma turn_delete_ok:
  assumes "race_ok c s" "worker s = SubAt StDelete i t sgt rest codes"
  shows "race_ok c (workerTurn env c topics qoss s)"
proof -
  let ?b = "held s"
  note tables = race_okD(1) [OF assms(1)] and mine = race_okD(2) [OF assms(1)]
    and w = race_okD(3) [OF assms(1)] and cl = race_okD(4) [OF assms(1)]
  define b' where "b' = upd c (\<lambda>x. x\<lparr>subMap := AList.delete t (subMap x)\<rparr>) ?b"
  note d = delete_tables [OF tables b'_def]
  have "closerOk c b' (set (late s)) (forget t (closer s))"
    by (rule closerOk_forget [OF cl d(6)]) (simp_all add: d(2,3))
  moreover have "\<exists>u. entry b' c u = Some r" if "indexed ?b r" "sclient (sheap ?b r) = c" for r
  proof -
    have "\<exists>u. entry ?b c u = Some r" using mine [OF that] assms(2) by simp
    then obtain u where u: "entry ?b c u = Some r" ..
    then have "u \<noteq> t" using w that(1) assms(2) by auto
    with u show ?thesis by (auto simp: d(3))
  qed
  ultimately show ?thesis
    using d assms(2) by (simp add: workerTurn_def race_ok_def Let_def b'_def [symmetric])
qed

lemma turn_enter_ok:
  assumes "race_ok c s" "worker s = SubAt StEnter i t sgt rest codes"
  shows "race_ok c (workerTurn env c topics qoss s)"
proof -
  let ?b = "held s"
  note tables = race_okD(1) [OF assms(1)] and mine = race_okD(2) [OF assms(1)]
    and w = race_okD(3) [OF assms(1)] and cl = race_okD(4) [OF assms(1)]
  have free: "entry ?b c t = None" using w assms(2) by simp
  show ?thesis
  proof (cases "nthOpt qoss i")
    case None
    have "inHand (worker s) = None" using assms(2) by simp
    moreover have "workerOk c (crash ?b) (worker s)" using free assms(2) by (simp add: crash_def)
    ultimately have "race_ok c (s\<lparr>held := crash ?b, worker := worker s\<rparr>)"
      using race_ok_still [OF assms(1) same_tables_simple(4) same_status(2)] by blast
    moreover have "s\<lparr>held := crash ?b, worker := worker s\<rparr> = s\<lparr>held := crash ?b\<rparr>" by (cases s) simp
    ultimately have "race_ok c (s\<lparr>held := crash ?b\<rparr>)" by (simp only:)
    then show ?thesis using None assms(2) by (simp add: workerTurn_def Let_def)
  next
    case (Some q)
    obtain sh grp topic where sgt: "sgt = (sh, grp, topic)" by (cases sgt)
    obtain b1 r res where e: "enterSub c topic q sh grp ?b = (b1, r, res)" by (cases "enterSub c topic q sh grp ?b")
    note en = enter_tables [OF tables e]
    have old: "sclient (sheap b1 d) = sclient (sheap ?b d)" if "indexed ?b d" for d
      using en(5) tables_indexed [OF tables that] by simp
    have same: "entry b1 c = entry ?b c" by (simp add: en(7))
    have "entry ?b c u \<noteq> Some r" for u using tables_entry [OF tables, of u r] en(2) by auto
    then have "closerOk c b1 (set (late s)) (closer s)"
      by (intro closerOk_mono [OF cl _ order_refl]) (auto simp: en(7,8))
    moreover have "inHand (worker s) = None" using assms(2) by simp
    ultimately show ?thesis
      using en mine old w free assms(2) Some sgt e same
      by (cases res) (auto simp: workerTurn_def race_ok_def Let_def)
  qed
qed

lemma turn_store_ok:
  assumes "race_ok c s" "worker s = SubAt (StStore r q rq) i t sgt rest codes"
  shows "race_ok c (workerTurn env c topics qoss s)"
proof -
  let ?b = "held s"
  note tables = race_okD(1) [OF assms(1)] and mine = race_okD(2) [OF assms(1)]
    and w = race_okD(3) [OF assms(1)] and cl = race_okD(4) [OF assms(1)]
  have free: "entry ?b c t = None" "r < snext ?b" "sclient (sheap ?b r) = c" using w assms(2) by simp_all
  define b5 where "b5 = upd c (\<lambda>x. x\<lparr>subMap := AList.update t r (subMap x)\<rparr>) ?b"
  define b6 where "b6 = onClientSession c (\<lambda>x. fst (AddTopic t q x)) b5"
  define b7 where "b7 = upd c (\<lambda>x. x\<lparr>rmsgs := fst (mtRetained (snd (snd sgt)) (topicsMgr b6) (rmsgs x))\<rparr>) b6"
  note st = store_tables [OF tables free(2,3,1) b5_def]
  have "same_tables c b5 b7"
    unfolding b7_def b6_def by (rule same_tables_trans [OF same_tables_simple(5) same_tables_simple(9)])
  note same = same_tables_keeps [OF this]
  have stat: "status (cheap b7 c) = status (cheap ?b c)" using st(6) by (simp add: b7_def b6_def same_status)
  let ?l = "if ranging (closer s) then r # late s else late s"
  have "closerOk c b7 (set ?l) (closer s)"
  proof (cases "ranging (closer s)")
    case True
    then show ?thesis
      by (intro closerOk_mono [OF cl stat]) (auto simp: same st split: if_splits)
  next
    case False
    then show ?thesis using cl stat by (cases "closer s") auto
  qed
  moreover have "\<exists>u. entry b7 c u = Some d" if "indexed ?b d" "sclient (sheap ?b d) = c" for d
  proof (cases "d = r")
    case False
    then have "\<exists>u. entry ?b c u = Some d" using mine [OF that] assms(2) by simp
    then obtain u where u: "entry ?b c u = Some d" ..
    then have "u \<noteq> t" using free(1) by auto
    with u show ?thesis by (intro exI [of _ u]) (simp add: same st)
  qed (auto simp: same st)
  ultimately have "race_ok c (s\<lparr>held := b7, worker := SubTopic rest (codes @ [rq]), late := ?l\<rparr>)"
    using st same by (simp add: race_ok_def Let_def)
  moreover have "workerTurn env c topics qoss s = s\<lparr>held := b7, worker := SubTopic rest (codes @ [rq]), late := ?l\<rparr>"
    using assms(2) unfolding b7_def b6_def b5_def by (simp add: workerTurn_def Let_def)
  ultimately show ?thesis by (simp only:)
qed

lemma worker_race_ok:
  assumes "race_ok c s"
  shows "race_ok c (workerTurn env c topics qoss s)"
proof (cases "worker s")
  case SubStatus
  with assms show ?thesis by (simp add: workerTurn_def race_ok_def Let_def)
next
  case (SubOver codes)
  with assms show ?thesis by (simp add: workerTurn_def Let_def)
next
  case (SubTopic todo codes)
  with assms show ?thesis by (rule turn_topic_ok)
next
  case (SubAt op i t sgt rest codes)
  with assms show ?thesis
    by (cases op) (auto intro: turn_remove_ok turn_delete_ok turn_enter_ok turn_store_ok)
qed

lemma rangeNext_Some:
  assumes "rangeNext choice m due seen = Some (t, r)"
  shows "(t, r) \<in> set m"
  using assms by (auto simp: rangeNext_def Let_def filter_eq_Cons_iff split: option.splits if_splits list.splits dest: map_of_SomeD)

lemma rangeNext_None:
  assumes "rangeNext choice m due seen = None" "(t, r) \<in> set m"
  shows "t \<notin> set due"
  using assms by (auto simp: rangeNext_def Let_def filter_empty_conv split: option.splits if_splits list.splits)

lemma closer_race_ok:
  assumes "race_ok c s"
  shows "race_ok c (closerTurn env c choice s)"
proof -
  let ?b = "held s"
  note ok = assms [unfolded race_ok_def Let_def]
  have tables: "tables_ok c ?b" and mine: "\<And>r. indexed ?b r \<Longrightarrow> sclient (sheap ?b r) = c \<Longrightarrow> inHand (worker s) = Some r \<or> (\<exists>t. entry ?b c t = Some r)"
    and w: "workerOk c ?b (worker s)" and cl: "closerOk c ?b (set (late s)) (closer s)"
    using ok by blast+
  have keys: "distinct_keys (subMap (cheap ?b c))" using tables by (simp add: tables_ok_def own_subs_def)
  have move: "race_ok c (s\<lparr>held := b', closer := x\<rparr>)"
    if "same_tables c ?b b'" "closerOk c b' (set (late s)) x" for b' x
  proof -
    note same = same_tables_keeps [OF that(1)]
    have "workerOk c b' (worker s)" using w by (cases "worker s") (auto simp: same split: subStmt.splits)
    with ok that(2) show ?thesis by (simp add: race_ok_def same Let_def)
  qed
  show ?thesis
  proof (cases "closer s")
    case ClsStatus
    then show ?thesis using ok by (simp add: closerTurn_def race_ok_def Let_def)
  next
    case ClsMark
    let ?b1 = "upd c (\<lambda>x. x\<lparr>cancelled := True, status := Disconnected\<rparr>) ?b"
    have "same_tables c ?b (bridgePublish (element (cheap ?b1 c) bDisconnect (now env) [] []) ?b1)"
      by (rule same_tables_trans [OF same_tables_simple(8) same_tables_simple(3)])
    then have "race_ok c (s\<lparr>held := bridgePublish (element (cheap ?b1 c) bDisconnect (now env) [] []) ?b1, closer := ClsShut\<rparr>)"
      by (rule move) simp
    then show ?thesis using ClsMark by (simp add: closerTurn_def Let_def)
  next
    case ClsShut
    have same: "same_tables c ?b (removeClient c (closeConn c ?b))"
      by (rule same_tables_trans [OF same_tables_simple(6) same_tables_simple(7)])
    have due: "subMap (cheap (closeConn c ?b) c) = subMap (cheap ?b c)"
      using same_tables_simple(6) [of c ?b] by (simp add: same_tables_def)
    show ?thesis
      using move [OF same, of "ClsRange (map fst (subMap (cheap ?b c))) []"] ClsShut
      by (force simp: closerTurn_def Let_def due same_tables_keeps(2,3) [OF same] dest: map_of_SomeD)
  next
    case (ClsRange due seen)
    show ?thesis
    proof (cases "rangeNext choice (subMap (cheap ?b c)) due seen")
      case None
      have "t \<notin> set due" if "entry ?b c t = Some r" for t r
        using rangeNext_None [OF None map_of_SomeD [OF that]] .
      then have "closerOk c ?b (set (late s)) ClsOver" using cl ClsRange by auto
      with move [OF same_tables_simple(1), of ClsOver] show ?thesis using ClsRange None by (simp add: closerTurn_def Let_def)
    next
      case (Some x)
      obtain t r where x: "x = (t, r)" by (cases x)
      have "entry ?b c t = Some r" using rangeNext_Some [OF Some [unfolded x]] keys by (simp add: go_map)
      then have "closerOk c ?b (set (late s)) (ClsUnsub r (removeAll t due) (t # seen))" using cl ClsRange by auto
      with move [OF same_tables_simple(1)] show ?thesis using ClsRange Some x by (simp add: closerTurn_def Let_def)
    qed
  next
    case (ClsUnsub r due seen)
    let ?b' = "?b\<lparr>topicsMgr := fst (mtUnsubscribe (stopic (sheap ?b r)) (subPtr r) (topicsMgr ?b))\<rparr>"
    note u = unsubscribe_tables [OF tables, of ?b' r]
    have "closerOk c ?b' (set (late s)) (ClsRange due seen)" using cl ClsUnsub by (auto simp: u(2))
    moreover have "workerOk c ?b' (worker s)" using w by (cases "worker s") (auto simp: u(2) split: subStmt.splits)
    ultimately show ?thesis using u mine ClsUnsub by (simp add: closerTurn_def race_ok_def Let_def)
  next
    case ClsOver
    then show ?thesis using assms by (simp add: closerTurn_def Let_def)
  qed
qed

text \<open>What is stored late is one of the subscriptions made since the start.\<close>

definition race_new :: "subref \<Rightarrow> subRace \<Rightarrow> bool" where
  "race_new n s =
     (n \<le> snext (held s) \<and> (\<forall>r \<in> set (late s). n \<le> r) \<and> (\<forall>r. inHand (worker s) = Some r \<longrightarrow> n \<le> r))"

lemma race_new_same: "same_tables c (held s) b' \<Longrightarrow> race_new n s \<Longrightarrow> inHand w = None \<Longrightarrow> race_new n (s\<lparr>held := b', worker := w\<rparr>)"
  by (simp add: race_new_def same_tables_def)

lemma worker_race_new:
  assumes "race_new n s"
  shows "race_new n (workerTurn env c topics qoss s)"
proof (cases "worker s")
  case (SubTopic todo codes)
  show ?thesis
  proof (cases todo)
    case (Cons x rest)
    obtain i t where x: "x = (i, t)" by (cases x)
    obtain b1 a where a: "brokerTopicAuth env aSUB (cheap (held s) c) t (held s) = (b1, a)"
      by (cases "brokerTopicAuth env aSUB (cheap (held s) c) t (held s)")
    obtain v where b1: "b1 = held s\<lparr>bauth := v\<rparr>" using topicAuth_eq [OF a] by blast
    have s1: "same_tables c (held s) b1" by (simp add: b1 same_tables_simple)
    note s2 = same_tables_trans [OF s1 same_tables_simple(3)]
    show ?thesis
      using race_new_same [OF s1 assms] race_new_same [OF s2 assms] SubTopic Cons x a
      by (auto simp: workerTurn_def Let_def split: option.split)
  qed (use assms SubTopic in \<open>simp add: workerTurn_def race_new_def\<close>)
next
  case (SubAt op i t sgt rest codes)
  show ?thesis
  proof (cases op)
    case StEnter
    show ?thesis
    proof (cases "nthOpt qoss i")
      case (Some q)
      obtain sh grp topic where sgt: "sgt = (sh, grp, topic)" by (cases sgt)
      obtain b1 r res where e: "enterSub c topic q sh grp (held s) = (b1, r, res)" by (cases "enterSub c topic q sh grp (held s)")
      have "r = snext (held s)" "snext b1 = snext (held s) + 1"
        using enterSub_eqs(1,2) [OF e] by (simp_all add: allocSub_def)
      with assms SubAt StEnter Some sgt e show ?thesis
        by (cases res) (auto simp: workerTurn_def race_new_def Let_def)
    qed (use assms SubAt StEnter in \<open>simp add: workerTurn_def race_new_def crash_def\<close>)
  next
    case (StStore r q rq)
    then show ?thesis
      using assms SubAt by (auto simp: workerTurn_def race_new_def Let_def onClientSession_def upd_def crash_def split: option.split)
  qed (use assms SubAt in \<open>simp_all add: workerTurn_def race_new_def upd_def Let_def\<close>)
qed (use assms in \<open>simp_all add: workerTurn_def race_new_def Let_def\<close>)

lemma closer_race_new:
  assumes "race_new n s"
  shows "race_new n (closerTurn env c choice s)"
proof -
  have "snext (held (closerTurn env c choice s)) = snext (held s)"
    by (cases "closer s")
      (simp_all add: closerTurn_def Let_def bridgePublish_def emit_def upd_def closeConn_def removeClient_def split: option.split ctype.split prod.split)
  moreover have "late (closerTurn env c choice s) = late s" "worker (closerTurn env c choice s) = worker s"
    by (cases "closer s"; simp add: closerTurn_def Let_def split: option.split)+
  ultimately show ?thesis using assms by (simp add: race_new_def)
qed

lemma raced_ok:
  assumes "binv {} b" "ctyp (cheap b c) = CLIENT" "status (cheap b c) \<noteq> Disconnected"
  shows "race_ok c (raced env c topics qoss b ws) \<and> race_new (snext b) (raced env c topics qoss b ws)"
  unfolding raced_def
proof (induction ws rule: rev_induct)
  case Nil
  have subs: "subs_inv b" using assms(1) by (simp add: binv_def)
  then have own: "own_subs b c" by (simp add: subs_inv_def)
  have "tables_ok c b"
    using subs subs_inv_entry [OF subs] by (auto simp: tables_ok_def subs_inv_def entered_def)
  moreover have "\<exists>t. entry b c t = Some r" if r: "indexed b r" "sclient (sheap b r) = c" for r
  proof -
    obtain fs where "entered b fs r" using r(1) subs_inv_entry [OF subs] by (auto simp: indexed_def)
    then have "\<exists>t. (t, r) \<in> set (subMap (cheap b c))" using r(2) assms(2) by (simp add: entered_def owned_def Let_def)
    with own show ?thesis by (auto simp: own_subs_def go_map)
  qed
  ultimately show ?case using assms(3) by (simp add: race_ok_def race_new_def)
next
  case (snoc x ws)
  then show ?case
    by (cases x) (simp_all add: subStep_def worker_race_ok worker_race_new closer_race_ok closer_race_new)
qed

section \<open>Undisturbed, the turns are the handlers\<close>

abbreviation closes :: "env \<Rightarrow> cref \<Rightarrow> string list \<Rightarrow> byte list \<Rightarrow> nat \<Rightarrow> subRace \<Rightarrow> subRace" where
  "closes env c topics qoss n s \<equiv> foldl (subStep env c topics qoss) s (replicate n (Closer None))"

lemma closes_range:
  assumes "closer s = ClsRange (map fst m2) seen" "subMap (cheap (held s) c) = m1 @ m2"
    and "distinct (map fst (m1 @ m2))" "\<not> crashed (held s)"
  shows "closes env c topics qoss (2 * length m2 + 1) s = s\<lparr>held := unsubscribeAll m2 (held s), closer := ClsOver\<rparr>"
  using assms
proof (induction m2 arbitrary: s m1 seen)
  case Nil
  have "filter (\<lambda>x. fst x \<in> set []) m1 = []" by simp
  with Nil show ?case
    by (cases s) (simp add: subStep_def closerTurn_def rangeNext_def unsubscribeAll_def Let_def)
next
  case (Cons x m2)
  obtain t r where x: "x = (t, r)" by (cases x)
  let ?b1 = "held s\<lparr>topicsMgr := fst (mtUnsubscribe (stopic (sheap (held s) r)) (subPtr r) (topicsMgr (held s)))\<rparr>"
  let ?s1 = "s\<lparr>held := ?b1, closer := ClsRange (map fst m2) (t # seen)\<rparr>"
  have first: "filter (\<lambda>y. fst y = t \<or> fst y \<in> fst ` set m2) m1 = []"
    using Cons.prems(3) x by (auto simp: filter_empty_conv)
  have due: "removeAll t (map fst m2) = map fst m2" using Cons.prems(3) x by simp
  have turn1: "subStep env c topics qoss s (Closer None) = s\<lparr>closer := ClsUnsub r (map fst m2) (t # seen)\<rparr>"
    using Cons.prems first x by (simp add: subStep_def closerTurn_def rangeNext_def Let_def due)
  have turn2: "subStep env c topics qoss (s\<lparr>closer := ClsUnsub r (map fst m2) (t # seen)\<rparr>) (Closer None) = ?s1"
    using Cons.prems by (cases s) (simp add: subStep_def closerTurn_def Let_def)
  have "closes env c topics qoss (2 * length m2 + 1) ?s1
      = ?s1\<lparr>held := unsubscribeAll m2 (held ?s1), closer := ClsOver\<rparr>"
  proof (rule Cons.IH)
    show "subMap (cheap (held ?s1) c) = (m1 @ [x]) @ m2" "distinct (map fst ((m1 @ [x]) @ m2))" "\<not> crashed (held ?s1)"
      using Cons.prems by simp_all
  qed simp
  moreover have "closes env c topics qoss (2 * length (x # m2) + 1) s = closes env c topics qoss (2 * length m2 + 1) ?s1"
    by (simp add: turn1 turn2)
  ultimately show ?case by (cases s) (simp add: unsubscribeAll_def x)
qed

text \<open>The closer alone does what \<open>closeSelf\<close> does.\<close>

lemma closer_alone:
  assumes "closer s = ClsStatus" "status (cheap (held s) c) \<noteq> Disconnected" "own_subs (held s) c" "\<not> crashed (held s)"
  shows "closes env c topics qoss (2 * length (subMap (cheap (held s) c)) + 4) s
    = s\<lparr>held := closeSelf env c (held s), closer := ClsOver\<rparr>"
proof -
  define b1 where "b1 = upd c (\<lambda>x. x\<lparr>cancelled := True, status := Disconnected\<rparr>) (held s)"
  define b2 where "b2 = bridgePublish (element (cheap b1 c) bDisconnect (now env) [] []) b1"
  define b3 where "b3 = closeConn c b2"
  define b4 where "b4 = removeClient c b3"
  let ?m = "subMap (cheap (held s) c)"
  have crash: "crashed b2 = crashed (held s)" "crashed b4 = crashed (held s)"
    by (auto simp: b4_def b3_def b2_def b1_def upd_def bridgePublish_def emit_def closeConn_def removeClient_def Let_def
        split: option.split ctype.split)
  have same: "same_tables c (held s) b3" "same_tables c b3 b4"
    unfolding b4_def b3_def b2_def b1_def
    by (rule same_tables_trans [OF same_tables_trans [OF same_tables_simple(8) same_tables_simple(3)] same_tables_simple(6)])
      (rule same_tables_simple(7))
  then have m: "subMap (cheap b3 c) = ?m" "subMap (cheap b4 c) = ?m" by (simp_all add: same_tables_def)
  let ?s1 = "s\<lparr>closer := ClsMark\<rparr>" and ?s2 = "s\<lparr>held := b2, closer := ClsShut\<rparr>"
    and ?s3 = "s\<lparr>held := b4, closer := ClsRange (map fst ?m) []\<rparr>"
  have "subStep env c topics qoss s (Closer None) = ?s1"
    using assms by (simp add: subStep_def closerTurn_def)
  moreover have "subStep env c topics qoss ?s1 (Closer None) = ?s2"
    using assms by (simp add: subStep_def closerTurn_def b2_def b1_def Let_def)
  moreover have "subStep env c topics qoss ?s2 (Closer None) = ?s3"
    using assms m(1) by (simp add: subStep_def closerTurn_def b4_def b3_def Let_def crash(1))
  ultimately have "closes env c topics qoss (2 * length ?m + 4) s = closes env c topics qoss (2 * length ?m + 1) ?s3"
    by (simp add: numeral_eq_Suc)
  moreover have "closes env c topics qoss (2 * length ?m + 1) ?s3 = ?s3\<lparr>held := unsubscribeAll ?m (held ?s3), closer := ClsOver\<rparr>"
    using assms(3,4) by (intro closes_range [of _ _ _ _ "[]"]) (simp_all add: m crash own_subs_def distinct_keys_def)
  moreover have "closeSelf env c (held s) = unsubscribeAll (subMap (cheap b3 c)) b4"
    by (simp add: closeSelf_def b4_def b3_def b2_def b1_def Let_def)
  then have "closeSelf env c (held s) = unsubscribeAll ?m b4" by (simp only: m(1))
  ultimately show ?thesis by simp
qed

abbreviation works :: "env \<Rightarrow> cref \<Rightarrow> string list \<Rightarrow> byte list \<Rightarrow> nat \<Rightarrow> subRace \<Rightarrow> subRace" where
  "works env c topics qoss n s \<equiv> foldl (subStep env c topics qoss) s (replicate n Worker)"

lemma works_add: "works env c topics qoss (m + n) s = works env c topics qoss n (works env c topics qoss m s)"
  by (simp add: replicate_add)

text \<open>What \<open>clientSubscribeTopic\<close> does once the earlier subscription is gone.\<close>

definition enterTopic :: "cref \<Rightarrow> byte list \<Rightarrow> nat \<Rightarrow> string \<Rightarrow> bool \<times> string \<times> string \<Rightarrow> byte list \<Rightarrow> broker \<Rightarrow> broker \<times> byte list" where
  "enterTopic c qoss i t sgt codes b3 =
     (case sgt of (sh, grp, topic) \<Rightarrow>
        case nthOpt qoss i of
          None \<Rightarrow> (crash b3, codes)
        | Some q \<Rightarrow>
            (case enterSub c topic q sh grp b3 of
               (b4, r, None) \<Rightarrow> (b4, codes @ [QosFailure])
             | (b4, r, Some rq) \<Rightarrow>
                 (let b5 = upd c (\<lambda>x. x\<lparr>subMap := AList.update t r (subMap x)\<rparr>) b4;
                      b6 = onClientSession c (\<lambda>s. fst (AddTopic t q s)) b5;
                      b7 = upd c (\<lambda>x. x\<lparr>rmsgs := fst (mtRetained topic (topicsMgr b6) (rmsgs x))\<rparr>) b6
                  in (b7, codes @ [rq]))))"

lemma enter_alone:
  assumes "worker s = SubAt StEnter i t sgt rest codes" "closer s = ClsStatus" "\<not> crashed (held s)"
    and "enterTopic c qoss i t sgt codes (held s) = (b', codes')"
  shows "\<exists>n. held (works env c topics qoss n s) = b'
    \<and> (crashed b' \<or> works env c topics qoss n s = s\<lparr>held := b', worker := SubTopic rest codes'\<rparr>)"
proof -
  let ?step = "subStep env c topics qoss"
  obtain sh grp topic where sgt: "sgt = (sh, grp, topic)" by (cases sgt)
  show ?thesis
  proof (cases "nthOpt qoss i")
    case None
    then have "held (?step s Worker) = b'" "crashed b'"
      using assms sgt by (auto simp: subStep_def workerTurn_def enterTopic_def crash_def Let_def)
    then show ?thesis by (intro exI [of _ 1]) simp
  next
    case (Some q)
    obtain b4 r res where e: "enterSub c topic q sh grp (held s) = (b4, r, res)" by (cases "enterSub c topic q sh grp (held s)")
    have up4: "\<not> crashed b4" using enterSub_eqs(2) [OF e] assms(3) by (simp add: allocSub_def)
    show ?thesis
    proof (cases res)
      case None
      then have "?step s Worker = s\<lparr>held := b', worker := SubTopic rest codes'\<rparr>"
        using assms sgt Some e by (auto simp: subStep_def workerTurn_def enterTopic_def Let_def)
      then show ?thesis by (intro exI [of _ 1]) simp
    next
      case res: (Some rq)
      let ?s1 = "s\<lparr>held := b4, worker := SubAt (StStore r q rq) i t sgt rest codes\<rparr>"
      have one: "?step s Worker = ?s1" using assms sgt Some e res by (simp add: subStep_def workerTurn_def Let_def)
      have "?step ?s1 Worker = s\<lparr>held := b', worker := SubTopic rest codes'\<rparr>"
        using up4 assms sgt Some e res by (cases s) (simp add: subStep_def workerTurn_def enterTopic_def Let_def)
      then show ?thesis by (intro exI [of _ 2]) (simp add: numeral_2_eq_2 one)
    qed
  qed
qed

text \<open>The worker alone treats a topic as \<open>clientSubscribeTopic\<close> does.\<close>

lemma drop_alone:
  assumes "worker s = SubAt (case entry b c t of None \<Rightarrow> StEnter | Some old \<Rightarrow> StRemove old) i t sgt rest codes"
    and "held s = b" "closer s = ClsStatus" "\<not> crashed b"
    and "b3 = (case entry b c t of None \<Rightarrow> b | Some old \<Rightarrow> dropSub c t old b)"
  shows "\<exists>n. works env c topics qoss n s = s\<lparr>held := b3, worker := SubAt StEnter i t sgt rest codes\<rparr>"
proof (cases "entry b c t")
  case None
  then show ?thesis using assms by (intro exI [of _ 0]; cases s) simp
next
  case (Some old)
  let ?step = "subStep env c topics qoss"
  let ?b = "b\<lparr>topicsMgr := fst (mtUnsubscribe (stopic (sheap b old)) (subPtr old) (topicsMgr b))\<rparr>"
  let ?s1 = "s\<lparr>held := ?b, worker := SubAt StDelete i t sgt rest codes\<rparr>"
  have one: "?step s Worker = ?s1" using assms Some by (simp add: subStep_def workerTurn_def Let_def)
  have "?step ?s1 Worker = s\<lparr>held := b3, worker := SubAt StEnter i t sgt rest codes\<rparr>"
    using assms Some by (cases s) (simp add: subStep_def workerTurn_def dropSub_def Let_def)
  then show ?thesis by (intro exI [of _ 2]) (simp add: numeral_2_eq_2 one)
qed

lemma worker_topic_alone:
  assumes "worker s = SubTopic ((i, t) # rest) codes" "closer s = ClsStatus" "\<not> crashed (held s)"
    and "clientSubscribeTopic env c qoss (held s, codes) (i, t) = (b', codes')"
  obtains n where "held (works env c topics qoss n s) = b'"
    "\<not> crashed b' \<Longrightarrow> works env c topics qoss n s = s\<lparr>held := b', worker := SubTopic rest codes'\<rparr>"
proof -
  let ?step = "subStep env c topics qoss"
  obtain b1 a where a: "brokerTopicAuth env aSUB (cheap (held s) c) t (held s) = (b1, a)"
    by (cases "brokerTopicAuth env aSUB (cheap (held s) c) t (held s)")
  obtain v where b1: "b1 = held s\<lparr>bauth := v\<rparr>" using topicAuth_eq [OF a] by blast
  define b2 where "b2 = bridgePublish (element (cheap b1 c) bSubscribe (now env) [] t) b1"
  define b3 where "b3 = (case entry b2 c t of None \<Rightarrow> b2 | Some old \<Rightarrow> dropSub c t old b2)"
  have up: "\<not> crashed b2" "\<not> crashed b3"
    using assms(3) by (simp_all add: b3_def b2_def b1 bridgePublish_def emit_def dropSub_def upd_def split: option.split)
  consider "\<not> a" | "a" "splitShare t = None" | sgt where "a" "splitShare t = Some sgt" by blast
  then show thesis
  proof cases
    case (3 sgt)
    let ?s1 = "s\<lparr>held := b2, worker := SubAt (case entry b2 c t of None \<Rightarrow> StEnter | Some old \<Rightarrow> StRemove old) i t sgt rest codes\<rparr>"
    let ?s2 = "s\<lparr>held := b3, worker := SubAt StEnter i t sgt rest codes\<rparr>"
    have one: "?step s Worker = ?s1" using assms(1,3) 3 a by (simp add: subStep_def workerTurn_def b2_def Let_def)
    have "\<exists>n. works env c topics qoss n ?s1 = ?s1\<lparr>held := b3, worker := SubAt StEnter i t sgt rest codes\<rparr>"
      by (rule drop_alone [OF _ _ _ up(1) b3_def]) (use assms(2) in simp_all)
    then obtain n where n: "works env c topics qoss n ?s1 = ?s2" by auto
    have "enterTopic c qoss i t sgt codes b3 = (b', codes')"
      using assms(4) a 3 unfolding b3_def b2_def clientSubscribeTopic_def enterTopic_def Let_def by (cases sgt) simp
    then have "\<exists>n. held (works env c topics qoss n ?s2) = b'
        \<and> (crashed b' \<or> works env c topics qoss n ?s2 = ?s2\<lparr>held := b', worker := SubTopic rest codes'\<rparr>)"
      using assms(2) up by (intro enter_alone) simp_all
    then obtain m where m: "held (works env c topics qoss m ?s2) = b'"
      "\<not> crashed b' \<Longrightarrow> works env c topics qoss m ?s2 = ?s2\<lparr>held := b', worker := SubTopic rest codes'\<rparr>" by blast
    have "works env c topics qoss (1 + n + m) s = works env c topics qoss m ?s2"
      by (simp only: works_add n) (simp add: one n)
    with m show thesis by (intro that [of "1 + n + m"]) simp_all
  qed (use assms a that [of 1] in \<open>auto simp: subStep_def workerTurn_def clientSubscribeTopic_def Let_def\<close>)
qed

section \<open>Closing a client that is subscribing\<close>

text \<open>
  C19. A client can be closed while a worker processes its SUBSCRIBE. Whatever the interleaving, once
  both are done every subscription the client had before is out of the index. One made meanwhile can
  stay: only if it was stored in the client's table after the loop that empties the index had begun,
  and then it is still listed there, where nobody looks again. A schedule that leaves one behind exists.
\<close>

theorem closing_races_subscribing:
  assumes "reachable (NewBroker bid cport router workers auth bridge metrics) b" "workers < 2 ^ 64"
    and "ctyp (cheap b c) = CLIENT" "status (cheap b c) \<noteq> Disconnected"
    and "s = raced env c topics qoss b ws" "worker s = SubOver codes" "closer s = ClsOver"
    and "(fs, subPtr r) \<in> mt_subs (topicsMgr (held s))" "sclient (sheap (held s) r) = c"
  shows "snext b \<le> r \<and> r \<in> set (late s) \<and> (\<exists>t. (t, r) \<in> set (subMap (cheap (held s) c)))
    \<and> (\<exists>ws. let s = raced calm 0 [''a''] [QosAtLeastOnce] oneClient ws
            in worker s = SubOver [QosAtLeastOnce] \<and> closer s = ClsOver \<and> status (cheap (held s) 0) = Disconnected
              \<and> snd (fst (mtSubscribers ''a'' QosAtMostOnce (topicsMgr (held s)) ([], []))) = [QosAtMostOnce])"
proof -
  have ok: "race_ok c s" "race_new (snext b) s"
    using raced_ok [OF reachable_binv [OF assms(1,2)] assms(3,4)] assms(5) by blast+
  have "indexed (held s) r" using assms(8) by (auto simp: indexed_def)
  then obtain t where t: "entry (held s) c t = Some r" using ok(1) assms(6,9) by (auto simp: race_ok_def Let_def)
  then have "r \<in> set (late s)"
    using ok(1) assms(7) \<open>indexed (held s) r\<close> by (auto simp: race_ok_def Let_def)
  moreover from this have "snext b \<le> r" using ok(2) by (simp add: race_new_def)
  moreover have "(t, r) \<in> set (subMap (cheap (held s) c))" using t by (rule map_of_SomeD)
  moreover have "\<exists>ws. let s = raced calm 0 [''a''] [QosAtLeastOnce] oneClient ws
      in worker s = SubOver [QosAtLeastOnce] \<and> closer s = ClsOver \<and> status (cheap (held s) 0) = Disconnected
        \<and> snd (fst (mtSubscribers ''a'' QosAtMostOnce (topicsMgr (held s)) ([], []))) = [QosAtMostOnce]"
    by (rule exI [of _ "[Worker, Closer None, Closer None, Closer None, Closer None, Worker, Worker, Worker, Worker]"]) code_simp
  ultimately show ?thesis by blast
qed

text \<open>The worker has tested the status, then the closer runs to its end, then the worker goes on.\<close>

lemma closing_races_subscribing_witness:
  "let s = raced calm 0 [''a''] [QosAtLeastOnce] oneClient
       [Worker, Closer None, Closer None, Closer None, Closer None, Worker, Worker, Worker, Worker]
   in 0 \<in> set (late s) \<and> (\<exists>t. (t, 0) \<in> set (subMap (cheap (held s) 0)))"
proof -
  let ?s = "raced calm 0 [''a''] [QosAtLeastOnce] oneClient
       [Worker, Closer None, Closer None, Closer None, Closer None, Worker, Worker, Worker, Worker]"
  have c: "ctyp (cheap oneClient 0) = CLIENT" "status (cheap oneClient 0) \<noteq> Disconnected"
    by (simp_all add: one_client initClient_def)
  have over: "worker ?s = SubOver [QosAtLeastOnce]" "closer ?s = ClsOver" by code_simp+
  have left: "([''a''], subPtr 0) \<in> mt_subs (topicsMgr (held ?s))" "sclient (sheap (held ?s) 0) = 0" by code_simp+
  show ?thesis using closing_races_subscribing [OF reach_new(2) _ c refl over left] by (simp add: Let_def)
qed

end
