(* ===== verification/Cluster_Link.thy ===== *)
theory Cluster_Link
  imports Message_Properties
begin

text \<open>
  Brokers put together: what one writes to a connection the other reads from it, in the order it was
  written. A broker accepts the connections of others as ROUTER clients and dials them as REMOTE
  clients; subscriptions go out over the first and publications over the second. The network between
  two brokers is reliable here: a write that succeeded is read once. The moves interleave freely.
\<close>

section \<open>A mesh of brokers\<close>

text \<open>
  \<open>cables\<close> says for the client \<open>c\<close> of broker \<open>i\<close> which broker is at the other end, and on
  which of its connections it writes; \<open>heard\<close> counts the packets that were read so far.
\<close>

record mesh =
  members :: "broker list"
  cables :: "((nat \<times> cref) \<times> (nat \<times> connId)) list"
  heard :: "nat \<times> cref \<Rightarrow> nat"

fun onWire :: "connId \<Rightarrow> effect list \<Rightarrow> controlPacket list" where
  "onWire k [] = []"
| "onWire k (Wrote k' p ok # es) = (if k' = k \<and> ok then p # onWire k es else onWire k es)"
| "onWire k (_ # es) = onWire k es"

text \<open>A broker takes a step of its own, or reads the next packet the broker at the other end wrote.\<close>

datatype move = Local nat event | Carry nat cref

definition meshStep :: "env \<Rightarrow> move \<Rightarrow> mesh \<Rightarrow> mesh option" where
  "meshStep env mv s =
     (case mv of
        Local i e \<Rightarrow>
          if i < length (members s)
             \<and> (case e of EvRead c (ReadPacket p) \<Rightarrow> map_of (cables s) (i, c) = None | _ \<Rightarrow> True)
          then map_option (\<lambda>b. s\<lparr>members := (members s)[i := b]\<rparr>) (handleEvent env e (members s ! i))
          else None
      | Carry i c \<Rightarrow>
          (case map_of (cables s) (i, c) of
             None \<Rightarrow> None
           | Some (j, k) \<Rightarrow>
               (case nthOpt (onWire k (trace (members s ! j))) (heard s (i, c)) of
                  None \<Rightarrow> None
                | Some p \<Rightarrow>
                    map_option (\<lambda>b. s\<lparr>members := (members s)[i := b], heard := (heard s)((i, c) := heard s (i, c) + 1)\<rparr>)
                      (handleEvent env (EvRead c (ReadPacket p)) (members s ! i)))))"

fun meshRun :: "env \<Rightarrow> move list \<Rightarrow> mesh \<Rightarrow> mesh option" where
  "meshRun env [] s = Some s"
| "meshRun env (m # ms) s = (case meshStep env m s of None \<Rightarrow> None | Some s1 \<Rightarrow> meshRun env ms s1)"

lemma meshRun_append:
  "meshRun env (xs @ ys) s = (case meshRun env xs s of None \<Rightarrow> None | Some s1 \<Rightarrow> meshRun env ys s1)"
  by (induction xs arbitrary: s) (auto split: option.split)

lemma meshRun_then: "meshRun env xs s = Some s1 \<Longrightarrow> meshRun env ys s1 = res \<Longrightarrow> meshRun env (xs @ ys) s = res"
  by (simp add: meshRun_append)

section \<open>Writing when the network takes everything\<close>

definition took :: "effect list \<Rightarrow> bool" where
  "took es = list_all (\<lambda>e. case e of Wrote k p ok \<Rightarrow> ok | _ \<Rightarrow> True) es"

lemma took_append [simp]: "took (xs @ ys) = (took xs \<and> took ys)" "took []"
  by (simp_all add: took_def)

lemma onWire_append [simp]: "onWire k (xs @ ys) = onWire k xs @ onWire k ys"
  by (induction k xs rule: onWire.induct) auto

lemma onWire_took: "took es \<Longrightarrow> onWire k es = map snd (filter (\<lambda>x. fst x = k) (sent es))"
  by (induction k es rule: onWire.induct) (auto simp: took_def)

text \<open>What an operation adds to the trace, all of it taken by the network.\<close>

definition passes :: "broker \<Rightarrow> broker \<Rightarrow> bool" where
  "passes b b' = (\<exists>es. trace b' = trace b @ es \<and> took es)"

lemma passes_refl [simp]: "passes b b"
  by (simp add: passes_def took_def)

lemma passes_trans: "passes a b \<Longrightarrow> passes b c \<Longrightarrow> passes a c"
  unfolding passes_def by (metis append.assoc took_append)

lemma passes_same: "trace b' = trace b \<Longrightarrow> passes b b'"
  by (simp add: passes_def took_def)

lemma passes_write:
  assumes "ready b" "writeOk env = (\<lambda>_. True)"
  shows "passes b (fst (writePacket env c p b))"
  using assms by (simp add: writePacket_def WriterPacket_ready rawWrite_def passes_def took_def emit_def Let_def)

lemma passes_publish:
  assumes "ready b" "writeOk env = (\<lambda>_. True)"
  shows "passes b (publish env (writePacket env) r p b)"
proof -
  let ?c = "sclient (sheap b r)"
  have "delivers b (upd ?c (trackInflight (now env) p) b)" by (rule delivers_upd) simp
  from passes_write [OF ready_delivers [OF assms(1) this] assms(2), of ?c "PublishP p"]
  have "passes b (fst (writePacket env ?c (PublishP p) (upd ?c (trackInflight (now env) p) b)))" by (simp add: passes_def)
  then show ?thesis using passes_write [OF assms, of ?c "PublishP p"] by (simp add: publish_def passes_def Let_def)
qed

lemma passes_deliverAll:
  assumes "ready b" "writeOk env = (\<lambda>_. True)"
  shows "passes b (fst (foldl (deliverTo env (writePacket env) ty p) (b, q) subs))"
  using assms(1)
proof (induction subs arbitrary: b q)
  case Nil
  then show ?case by simp
next
  case (Cons s subs)
  obtain b1 q1 where step: "deliverTo env (writePacket env) ty p (b, q) s = (b1, q1)"
    by (cases "deliverTo env (writePacket env) ty p (b, q) s")
  have d: "delivers b b1" using deliverTo_delivers [OF quiet_writePacket Cons.prems, of env env ty p q s] step by simp
  have "passes b b1" using step passes_publish [OF Cons.prems assms(2)]
    by (auto simp: deliverTo_def Let_def split: option.splits if_splits)
  with Cons.IH [OF ready_delivers [OF Cons.prems d], of q1] show ?case by (simp add: step passes_trans)
qed

lemma passes_PPM:
  assumes "ready b" "writeOk env = (\<lambda>_. True)"
  shows "passes b (ProcessPublishMessage env (writePacket env) c p b)"
proof -
  let ?b1 = "retainIn p b"
  obtain out err where s: "mtSubscribers (TopicName p) (Qos p) (topicsMgr ?b1) (foundSubs (cheap b c)) = (out, err)"
    by (cases "mtSubscribers (TopicName p) (Qos p) (topicsMgr ?b1) (foundSubs (cheap b c))")
  let ?b2 = "upd c (\<lambda>x. x\<lparr>foundSubs := out\<rparr>) ?b1"
  have 2: "delivers ?b1 ?b2" by (rule delivers_upd) simp
  have ready2: "ready ?b2" using assms(1) by (intro ready_delivers [OF _ 2]) (simp add: ready_def)
  obtain b3 q where f: "foldl (deliverTo env (writePacket env) (ctyp (cheap b c)) p) (?b2, []) (fst out) = (b3, q)"
    by (cases "foldl (deliverTo env (writePacket env) (ctyp (cheap b c)) p) (?b2, []) (fst out)")
  have same: "passes b ?b2" by (rule passes_same) simp
  have "delivers ?b2 b3"
    using deliverAll_delivers [OF quiet_writePacket ready2, of env env "ctyp (cheap b c)" p "[]" "fst out"] f by simp
  then have ready3: "ready b3" by (rule ready_delivers [OF ready2])
  have 3: "passes b b3"
    using passes_trans [OF same passes_deliverAll [OF ready2 assms(2), of "ctyp (cheap b c)" p "[]" "fst out"]] by (simp add: f)
  have "passes b (publish env (writePacket env) r p b3)" for r using 3 passes_publish [OF ready3 assms(2)] by (rule passes_trans)
  with 3 same s f show ?thesis
    by (simp add: ProcessPublishMessage_def retainIn_def [symmetric] Let_def)
qed

section \<open>A publication that comes from another broker\<close>

lemma retain_emit: "retainIn p (emit e b) = emit e (retainIn p b)"
  by (simp add: retainIn_def emit_def)

text \<open>It is acknowledged when it asks for it and goes to the subscribers that are not routers.\<close>

lemma router_publish:
  assumes "binv {} b" "ctyp (cheap b c) = ROUTER" "status (cheap b c) \<noteq> Disconnected" "writeOk env = (\<lambda>_. True)"
    and "Qos p = QosAtMostOnce \<or> Qos p = QosAtLeastOnce" "topicLevels (TopicName p) = Inr ts"
    and "b' = processPacket env c (PublishP p) b"
    and "acks = (if Qos p = QosAtLeastOnce then [(the (conn (cheap b c)), PubackP (MessageID p))] else [])"
  shows "\<exists>ms. sent (trace b') = sent (trace b) @ acks @ ms \<and> forwards env b ROUTER ts p ms"
    "passes b b'" "delivers (retainIn p b) b'" "binv {} b'"
proof -
  have q: "ValidQos (Qos p)" using assms(5) by (auto simp: ValidQos_def qos_defs)
  have ready: "ready b" using assms(1) by (rule binv_ready)
  have "binv {} (processRouterPublish env c p b)" using assms(1) by (rule processRouterPublish_binv)
  then show "binv {} b'" by (simp add: assms(2,7) processPacket_def ProcessPublish_def)
  obtain b1 err where w: "writePacket env c (PubackP (MessageID p)) b = (b1, err)"
    by (cases "writePacket env c (PubackP (MessageID p)) b")
  then have b1: "b1 = emit (Wrote (the (conn (cheap b c))) (PubackP (MessageID p)) True) b" "err = False"
    using writePacket_ready [OF ready assms(3)] assms(4) by auto
  have run: "b' = (if Qos p = QosAtMostOnce then ProcessPublishMessage env (writePacket env) c p b
      else ProcessPublishMessage env (writePacket env) c p b1)"
    using assms(3,5) w b1(2) by (auto simp: assms(2,7) processPacket_def ProcessPublish_def processRouterPublish_def)
  have ready1: "ready b1" using ready by (simp add: b1 ready_def emit_def)
  have "passes b b1" by (simp add: b1 passes_def emit_def took_def)
  then show "passes b b'"
    using passes_PPM [OF ready assms(4)] passes_trans [OF _ passes_PPM [OF ready1 assms(4)]] by (simp add: run)
  have "only_trace (retainIn p b) (retainIn p b1)" unfolding b1(1) retain_emit by (rule only_trace_emit)
  from delivers_trans [OF delivers_only_trace [OF this] ProcessPublishMessage_delivers [OF quiet_writePacket ready1]]
  show "delivers (retainIn p b) b'"
    using ProcessPublishMessage_delivers [OF quiet_writePacket ready] by (simp add: run)
  show "\<exists>ms. sent (trace b') = sent (trace b) @ acks @ ms \<and> forwards env b ROUTER ts p ms"
  proof (cases "Qos p = QosAtMostOnce")
    case True
    then have "acks = []" by (simp add: assms(8) qos_defs)
    with True ProcessPublishMessage_forwards [OF assms(1) q assms(6), of env c] show ?thesis by (simp add: run assms(2))
  next
    case False
    then have "Qos p = QosAtLeastOnce" using assms(5) by simp
    with False acknowledged_forward [OF assms(1,3) q assms(6) w] assms(4) show ?thesis
      by (auto simp: run b1(2) assms(2,8))
  qed
qed

section \<open>A hop\<close>

text \<open>A broker with nothing to do, and one of its clients that is there to be read.\<close>

definition idle :: "broker \<Rightarrow> bool" where
  "idle b = (binv {} b \<and> \<not> crashed b \<and> metricsOn b \<and> list_all (\<lambda>q. q = []) (taskQueue (wpool b)))"

definition listening :: "ctype \<Rightarrow> broker \<Rightarrow> cref \<Rightarrow> bool" where
  "listening ty b c =
     (c < cnext b \<and> ctyp (cheap b c) = ty \<and> status (cheap b c) \<noteq> Disconnected \<and> reading (cheap b c)
      \<and> \<not> cancelled (cheap b c))"

lemma handleEvent_work:
  "\<not> crashed b \<Longrightarrow> takeTask i (wpool b) = Some (m, p) \<Longrightarrow>
   handleEvent env (EvWork i) b = Some (ProcessMessage env m (b\<lparr>wpool := p\<rparr>))"
  by (simp add: handleEvent_def)

lemma idle_read:
  assumes "idle b" "listening ty b c" "ty \<noteq> CLUSTER" "\<not> isDisconnect p"
  obtains w b1 where "handleEvent env (EvRead c (ReadPacket p)) b = Some b1"
    "handleEvent env (EvWork w) b1 = Some (ProcessMessage env \<lparr>mclient = c, mpacket = p\<rparr> (counting (Inc MetricNumberOfMessages) b))"
proof -
  let ?m = "\<lparr>mclient = c, mpacket = p\<rparr>" and ?b = "counting (Inc MetricNumberOfMessages) b"
  let ?w = "poolIndex (hashString env) (clientID (cheap b c)) (wpool b)"
  have b: "binv {} b" "\<not> crashed b" "metricsOn b" using assms(1) by (simp_all add: idle_def)
  have inv: "pool_inv (wpool b)" using b(1) by (simp add: binv_def)
  have w: "?w < length (taskQueue (wpool b))" using poolIndex_less [OF inv] inv by (simp add: pool_inv_def)
  have none: "taskQueue (wpool b) ! ?w = []" using assms(1) w by (simp add: idle_def list_all_length)
  let ?p1 = "(wpool b)\<lparr>taskQueue := (taskQueue (wpool b))[?w := [?m]]\<rparr>"
  have "Submit (hashString env) (clientID (cheap b c)) (Some ?m) (wpool b) = Some ?p1"
    using none by (simp add: Submit_def chanSize_def Let_def)
  then have read: "handleEvent env (EvRead c (ReadPacket p)) b = Some (?b\<lparr>wpool := ?p1\<rparr>)"
    using assms(2-4) b
    by (simp add: handleEvent_def listening_def readTurn_def SubmitWork_def checkContext_def Let_def)
  have "(taskQueue (wpool b))[?w := []] = taskQueue (wpool b)" using none by (metis list_update_id)
  then have task: "takeTask ?w (wpool (?b\<lparr>wpool := ?p1\<rparr>)) = Some (?m, wpool b)" using w by (simp add: takeTask_def)
  have up: "\<not> crashed (?b\<lparr>wpool := ?p1\<rparr>)" using b(2) by simp
  have undo: "(?b\<lparr>wpool := ?p1\<rparr>)\<lparr>wpool := wpool b\<rparr> = ?b" by (simp add: counting_def)
  have "handleEvent env (EvWork ?w) (?b\<lparr>wpool := ?p1\<rparr>) = Some (ProcessMessage env ?m ?b)"
    using handleEvent_work [OF up task, of env] unfolding undo .
  with read show thesis by (rule that)
qed

text \<open>What a hop leaves alone.\<close>

definition same_mesh :: "broker \<Rightarrow> broker \<Rightarrow> bool" where
  "same_mesh b b' =
     (sheap b' = sheap b \<and> mt_subs (topicsMgr b') = mt_subs (topicsMgr b) \<and> cnext b' = cnext b
      \<and> (\<forall>d. same_core (cheap b d) (cheap b' d) \<and> reading (cheap b' d) = reading (cheap b d)
             \<and> cancelled (cheap b' d) = cancelled (cheap b d)))"

lemma same_mesh_trans: "same_mesh a b \<Longrightarrow> same_mesh b c \<Longrightarrow> same_mesh a c"
  unfolding same_mesh_def using same_core_trans by metis

lemma same_mesh_listening: "same_mesh b b' \<Longrightarrow> listening ty b' c = listening ty b c"
  by (simp add: same_mesh_def listening_def same_core_def)

lemma same_mesh_forwards: "same_mesh b b' \<Longrightarrow> forwards env b' ty ts p ms = forwards env b ty ts p ms"
proof -
  assume a: "same_mesh b b'"
  have "sendsTo b' d q = sendsTo b d q" for d q using a sendsTo_core by (simp add: same_mesh_def)
  moreover have "echoes b' ty r = echoes b ty r" for r
    using a by (simp add: echoes_def same_mesh_def same_core_def)
  ultimately show ?thesis using a by (simp add: forwards_def sendsAll_def subscribedTo_def same_mesh_def)
qed

lemma hop:
  assumes "idle b" "listening ROUTER b c" "writeOk env = (\<lambda>_. True)" "Qos p = QosAtMostOnce \<or> Qos p = QosAtLeastOnce"
    and "topicLevels (TopicName p) = Inr ts" "validatePacketFields (PublishP p)"
    and "acks = (if Qos p = QosAtLeastOnce then [(the (conn (cheap b c)), PubackP (MessageID p))] else [])"
  obtains w b1 b2 ms where "handleEvent env (EvRead c (ReadPacket (PublishP p))) b = Some b1"
    "handleEvent env (EvWork w) b1 = Some b2" "idle b2" "same_mesh b b2" "forwards env b ROUTER ts p ms"
    "\<And>k. onWire k (trace b2) = onWire k (trace b) @ map snd (filter (\<lambda>x. fst x = k) (acks @ ms))"
proof -
  let ?b = "counting (Inc MetricNumberOfMessages) b"
  let ?b2 = "processPacket env c (PublishP p) ?b"
  obtain w b1 where run: "handleEvent env (EvRead c (ReadPacket (PublishP p))) b = Some b1"
    "handleEvent env (EvWork w) b1 = Some (ProcessMessage env \<lparr>mclient = c, mpacket = PublishP p\<rparr> ?b)"
    by (rule idle_read [OF assms(1,2), where env = env and p = "PublishP p"]) simp_all
  have inv: "binv {} ?b" using assms(1) by (simp add: idle_def)
  have c: "ctyp (cheap ?b c) = ROUTER" "status (cheap ?b c) \<noteq> Disconnected"
    "acks = (if Qos p = QosAtLeastOnce then [(the (conn (cheap ?b c)), PubackP (MessageID p))] else [])"
    using assms(2,7) by (simp_all add: listening_def)
  note pub = router_publish [OF inv c(1,2) assms(3-5) refl c(3)]
  have keep: "same_mesh b ?b" by (simp add: same_mesh_def)
  have "same_mesh ?b ?b2"
  proof -
    have "subs_inv ?b" using inv by (simp add: binv_def)
    note ret = retainIn_topics [OF this]
    have "same_client (cheap ?b d) (cheap ?b2 d)" for d using delivers_same(18) [OF pub(3), of d] by simp
    then show ?thesis
      using delivers_same(1,2,7) [OF pub(3)] ret(2)
      by (auto simp: same_mesh_def same_client_core same_clientD)
  qed
  with keep have same: "same_mesh b ?b2" by (rule same_mesh_trans)
  have "metricsOn (retainIn p ?b) = metricsOn ?b" by (simp add: retainIn_def)
  then have "wpool ?b2 = wpool b" "crashed ?b2 = crashed b" "metricsOn ?b2 = metricsOn b"
    using delivers_same(9,11,17) [OF pub(3)] by simp_all
  then have idle: "idle ?b2" using assms(1) pub(4) by (simp add: idle_def)
  obtain ms where ms: "sent (trace ?b2) = sent (trace ?b) @ acks @ ms" "forwards env ?b ROUTER ts p ms" using pub(1) by blast
  obtain es where es: "trace ?b2 = trace b @ es" "took es" using pub(2) by (auto simp: passes_def)
  then have "sent es = acks @ ms" using ms(1) by simp
  with es have wire: "onWire k (trace ?b2) = onWire k (trace b) @ map snd (filter (\<lambda>x. fst x = k) (acks @ ms))" for k
    by (simp add: onWire_took)
  have "ProcessMessage env \<lparr>mclient = c, mpacket = PublishP p\<rparr> ?b = ?b2" using assms(6) by (simp add: ProcessMessage_def)
  with run same idle wire ms(2) same_mesh_forwards [OF keep] show thesis by (intro that) auto
qed

text \<open>Everything forwarded is the message, and every subscription that is not shared has its copy.\<close>

lemma forwards_packets: "forwards env b ty ts p ms \<Longrightarrow> x \<in> set ms \<Longrightarrow> snd x = PublishP p"
  by (auto simp: forwards_def sendsAll_def sendsTo_def split: if_splits)

lemma forwards_reach:
  assumes "forwards env b ty ts p ms" "r \<in> subscribedTo b ts" "\<not> echoes b ty r" "\<not> share (sheap b r)"
    and "status (cheap b (sclient (sheap b r))) \<noteq> Disconnected"
  shows "(the (conn (cheap b (sclient (sheap b r)))), PublishP p) \<in> set ms"
proof -
  obtain ds ss n where ms: "ms = sendsAll b p (ds @ chosen env n ss)"
    and ds: "set ds = {r \<in> subscribedTo b ts. \<not> echoes b ty r \<and> \<not> share (sheap b r)}"
    using assms(1) by (auto simp: forwards_def)
  have "r \<in> set ds" using assms(2-4) by (simp add: ds)
  then have "set (sendsTo b (sclient (sheap b r)) (PublishP p)) \<subseteq> set ms" by (auto simp: ms sendsAll_def)
  with assms(5) show ?thesis by (simp add: sendsTo_def)
qed

lemma mesh_hop:
  assumes "map_of (cables s) (i, c) = Some (j, k)" "i < length (members s)"
    and "idle (members s ! i)" "listening ROUTER (members s ! i) c" "writeOk env = (\<lambda>_. True)"
    and "Qos p = QosAtMostOnce \<or> Qos p = QosAtLeastOnce" "topicLevels (TopicName p) = Inr ts" "validatePacketFields (PublishP p)"
    and "nthOpt (onWire k (trace (members s ! j))) (heard s (i, c)) = Some (PublishP p)"
    and "acks = (if Qos p = QosAtLeastOnce then [(the (conn (cheap (members s ! i) c)), PubackP (MessageID p))] else [])"
  obtains w b' ms where "meshRun env [Carry i c, Local i (EvWork w)] s
      = Some (s\<lparr>members := (members s)[i := b'], heard := (heard s)((i, c) := heard s (i, c) + 1)\<rparr>)"
    "idle b'" "same_mesh (members s ! i) b'" "forwards env (members s ! i) ROUTER ts p ms"
    "\<And>l. onWire l (trace b') = onWire l (trace (members s ! i)) @ map snd (filter (\<lambda>x. fst x = l) (acks @ ms))"
proof -
  obtain w b1 b2 ms where h: "handleEvent env (EvRead c (ReadPacket (PublishP p))) (members s ! i) = Some b1"
    "handleEvent env (EvWork w) b1 = Some b2" "idle b2" "same_mesh (members s ! i) b2"
    "forwards env (members s ! i) ROUTER ts p ms"
    "\<And>k. onWire k (trace b2) = onWire k (trace (members s ! i)) @ map snd (filter (\<lambda>x. fst x = k) (acks @ ms))"
    by (rule hop [OF assms(3-8,10)]) blast
  then have "meshRun env [Carry i c, Local i (EvWork w)] s
      = Some (s\<lparr>members := (members s)[i := b2], heard := (heard s)((i, c) := heard s (i, c) + 1)\<rparr>)"
    using assms(1,2,9) by (simp add: meshStep_def)
  then show thesis using h(3-6) by (rule that)
qed

section \<open>From one broker to another\<close>

text \<open>A permitted QoS 0 publication of an end user.\<close>

lemma client_publish:
  assumes "binv {} b" "ctyp (cheap b c) = CLIENT" "writeOk env = (\<lambda>_. True)" "Qos p = QosAtMostOnce"
    and "snd (brokerTopicAuth env aPUB (cheap b c) (TopicName p) b)" "topicLevels (TopicName p) = Inr ts"
    and "b' = processPacket env c (PublishP p) b"
  shows "\<exists>ms. forwards env b CLIENT ts p ms
      \<and> (\<forall>l. onWire l (trace b') = onWire l (trace b) @ map snd (filter (\<lambda>x. fst x = l) ms))"
proof -
  obtain b1 where a: "brokerTopicAuth env aPUB (cheap b c) (TopicName p) b = (b1, True)"
    using assms(5) by (cases "brokerTopicAuth env aPUB (cheap b c) (TopicName p) b") simp
  then obtain v where v: "b1 = b\<lparr>bauth := v\<rparr>" using topicAuth_eq by blast
  define b2 where "b2 = bridgePublish (element (cheap b1 c) bPublish (now env) (Payload p) (TopicName p)) b1"
  have q: "ValidQos (Qos p)" using assms(4) by (simp add: ValidQos_def qos_defs)
  have b': "b' = ProcessPublishMessage env (writePacket env) c p b2"
    using a assms(2,4) by (simp add: assms(7) processPacket_def ProcessPublish_def processClientPublish_def b2_def Let_def)
  have same: "cheap b2 = cheap b" "sheap b2 = sheap b" "topicsMgr b2 = topicsMgr b" "sent (trace b2) = sent (trace b)"
    "onWire l (trace b2) = onWire l (trace b)" for l
    by (simp_all add: b2_def v bridgePublish_def emit_def)
  have inv: "binv {} b2" using assms(1) by (simp add: b2_def v)
  obtain ms where ms: "sent (trace b') = sent (trace b2) @ ms" "forwards env b2 CLIENT ts p ms"
    using ProcessPublishMessage_forwards [OF inv q assms(6), of env c] assms(2) by (auto simp: b' same)
  have "forwards env b CLIENT ts p ms"
    using ms(2) forwards_same [of b b2 env CLIENT ts p ms] by (simp add: same)
  moreover obtain es where es: "trace b' = trace b2 @ es" "took es"
    using passes_PPM [OF binv_ready [OF inv] assms(3), of c p] by (auto simp: passes_def b')
  then have "sent es = ms" using ms(1) by simp
  with es have "\<forall>l. onWire l (trace b') = onWire l (trace b) @ map snd (filter (\<lambda>x. fst x = l) ms)"
    by (simp add: onWire_took same)
  ultimately show ?thesis by blast
qed


text \<open>
  A broker linked to another: it accepted a connection, a router's or an end user's, was told of a
  node by the hub and dialled it, and got a subscription from there.
\<close>

definition linkEnv :: env where
  "linkEnv = calm\<lparr>parseInfo := \<lambda>_. Some [(''o'', JString ''u'')]\<rparr>"

definition tidings :: publishPacket where
  "tidings = newPublish\<lparr>TopicName := ''a'', Payload := ''v''\<rparr>"

definition linking :: "bool \<Rightarrow> event list" where
  "linking cluster =
     [EvAccept cluster (Some (ConnectP hello)), EvDiscover,
      EvRead 1 (ReadPacket (PublishP (newPublish\<lparr>TopicName := BrokerInfoTopic\<rparr>))), EvCluster,
      EvRead 2 (ReadPacket (SubscribeP 7 [''a''] [0])), EvWork 0]"

definition linked :: "bool \<Rightarrow> broker" where
  "linked cluster = the (runs linkEnv (linking cluster) quietBroker)"

definition pair :: "broker \<Rightarrow> broker \<Rightarrow> mesh" where
  "pair a b = \<lparr>members = [a, b], cables = [((0, 0), (1, 2)), ((1, 0), (0, 2))], heard = (\<lambda>_. 2)\<rparr>"

definition link_ok :: "ctype \<Rightarrow> broker \<Rightarrow> bool" where
  "link_ok ty b =
     (\<not> crashed b \<and> metricsOn b \<and> list_all (\<lambda>q. q = []) (taskQueue (wpool b)) \<and> listening ty b 0
      \<and> bauth b = None \<and> sroot (topicsMgr b) \<noteq> None \<and> list_ex (\<lambda>e. e = ([''a''], subPtr 0)) (sentries (the (sroot (topicsMgr b))))
      \<and> sheap b 0 = \<lparr>sclient = 2, stopic = ''a'', subQos = 0, share = False, groupName = []\<rparr>
      \<and> ctyp (cheap b 2) = REMOTE \<and> conn (cheap b 2) = Some 2 \<and> status (cheap b 2) = Connected
      \<and> length (onWire 2 (trace b)) = 2)"

lemma linked_run:
  "case runs linkEnv (linking True) quietBroker of None \<Rightarrow> False | Some b \<Rightarrow> link_ok ROUTER b"
  by code_simp

lemma told_run:
  "case runs linkEnv (linking False) quietBroker of None \<Rightarrow> False | Some b \<Rightarrow> link_ok CLIENT b"
  by code_simp

lemma linked_some:
  "runs linkEnv (linking cluster) quietBroker = Some (linked cluster)" "link_ok (if cluster then ROUTER else CLIENT) (linked cluster)"
  using linked_run told_run by (cases cluster; auto simp: linked_def split: option.splits)+

lemma linked_facts:
  "idle (linked cluster)" "listening (if cluster then ROUTER else CLIENT) (linked cluster) 0"
  "0 \<in> subscribedTo (linked cluster) [''a'']" "\<not> share (sheap (linked cluster) 0)"
  "sclient (sheap (linked cluster) 0) = 2" "ctyp (cheap (linked cluster) 2) = REMOTE" "conn (cheap (linked cluster) 2) = Some 2"
  "status (cheap (linked cluster) 2) = Connected" "bauth (linked cluster) = None" "length (onWire 2 (trace (linked cluster))) = 2"
proof -
  let ?b = "linked cluster"
  note ok = linked_some(2) [of cluster]
  have "reachable quietBroker ?b" using runs_reachable [OF linked_some(1) reach_init] .
  from reachable_binv [OF this [unfolded quietBroker_def]] ok
  show "idle ?b" "listening (if cluster then ROUTER else CLIENT) ?b 0" "\<not> share (sheap ?b 0)" "sclient (sheap ?b 0) = 2"
    "ctyp (cheap ?b 2) = REMOTE" "conn (cheap ?b 2) = Some 2" "status (cheap ?b 2) = Connected" "bauth ?b = None"
    "length (onWire 2 (trace ?b)) = 2"
    by (simp_all add: link_ok_def idle_def)
  have "([''a''], subPtr 0) \<in> mt_subs (topicsMgr ?b)"
    using ok by (auto simp: link_ok_def mt_subs_def list_ex_iff)
  moreover have "matches [''a''] [''a'']" by code_simp
  ultimately show "0 \<in> subscribedTo ?b [''a'']" by (auto simp: subscribedTo_def)
qed

lemma tidings_facts:
  "TopicName tidings = ''a''" "Qos tidings = QosAtMostOnce" "topicLevels ''a'' = Inr [''a'']" "validatePacketFields (PublishP tidings)"
  "writeOk linkEnv = (\<lambda>_. True)"
  by (code_simp, code_simp, code_simp, code_simp, simp add: linkEnv_def calm_def)


section \<open>A message that never comes to rest\<close>

text \<open>A subscription that gets a copy of every matching message, on connection \<open>l\<close>.\<close>

definition serves :: "broker \<Rightarrow> string list \<Rightarrow> connId \<Rightarrow> bool" where
  "serves b ts l =
     (\<exists>r \<in> subscribedTo b ts. let x = cheap b (sclient (sheap b r)) in
        \<not> share (sheap b r) \<and> status x \<noteq> Disconnected \<and> conn x = Some l \<and> ctyp x \<noteq> ROUTER)"

definition copies :: "publishPacket \<Rightarrow> connId \<Rightarrow> broker \<Rightarrow> nat" where
  "copies p l b = length (filter (\<lambda>q. q = PublishP p) (onWire l (trace b)))"

text \<open>What was written to broker \<open>i\<close> by the other and is not read yet.\<close>

definition onTheWay :: "(nat \<Rightarrow> cref) \<Rightarrow> (nat \<Rightarrow> connId) \<Rightarrow> mesh \<Rightarrow> nat \<Rightarrow> controlPacket list" where
  "onTheWay c k s i = drop (heard s (i, c i)) (onWire (k (1 - i)) (trace (members s ! (1 - i))))"

text \<open>
  Two brokers that dialled each other: \<open>c i\<close> is the ROUTER client of broker \<open>i\<close>, \<open>k i\<close> the connection
  of its REMOTE client, which is subscribed; nothing but copies of one message is on its way.
\<close>

definition twoBrokers :: "(nat \<Rightarrow> cref) \<Rightarrow> (nat \<Rightarrow> connId) \<Rightarrow> string list \<Rightarrow> publishPacket \<Rightarrow> mesh \<Rightarrow> bool" where
  "twoBrokers c k ts p s =
     (length (members s) = 2 \<and>
      (\<forall>i < 2. map_of (cables s) (i, c i) = Some (1 - i, k (1 - i)) \<and> idle (members s ! i)
         \<and> listening ROUTER (members s ! i) (c i) \<and> serves (members s ! i) ts (k i)
         \<and> heard s (i, c i) \<le> length (onWire (k (1 - i)) (trace (members s ! (1 - i))))
         \<and> (\<forall>q \<in> set (onTheWay c k s i). q = PublishP p)))"

lemma same_mesh_serves: "same_mesh b b' \<Longrightarrow> serves b' ts l = serves b ts l"
  by (simp add: serves_def same_mesh_def subscribedTo_def same_core_def Let_def)

lemma serves_copy:
  assumes "serves b ts l" "forwards env b ROUTER ts p ms"
  shows "filter (\<lambda>x. fst x = l) ms \<noteq> []"
proof -
  obtain r where r: "r \<in> subscribedTo b ts" "\<not> share (sheap b r)" "status (cheap b (sclient (sheap b r))) \<noteq> Disconnected"
    "conn (cheap b (sclient (sheap b r))) = Some l" "ctyp (cheap b (sclient (sheap b r))) \<noteq> ROUTER"
    using assms(1) by (auto simp: serves_def Let_def)
  from forwards_reach [OF assms(2) r(1) _ r(2,3)] r(4,5) have "(l, PublishP p) \<in> set ms" by (simp add: echoes_def)
  then show ?thesis by (force simp: filter_empty_conv)
qed

lemma forwards_copies:
  assumes "forwards env b ty ts p ms"
  shows "filter (\<lambda>q. q = PublishP p) (map snd (filter f ms)) = map snd (filter f ms)"
    "\<forall>q \<in> set (map snd (filter f ms)). q = PublishP p"
  using forwards_packets [OF assms] by (auto simp: filter_id_conv)

lemma storm_hop:
  assumes "twoBrokers c k ts p s" "i < 2" "onTheWay c k s i \<noteq> []" "writeOk env = (\<lambda>_. True)"
    and "Qos p = QosAtMostOnce" "topicLevels (TopicName p) = Inr ts" "validatePacketFields (PublishP p)"
  obtains mvs s' where "meshRun env mvs s = Some s'" "twoBrokers c k ts p s'"
    "onTheWay c k s' (1 - i) \<noteq> []" "members s' ! (1 - i) = members s ! (1 - i)" "same_mesh (members s ! i) (members s' ! i)"
    "\<And>l. copies p l (members s ! i) \<le> copies p l (members s' ! i)"
    "\<And>l. serves (members s ! i) ts l \<Longrightarrow> copies p l (members s ! i) < copies p l (members s' ! i)"
proof -
  let ?j = "1 - i" and ?b = "members s ! i"
  have two: "i = 0 \<and> ?j = 1 \<or> i = 1 \<and> ?j = 0" using assms(2) by auto
  then have j: "?j < 2" "?j \<noteq> i" "1 - ?j = i" by auto
  have len: "length (members s) = 2" using assms(1) by (simp add: twoBrokers_def)
  have at: "map_of (cables s) (d, c d) = Some (1 - d, k (1 - d))" "idle (members s ! d)" "listening ROUTER (members s ! d) (c d)"
    "serves (members s ! d) ts (k d)" "heard s (d, c d) \<le> length (onWire (k (1 - d)) (trace (members s ! (1 - d))))"
    "\<forall>q \<in> set (onTheWay c k s d). q = PublishP p" if "d < 2" for d
    using assms(1) that unfolding twoBrokers_def by blast+
  obtain rest where way: "onTheWay c k s i = PublishP p # rest"
    using assms(3) at(6) [OF assms(2)] by (cases "onTheWay c k s i") auto
  then have less: "heard s (i, c i) < length (onWire (k ?j) (trace (members s ! ?j)))"
    unfolding onTheWay_def by (metis drop_eq_Nil leI list.distinct(1))
  have "drop (heard s (i, c i)) (onWire (k ?j) (trace (members s ! ?j))) = PublishP p # rest" using way by (simp add: onTheWay_def)
  then have first: "onWire (k ?j) (trace (members s ! ?j)) ! heard s (i, c i) = PublishP p"
    "drop (Suc (heard s (i, c i))) (onWire (k ?j) (trace (members s ! ?j))) = rest"
    using less by (simp_all add: Cons_nth_drop_Suc [symmetric])
  then have coming: "nthOpt (onWire (k ?j) (trace (members s ! ?j))) (heard s (i, c i)) = Some (PublishP p)"
    using less by (simp add: nthOpt_def)
  obtain w b' ms where hop: "meshRun env [Carry i (c i), Local i (EvWork w)] s
      = Some (s\<lparr>members := (members s)[i := b'], heard := (heard s)((i, c i) := heard s (i, c i) + 1)\<rparr>)"
    "idle b'" "same_mesh ?b b'" "forwards env ?b ROUTER ts p ms"
    "\<And>l. onWire l (trace b') = onWire l (trace ?b) @ map snd (filter (\<lambda>x. fst x = l) ([] @ ms))"
    by (rule mesh_hop [OF at(1) [OF assms(2)] _ at(2,3) [OF assms(2)] assms(4) _ assms(6,7) coming, of "[]"])
      (use assms(2,5) len in \<open>simp_all add: qos_defs\<close>)
  let ?s = "s\<lparr>members := (members s)[i := b'], heard := (heard s)((i, c i) := heard s (i, c i) + 1)\<rparr>"
  have mem: "members ?s ! i = b'" "members ?s ! ?j = members s ! ?j" using len assms(2) j(2) by simp_all
  have new: "map snd (filter (\<lambda>x. fst x = l) ms) \<noteq> []" if "serves ?b ts l" for l
    using serves_copy [OF that hop(4)] by simp
  have wayi: "onTheWay c k ?s i = rest" using first(2) mem j by (simp add: onTheWay_def)
  have wayj: "onTheWay c k ?s ?j = onTheWay c k s ?j @ map snd (filter (\<lambda>x. fst x = k i) ms)"
    using at(5) [OF j(1)] hop(5) [of "k i"] len assms(2) j(2) unfolding onTheWay_def j(3) by simp
  have all: "\<forall>q \<in> set (onTheWay c k ?s d). q = PublishP p" if "d < 2" for d
  proof -
    from that two have "d = i \<or> d = ?j" by auto
    then show ?thesis
    proof
      assume d: "d = i"
      show ?thesis unfolding d wayi using at(6) [OF assms(2)] way by simp
    next
      assume d: "d = ?j"
      show ?thesis unfolding d wayj set_append using at(6) [OF j(1)] forwards_copies(2) [OF hop(4)] by blast
    qed
  qed
  have hrd: "heard ?s (d, c d) \<le> length (onWire (k (1 - d)) (trace (members ?s ! (1 - d))))" if "d < 2" for d
  proof -
    from that two have "d = i \<or> d = ?j" by auto
    then show ?thesis
      using less at(5) [OF j(1)] hop(5) [of "k i"] mem j by (elim disjE) (simp_all add: j(3))
  qed
  have "twoBrokers c k ts p ?s" unfolding twoBrokers_def
  proof (intro conjI allI impI ballI)
    show "length (members ?s) = 2" using len by simp
    fix d :: nat assume d: "d < 2"
    with two have "d = i \<or> d = ?j" by auto
    then have b: "members ?s ! d = b' \<and> d = i \<or> members ?s ! d = members s ! d" using mem by auto
    show "map_of (cables ?s) (d, c d) = Some (1 - d, k (1 - d))" using at(1) [OF d] by simp
    show "idle (members ?s ! d)" using b hop(2) at(2) [OF d] by auto
    show "listening ROUTER (members ?s ! d) (c d)" using b at(3) [OF d] same_mesh_listening [OF hop(3)] by auto
    show "serves (members ?s ! d) ts (k d)" using b at(4) [OF d] same_mesh_serves [OF hop(3)] by auto
    show "heard ?s (d, c d) \<le> length (onWire (k (1 - d)) (trace (members ?s ! (1 - d))))" by (rule hrd [OF d])
    show "q = PublishP p" if "q \<in> set (onTheWay c k ?s d)" for q using all [OF d] that by blast
  qed
  moreover have "onTheWay c k ?s ?j \<noteq> []" unfolding wayj using new [OF at(4) [OF assms(2)]] by blast
  moreover have cp: "copies p l b' = copies p l ?b + length (map snd (filter (\<lambda>x. fst x = l) ms))" for l
    using hop(5) [of l] forwards_copies(1) [OF hop(4)] by (simp add: copies_def)
  ultimately show thesis
    using hop(1,3) mem new by (intro that [of "[Carry i (c i), Local i (EvWork w)]" ?s]) auto
qed

text \<open>
  C10. Two brokers that dialled each other pass a message back and forth for ever: a router's message
  is kept from routers only, but the connections it is forwarded on are those to remotes. However often
  a QoS 0 message has gone round, it is still on its way, and each of its rounds writes one more copy to
  every subscriber of the broker it passes.
\<close>

theorem message_goes_round_forever:
  assumes "twoBrokers c k ts p s" "onTheWay c k s 0 \<noteq> []" "writeOk env = (\<lambda>_. True)"
    and "Qos p = QosAtMostOnce" "topicLevels (TopicName p) = Inr ts" "validatePacketFields (PublishP p)"
  shows "\<exists>mvs s'. meshRun env mvs s = Some s' \<and> twoBrokers c k ts p s' \<and> onTheWay c k s' 0 \<noteq> []
    \<and> (\<forall>i < 2. \<forall>l. serves (members s ! i) ts l \<longrightarrow> copies p l (members s ! i) + n \<le> copies p l (members s' ! i))"
proof -
  have "\<exists>mvs s'. meshRun env mvs s = Some s' \<and> twoBrokers c k ts p s' \<and> onTheWay c k s' 0 \<noteq> []
    \<and> (\<forall>i < 2. same_mesh (members s ! i) (members s' ! i) \<and>
          (\<forall>l. serves (members s ! i) ts l \<longrightarrow> copies p l (members s ! i) + n \<le> copies p l (members s' ! i)))"
  proof (induction n)
    case 0
    have "meshRun env [] s = Some s" by simp
    moreover have "same_mesh b b" for b by (simp add: same_mesh_def)
    ultimately show ?case using assms(1,2) by (metis add_0_right order_refl)
  next
    case (Suc n)
    then obtain mvs s1 where 1: "meshRun env mvs s = Some s1" "twoBrokers c k ts p s1" "onTheWay c k s1 0 \<noteq> []"
      "\<And>i. i < 2 \<Longrightarrow> same_mesh (members s ! i) (members s1 ! i)"
      "\<And>i l. i < 2 \<Longrightarrow> serves (members s ! i) ts l \<Longrightarrow> copies p l (members s ! i) + n \<le> copies p l (members s1 ! i)"
      by blast
    obtain mv2 s2 where 2: "meshRun env mv2 s1 = Some s2" "twoBrokers c k ts p s2" "onTheWay c k s2 1 \<noteq> []"
      "members s2 ! 1 = members s1 ! 1" "same_mesh (members s1 ! 0) (members s2 ! 0)"
      "\<And>l. serves (members s1 ! 0) ts l \<Longrightarrow> copies p l (members s1 ! 0) < copies p l (members s2 ! 0)"
      by (rule storm_hop [OF 1(2) _ 1(3) assms(3-6)]) auto
    obtain mv3 s3 where 3: "meshRun env mv3 s2 = Some s3" "twoBrokers c k ts p s3" "onTheWay c k s3 0 \<noteq> []"
      "members s3 ! 0 = members s2 ! 0" "same_mesh (members s2 ! 1) (members s3 ! 1)"
      "\<And>l. serves (members s2 ! 1) ts l \<Longrightarrow> copies p l (members s2 ! 1) < copies p l (members s3 ! 1)"
      by (rule storm_hop [OF 2(2) _ 2(3) assms(3-6)]) auto
    have "meshRun env (mvs @ mv2 @ mv3) s = Some s3" using 1(1) 2(1) 3(1) by (simp add: meshRun_then)
    moreover have "same_mesh (members s ! i) (members s3 ! i) \<and>
        (\<forall>l. serves (members s ! i) ts l \<longrightarrow> copies p l (members s ! i) + Suc n \<le> copies p l (members s3 ! i))" if "i < 2" for i
    proof -
      have same: "same_mesh (members s ! i) (members s1 ! i)" by (rule 1(4) [OF that])
      have sv: "serves (members s1 ! i) ts l = serves (members s ! i) ts l" for l using same by (rule same_mesh_serves)
      have grown: "copies p l (members s ! i) + n \<le> copies p l (members s1 ! i)" if "serves (members s ! i) ts l" for l
        using 1(5) [OF \<open>i < 2\<close> that] .
      have one: "same_mesh (members s1 ! i) (members s3 ! i)
        \<and> (\<forall>l. serves (members s1 ! i) ts l \<longrightarrow> copies p l (members s1 ! i) < copies p l (members s3 ! i))"
      proof (cases "i = 0")
        case True
        then show ?thesis using 2(5,6) 3(4) by simp
      next
        case False
        then have "i = 1" using that by simp
        then show ?thesis using 3(5,6) 2(4) by simp
      qed
      show ?thesis
      proof (intro conjI allI impI)
        show "same_mesh (members s ! i) (members s3 ! i)" using same one same_mesh_trans by blast
        fix l assume l: "serves (members s ! i) ts l"
        then have "copies p l (members s1 ! i) < copies p l (members s3 ! i)" using one sv by blast
        with grown [OF l] show "copies p l (members s ! i) + Suc n \<le> copies p l (members s3 ! i)" by simp
      qed
    qed
    ultimately show ?case using 3(2,3) by blast
  qed
  then show ?thesis by blast
qed

lemma message_goes_round_forever_witness:
  "\<exists>b mvs s'. meshRun linkEnv mvs (pair (linked True) b) = Some s'
    \<and> copies tidings 2 (linked True) + 9 \<le> copies tidings 2 (members s' ! 0)"
proof -
  let ?a = "linked True" and ?c = "\<lambda>_. 0" and ?k = "\<lambda>_. 2"
  have listens: "listening ROUTER ?a 0" using linked_facts(2) [of True] by simp
  have sv: "serves ?a [''a''] 2" unfolding serves_def Let_def by (rule bexI [of _ 0]) (simp_all add: linked_facts)
  obtain b ms where b: "idle b" "same_mesh ?a b" "forwards linkEnv ?a ROUTER [''a''] tidings ms"
    "onWire 2 (trace b) = onWire 2 (trace ?a) @ map snd (filter (\<lambda>x. fst x = 2) ([] @ ms))"
    by (rule hop [OF linked_facts(1) listens tidings_facts(5), of tidings "[''a'']" "[]"]) (auto simp: tidings_facts qos_defs)
  let ?s = "pair ?a b"
  have s: "members ?s ! 0 = ?a" "members ?s ! 1 = b" "members ?s ! Suc 0 = b" "length (members ?s) = 2" "heard ?s = (\<lambda>_. 2)"
    "map_of (cables ?s) (0, 0) = Some (1, 2)" "map_of (cables ?s) (1, 0) = Some (0, 2)" "map_of (cables ?s) (Suc 0, 0) = Some (0, 2)"
    by (simp_all add: pair_def)
  have way: "onTheWay ?c ?k ?s 0 = map snd (filter (\<lambda>x. fst x = 2) ms)" "onTheWay ?c ?k ?s 1 = []" "onTheWay ?c ?k ?s (Suc 0) = []"
    by (simp_all add: onTheWay_def s b(4) linked_facts)
  have two: "twoBrokers ?c ?k [''a''] tidings ?s"
    using sv same_mesh_serves [OF b(2)] same_mesh_listening [OF b(2)] listens b(1) forwards_copies(2) [OF b(3)]
    by (simp add: twoBrokers_def s less_2_cases_iff all_conj_distrib linked_facts way b(4))
  have "onTheWay ?c ?k ?s 0 \<noteq> []" using serves_copy [OF sv b(3)] by (simp add: way)
  from message_goes_round_forever [OF two this tidings_facts(5,2) _ tidings_facts(4), of 9]
  obtain mvs s' where r: "meshRun linkEnv mvs ?s = Some s'"
    "\<forall>i < 2. \<forall>l. serves (members ?s ! i) [''a''] l \<longrightarrow> copies tidings l (members ?s ! i) + 9 \<le> copies tidings l (members s' ! i)"
    by (auto simp: tidings_facts)
  have "copies tidings 2 (members ?s ! 0) + 9 \<le> copies tidings 2 (members s' ! 0)"
    by (rule r(2) [rule_format]) (simp_all add: s sv)
  with r(1) show ?thesis unfolding s by blast
qed

end
