(* ===== verification/Link_Subscriptions.thy ===== *)
theory Link_Subscriptions
  imports Cluster_Link Life_Laws
begin

text \<open>
  What the connection between two brokers does with subscriptions: an end user's SUBSCRIBE goes out on
  every router connection and is entered at the other end for the link; what the link ignores.
\<close>

section \<open>Entering the subscriptions of a link\<close>

text \<open>A subscription of client \<open>c\<close> that is in the index.\<close>

definition holdsSub :: "broker \<Rightarrow> cref \<Rightarrow> string list \<Rightarrow> subscription \<Rightarrow> bool" where
  "holdsSub b c fs x =
     (\<exists>r < snext b. (fs, subPtr r) \<in> mt_subs (topicsMgr b) \<and> sheap b r = x \<and> sclient x = c)"

definition grows :: "broker \<Rightarrow> broker \<Rightarrow> bool" where
  "grows b b' =
     (mt_inv (topicsMgr b') \<and> snext b \<le> snext b' \<and> mt_subs (topicsMgr b) \<subseteq> mt_subs (topicsMgr b')
      \<and> (\<forall>r < snext b. sheap b' r = sheap b r))"

lemma grows_refl: "mt_inv (topicsMgr b) \<Longrightarrow> grows b b"
  by (simp add: grows_def)

lemma grows_trans: "grows a b \<Longrightarrow> grows b c \<Longrightarrow> grows a c"
  by (force simp: grows_def)

lemma grows_holds: "grows b b' \<Longrightarrow> holdsSub b c fs x \<Longrightarrow> holdsSub b' c fs x"
  unfolding grows_def holdsSub_def by (metis less_le_trans subsetD)

lemma routerSubscribeTopic_grows:
  assumes "mt_inv (topicsMgr b)" "routerSubscribeTopic c qoss (b, rcs) (i, t) = (b', rcs')"
  shows "grows b b'"
    "splitShare t = Some (sh, grp, topic) \<Longrightarrow> topicLevels topic = Inr fs \<Longrightarrow> i < length qoss \<Longrightarrow> ValidQos (qoss ! i) \<Longrightarrow>
      holdsSub b' c fs \<lparr>sclient = c, stopic = topic, subQos = qoss ! i, share = sh, groupName = grp\<rparr>"
proof -
  have entered: "grows b b1 \<and> (topicLevels topic = Inr fs \<and> ValidQos q \<longrightarrow> res = Some q \<and>
      holdsSub b1 c fs \<lparr>sclient = c, stopic = topic, subQos = q, share = sh, groupName = grp\<rparr>)"
    if e: "enterSub c topic q sh grp b = (b1, r, res)" for topic q sh grp b1 r res fs
  proof -
    note eqs = enterSub_eqs [OF e]
    note one = subscribe_one [OF assms(1), of topic q r]
    have b1: "topicsMgr b1 = fst (mtSubscribe topic q (subPtr r) (topicsMgr b))" "snext b1 = Suc (snext b)" "r = snext b"
      "\<And>s. s < snext b \<Longrightarrow> sheap b1 s = sheap b s"
      "sheap b1 r = \<lparr>sclient = c, stopic = topic, subQos = q, share = sh, groupName = grp\<rparr>"
      using eqs(1,2) by (auto simp: allocSub_def)
    have "mt_subs (topicsMgr b) \<subseteq> mt_subs (topicsMgr b1)"
      using one(2,3) by (cases "snd (snd (mtSubscribe topic q (subPtr r) (topicsMgr b)))") (auto simp: b1(1))
    then have "grows b b1" using one(1) b1 by (simp add: grows_def)
    moreover have "res = Some q \<and> (fs, subPtr r) \<in> mt_subs (topicsMgr b1)" if "topicLevels topic = Inr fs" "ValidQos q"
      using that mem_subs.subscribe_ok [OF assms(1), of "subPtr r" q topic fs] eqs(3) by (simp add: b1(1))
    ultimately show ?thesis using b1 by (auto simp: holdsSub_def)
  qed
  have upd: "grows b (upd c f b1)" "holdsSub (upd c f b1) c fs x = holdsSub b1 c fs x" if "grows b b1" for f b1 fs x
    using that by (simp_all add: grows_def holdsSub_def)
  have crash: "grows b (crash b)" using assms(1) by (simp add: grows_def crash_def)
  show "grows b b'"
  proof (cases "splitShare t")
    case None
    then show ?thesis using assms grows_refl by (simp add: routerSubscribeTopic_def)
  next
    case (Some shg)
    then obtain sh grp topic where sp: "splitShare t = Some (sh, grp, topic)" by (cases shg) auto
    show ?thesis
    proof (cases "nthOpt qoss i")
      case None
      then show ?thesis using assms(2) crash by (simp add: routerSubscribeTopic_def sp)
    next
      case (Some q)
      obtain b1 r res where e: "enterSub c topic q sh grp b = (b1, r, res)" by (cases "enterSub c topic q sh grp b") auto
      have "grows b b1" using entered [OF e] by blast
      then show ?thesis using assms(2) upd(1) Some by (auto simp: routerSubscribeTopic_def sp e split: option.splits)
    qed
  qed
  assume sp: "splitShare t = Some (sh, grp, topic)" and ok: "topicLevels topic = Inr fs" "i < length qoss" "ValidQos (qoss ! i)"
  obtain b1 r res where e: "enterSub c topic (qoss ! i) sh grp b = (b1, r, res)" by (cases "enterSub c topic (qoss ! i) sh grp b") auto
  have one: "grows b b1" "res = Some (qoss ! i)"
    "holdsSub b1 c fs \<lparr>sclient = c, stopic = topic, subQos = qoss ! i, share = sh, groupName = grp\<rparr>"
    using entered [OF e, of fs] ok by auto
  then show "holdsSub b' c fs \<lparr>sclient = c, stopic = topic, subQos = qoss ! i, share = sh, groupName = grp\<rparr>"
    using assms(2) upd(2) [OF one(1)] ok(2) by (auto simp: routerSubscribeTopic_def sp e nthOpt_def)
qed

text \<open>All topics of a packet, one after the other.\<close>

lemma routerSubscribe_loop:
  assumes "mt_inv (topicsMgr b)" "foldl (routerSubscribeTopic c qoss) (b, rcs) (enumerate n ts) = (b', rcs')"
  shows "grows b b'"
    "j < length ts \<Longrightarrow> splitShare (ts ! j) = Some (sh, grp, topic) \<Longrightarrow> topicLevels topic = Inr fs \<Longrightarrow>
      n + j < length qoss \<Longrightarrow> ValidQos (qoss ! (n + j)) \<Longrightarrow>
      holdsSub b' c fs \<lparr>sclient = c, stopic = topic, subQos = qoss ! (n + j), share = sh, groupName = grp\<rparr>"
proof -
  have "grows b b' \<and> (\<forall>j < length ts. splitShare (ts ! j) = Some (sh, grp, topic) \<and> topicLevels topic = Inr fs
      \<and> n + j < length qoss \<and> ValidQos (qoss ! (n + j)) \<longrightarrow>
      holdsSub b' c fs \<lparr>sclient = c, stopic = topic, subQos = qoss ! (n + j), share = sh, groupName = grp\<rparr>)"
    using assms
  proof (induction ts arbitrary: n b rcs)
    case Nil
    then show ?case by (simp add: grows_refl)
  next
    case (Cons t ts)
    obtain b1 rcs1 where step: "routerSubscribeTopic c qoss (b, rcs) (n, t) = (b1, rcs1)"
      by (cases "routerSubscribeTopic c qoss (b, rcs) (n, t)")
    note one = routerSubscribeTopic_grows [OF Cons.prems(1) step]
    have inv: "mt_inv (topicsMgr b1)" using one(1) by (simp add: grows_def)
    have rest: "foldl (routerSubscribeTopic c qoss) (b1, rcs1) (enumerate (Suc n) ts) = (b', rcs')"
      using Cons.prems(2) step by simp
    note ih = Cons.IH [OF inv rest]
    have "holdsSub b' c fs \<lparr>sclient = c, stopic = topic, subQos = qoss ! (n + j), share = sh, groupName = grp\<rparr>"
      if "j < length (t # ts)" "splitShare ((t # ts) ! j) = Some (sh, grp, topic)" "topicLevels topic = Inr fs"
        "n + j < length qoss" "ValidQos (qoss ! (n + j))" for j
    proof (cases j)
      case 0
      then show ?thesis using that one(2) grows_holds [OF conjunct1 [OF ih]] by simp
    next
      case (Suc i)
      then show ?thesis using that conjunct2 [OF ih, rule_format, of i] by simp
    qed
    with ih one(1) grows_trans show ?case by blast
  qed
  then show "grows b b'"
    "j < length ts \<Longrightarrow> splitShare (ts ! j) = Some (sh, grp, topic) \<Longrightarrow> topicLevels topic = Inr fs \<Longrightarrow>
      n + j < length qoss \<Longrightarrow> ValidQos (qoss ! (n + j)) \<Longrightarrow>
      holdsSub b' c fs \<lparr>sclient = c, stopic = topic, subQos = qoss ! (n + j), share = sh, groupName = grp\<rparr>"
    by blast+
qed

lemma link_subscribe:
  assumes "binv {} b" "ctyp (cheap b c) = REMOTE" "status (cheap b c) \<noteq> Disconnected"
    and "b' = processPacket env c (SubscribeP mid topics qoss) b"
  shows "grows b b'"
    "j < length topics \<Longrightarrow> splitShare (topics ! j) = Some (sh, grp, topic) \<Longrightarrow> topicLevels topic = Inr fs \<Longrightarrow>
      j < length qoss \<Longrightarrow> ValidQos (qoss ! j) \<Longrightarrow>
      holdsSub b' c fs \<lparr>sclient = c, stopic = topic, subQos = qoss ! j, share = sh, groupName = grp\<rparr>"
proof -
  have mt: "mt_inv (topicsMgr b)" using assms(1) by (simp add: binv_def subs_inv_def)
  obtain b1 rcs where f: "foldl (routerSubscribeTopic c qoss) (b, []) (enumerate 0 topics) = (b1, rcs)"
    by (cases "foldl (routerSubscribeTopic c qoss) (b, []) (enumerate 0 topics)")
  note loop = routerSubscribe_loop [OF mt f]
  have b': "b' = fst (writePacket env c (SubackP mid rcs) b1)"
    using assms(2,3) f by (simp add: assms(4) processPacket_def ProcessSubscribe_def processRouterSubscribe_def)
  have same: "topicsMgr b' = topicsMgr b1" "sheap b' = sheap b1" "snext b' = snext b1"
  proof -
    have "goes_on {} c REMOTE (fst (foldl (routerSubscribeTopic c qoss) (b, []) (enumerate 0 topics)))"
      using goes_on_start [OF assms(1,2,3)] by (rule fold_fst) (use routerSubscribeTopic_inv in force)
    then have "binv {} b1" by (simp add: f goes_on_def)
    then have "ready b1" by (rule binv_ready)
    then have "only_trace b1 b'" unfolding b' by (intro quietD) auto
    then show "topicsMgr b' = topicsMgr b1" "sheap b' = sheap b1" "snext b' = snext b1" by (auto simp: only_trace_same)
  qed
  show "grows b b'" using loop(1) by (simp add: grows_def same)
  show "j < length topics \<Longrightarrow> splitShare (topics ! j) = Some (sh, grp, topic) \<Longrightarrow> topicLevels topic = Inr fs \<Longrightarrow>
      j < length qoss \<Longrightarrow> ValidQos (qoss ! j) \<Longrightarrow>
      holdsSub b' c fs \<lparr>sclient = c, stopic = topic, subQos = qoss ! j, share = sh, groupName = grp\<rparr>"
    using loop(2) [of j] by (simp add: holdsSub_def same)
qed

section \<open>From broker to broker\<close>

lemma broadcast_wire:
  assumes "ready b" "writeOk env = (\<lambda>_. True)" "b' = BroadcastSubOrUnsubMessage (writePacket env) p b"
  shows "onWire k (trace b') = onWire k (trace b) @ map snd (filter (\<lambda>x. fst x = k) (broadcastTo b p))" "cheap b' = cheap b"
proof -
  have all: "ready (foldl (\<lambda>b (rid, r). fst (writePacket env r p b)) b rs)
      \<and> passes b (foldl (\<lambda>b (rid, r). fst (writePacket env r p b)) b rs)" for rs
  proof (induction rs rule: rev_induct)
    case Nil
    then show ?case using assms(1) by simp
  next
    case (snoc x rs)
    obtain rid r where x: "x = (rid, r)" by (cases x)
    let ?c = "foldl (\<lambda>b (rid, r). fst (writePacket env r p b)) b rs"
    have "ready (fst (writePacket env r p ?c))" using snoc ready_only_trace quietD [OF quiet_writePacket] by blast
    with snoc show ?case using passes_trans [OF _ passes_write [OF _ assms(2)]] by (simp add: x)
  qed
  obtain es where es: "trace b' = trace b @ es" "took es"
    using all [of "routes b"] by (auto simp: assms(3) BroadcastSubOrUnsubMessage_def passes_def)
  have "sent (trace b') = sent (trace b) @ broadcastTo b p"
    using Broadcast_sent [OF assms(1)] by (simp add: assms(3) writePacket_def)
  with es show "onWire k (trace b') = onWire k (trace b) @ map snd (filter (\<lambda>x. fst x = k) (broadcastTo b p))"
    by (simp add: onWire_took)
  show "cheap b' = cheap b"
    using only_trace_same [OF Broadcast_quiet [OF quiet_writePacket assms(1)]] by (simp add: assms(3))
qed

text \<open>An announcement that is due reaches the other end of a router's connection.\<close>

lemma announced:
  assumes "i < length (members s)" "goroutines (members s ! i) = GoBroadcast p # gs" "idle (members s ! i)"
    and "(rid, c) \<in> set (routes (members s ! i))" "status (cheap (members s ! i) c) \<noteq> Disconnected"
    and "conn (cheap (members s ! i) c) = Some k" "writeOk env = (\<lambda>_. True)"
  obtains b' where "meshStep env (Local i EvGo) s = Some (s\<lparr>members := (members s)[i := b']\<rparr>)"
    "nthOpt (onWire k (trace b')) (length (onWire k (trace (members s ! i)))) = Some p"
proof -
  let ?b = "(members s ! i)\<lparr>goroutines := gs\<rparr>"
  define b' where "b' = BroadcastSubOrUnsubMessage (writePacket env) p ?b"
  have "ready (members s ! i)" using assms(3) by (auto simp: idle_def intro: binv_ready)
  then have ready: "ready ?b" by (simp add: ready_def)
  have step: "meshStep env (Local i EvGo) s = Some (s\<lparr>members := (members s)[i := b']\<rparr>)"
    using assms(1-3) by (simp add: meshStep_def handleEvent_def runGo_def idle_def b'_def)
  have "set (sendsTo ?b c p) \<subseteq> set (broadcastTo ?b p)" using assms(4) by (auto simp: broadcastTo_def)
  then have "(k, p) \<in> set (broadcastTo ?b p)" using assms(5,6) by (simp add: sendsTo_def)
  moreover have "snd x = p" if "x \<in> set (broadcastTo ?b p)" for x
    using that by (auto simp: broadcastTo_def sendsTo_def split: if_splits)
  ultimately have some: "p \<in> set (map snd (filter (\<lambda>x. fst x = k) (broadcastTo ?b p)))"
    and all: "\<forall>x \<in> set (map snd (filter (\<lambda>x. fst x = k) (broadcastTo ?b p))). x = p" by (force, auto)
  obtain q qs where "map snd (filter (\<lambda>x. fst x = k) (broadcastTo ?b p)) = q # qs"
    using some by (metis list.exhaust list.set_intros(1) list.set(1) empty_iff)
  with all have "map snd (filter (\<lambda>x. fst x = k) (broadcastTo ?b p)) = p # qs" by simp
  with broadcast_wire(1) [OF ready assms(7) b'_def, of k] have "nthOpt (onWire k (trace b')) (length (onWire k (trace (members s ! i)))) = Some p"
    by (simp add: nthOpt_def)
  with step show thesis by (rule that)
qed

text \<open>An idle broker reads the next packet of a link and handles it.\<close>

lemma carried:
  assumes "j < length (members s)" "map_of (cables s) (j, m) = Some (i, k)" "idle (members s ! j)" "listening ty (members s ! j) m"
    and "ty \<noteq> CLUSTER" "\<not> isDisconnect p" "validatePacketFields p"
    and "nthOpt (onWire k (trace (members s ! i))) (heard s (j, m)) = Some p"
  obtains w where "meshRun env [Carry j m, Local j (EvWork w)] s
    = Some (s\<lparr>members := (members s)[j := processPacket env m p (counting (Inc MetricNumberOfMessages) (members s ! j))],
              heard := (heard s)((j, m) := heard s (j, m) + 1)\<rparr>)"
proof -
  obtain w b1 where "handleEvent env (EvRead m (ReadPacket p)) (members s ! j) = Some b1"
    "handleEvent env (EvWork w) b1 = Some (ProcessMessage env \<lparr>mclient = m, mpacket = p\<rparr> (counting (Inc MetricNumberOfMessages) (members s ! j)))"
    by (rule idle_read [OF assms(3-6), where env = env])
  with assms(1,2,7,8) show thesis by (intro that [of w]) (simp add: meshStep_def ProcessMessage_def)
qed

text \<open>A broker that dialled another, and one with a router and an end user that sent a packet.\<close>

definition joined :: broker where
  "joined = the (runs linkEnv (take 4 (linking True)) quietBroker)"

definition askedBy :: "controlPacket \<Rightarrow> broker" where
  "askedBy p = the (runs linkEnv [EvAccept True (Some (ConnectP hello)), EvAccept False (Some (ConnectP hello)),
     EvRead 1 (ReadPacket p), EvWork 0] quietBroker)"

definition joint :: "broker \<Rightarrow> nat \<Rightarrow> mesh" where
  "joint b n = \<lparr>members = [b, joined], cables = [((1, 2), (0, 0))], heard = (\<lambda>_. n)\<rparr>"

lemma runs_idle:
  assumes "runs linkEnv es quietBroker = Some b" "\<not> crashed b" "metricsOn b" "list_all (\<lambda>q. q = []) (taskQueue (wpool b))"
  shows "idle b"
proof -
  have "reachable quietBroker b" using runs_reachable [OF assms(1) reach_init] .
  from reachable_binv [OF this [unfolded quietBroker_def]] assms(2-4) show ?thesis by (simp add: idle_def)
qed

lemma joined_run:
  "case runs linkEnv (take 4 (linking True)) quietBroker of None \<Rightarrow> False
   | Some b \<Rightarrow> \<not> crashed b \<and> metricsOn b \<and> list_all (\<lambda>q. q = []) (taskQueue (wpool b)) \<and> listening REMOTE b 2"
  by code_simp

lemma asked_run:
  "case runs linkEnv [EvAccept True (Some (ConnectP hello)), EvAccept False (Some (ConnectP hello)),
     EvRead 1 (ReadPacket (SubscribeP 7 [''a''] [0])), EvWork 0] quietBroker of None \<Rightarrow> False
   | Some b \<Rightarrow> \<not> crashed b \<and> metricsOn b \<and> list_all (\<lambda>q. q = []) (taskQueue (wpool b))
       \<and> goroutines b = [GoBroadcast (SubscribeP 7 [''a''] [0])] \<and> routes b = [(''x'', 0)]
       \<and> status (cheap b 0) \<noteq> Disconnected \<and> conn (cheap b 0) = Some 0"
  by code_simp

lemma left_run:
  "case runs linkEnv [EvAccept True (Some (ConnectP hello)), EvAccept False (Some (ConnectP hello)),
     EvRead 1 (ReadPacket (UnsubscribeP 3 [''a''])), EvWork 0] quietBroker of None \<Rightarrow> False
   | Some b \<Rightarrow> nthOpt (onWire 0 (trace b)) 1 = Some (UnsubscribeP 3 [''a''])"
  by code_simp

lemma joined_facts: "idle joined" "listening REMOTE joined 2"
  using joined_run runs_idle by (auto simp: joined_def split: option.splits)

lemma asked_facts:
  "idle (askedBy (SubscribeP 7 [''a''] [0]))" "goroutines (askedBy (SubscribeP 7 [''a''] [0])) = [GoBroadcast (SubscribeP 7 [''a''] [0])]"
  "routes (askedBy (SubscribeP 7 [''a''] [0])) = [(''x'', 0)]" "status (cheap (askedBy (SubscribeP 7 [''a''] [0])) 0) \<noteq> Disconnected"
  "conn (cheap (askedBy (SubscribeP 7 [''a''] [0])) 0) = Some 0"
  using asked_run runs_idle unfolding askedBy_def
  by (cases "runs linkEnv [EvAccept True (Some (ConnectP hello)), EvAccept False (Some (ConnectP hello)),
     EvRead 1 (ReadPacket (SubscribeP 7 [''a''] [0])), EvWork 0] quietBroker"; fastforce)+

text \<open>
  C15. A subscription crosses to the other brokers: the SUBSCRIBE a broker announces is written to each
  connected router, and the broker that dialled from there enters every well-formed topic of it with a
  valid QoS in its own index, for the connection between the two, whether or not the first broker granted
  it, and removes nothing.
\<close>

theorem subscription_crosses_link:
  assumes "i < length (members s)" "j < length (members s)" "i \<noteq> j" "map_of (cables s) (j, m) = Some (i, k)"
    and "idle (members s ! i)" "idle (members s ! j)" "listening REMOTE (members s ! j) m"
    and "goroutines (members s ! i) = GoBroadcast (SubscribeP mid topics qoss) # gs"
    and "(rid, c) \<in> set (routes (members s ! i))" "status (cheap (members s ! i) c) \<noteq> Disconnected"
    and "conn (cheap (members s ! i) c) = Some k" "writeOk env = (\<lambda>_. True)"
    and "validatePacketFields (SubscribeP mid topics qoss)" "length topics \<le> length qoss"
    and "heard s (j, m) = length (onWire k (trace (members s ! i)))"
  shows "\<exists>w s'. meshRun env [Local i EvGo, Carry j m, Local j (EvWork w)] s = Some s'
    \<and> mt_subs (topicsMgr (members s ! j)) \<subseteq> mt_subs (topicsMgr (members s' ! j))
    \<and> (\<forall>n < length topics. \<forall>sh grp topic fs.
         splitShare (topics ! n) = Some (sh, grp, topic) \<and> topicLevels topic = Inr fs \<and> ValidQos (qoss ! n) \<longrightarrow>
         (\<exists>r. (fs, subPtr r) \<in> mt_subs (topicsMgr (members s' ! j)) \<and> sheap (members s' ! j) r
            = \<lparr>sclient = m, stopic = topic, subQos = qoss ! n, share = sh, groupName = grp\<rparr>))"
proof -
  let ?p = "SubscribeP mid topics qoss" and ?b = "counting (Inc MetricNumberOfMessages) (members s ! j)"
  obtain b1 where b1: "meshStep env (Local i EvGo) s = Some (s\<lparr>members := (members s)[i := b1]\<rparr>)"
    "nthOpt (onWire k (trace b1)) (length (onWire k (trace (members s ! i)))) = Some ?p"
    using announced [OF assms(1,8,5,9-12)] by blast
  let ?s1 = "s\<lparr>members := (members s)[i := b1]\<rparr>"
  have at: "members ?s1 ! j = members s ! j" "members ?s1 ! i = b1" using assms(1,3) by simp_all
  obtain w where w: "meshRun env [Carry j m, Local j (EvWork w)] ?s1
    = Some (?s1\<lparr>members := (members ?s1)[j := processPacket env m ?p (counting (Inc MetricNumberOfMessages) (members ?s1 ! j))],
              heard := (heard ?s1)((j, m) := heard ?s1 (j, m) + 1)\<rparr>)"
    by (rule carried [of j ?s1 m i k REMOTE ?p env]) (use assms at b1 in simp_all)
  define b2 where "b2 = processPacket env m ?p ?b"
  define s2 where "s2 = ?s1\<lparr>members := (members ?s1)[j := b2], heard := (heard ?s1)((j, m) := heard ?s1 (j, m) + 1)\<rparr>"
  have run: "meshRun env [Local i EvGo, Carry j m, Local j (EvWork w)] s = Some s2"
    using b1(1) w unfolding at(1) s2_def b2_def by simp
  have mem: "members s2 ! j = b2" using assms(2) by (simp add: s2_def)
  have inv: "binv {} ?b" "ctyp (cheap ?b m) = REMOTE" "status (cheap ?b m) \<noteq> Disconnected"
    using assms(6,7) by (simp_all add: idle_def listening_def)
  note sub = link_subscribe [OF inv b2_def]
  have "mt_subs (topicsMgr (members s ! j)) \<subseteq> mt_subs (topicsMgr b2)" using sub(1) by (simp add: grows_def)
  moreover have "\<exists>r. (fs, subPtr r) \<in> mt_subs (topicsMgr b2) \<and> sheap b2 r
            = \<lparr>sclient = m, stopic = topic, subQos = qoss ! n, share = sh, groupName = grp\<rparr>"
    if "n < length topics" "splitShare (topics ! n) = Some (sh, grp, topic)" "topicLevels topic = Inr fs" "ValidQos (qoss ! n)"
    for n sh grp topic fs
    using sub(2) [OF that(1-3)] that(1,4) assms(14) by (auto simp: holdsSub_def)
  ultimately show ?thesis using run mem by (intro exI [of _ w] exI [of _ s2]) simp
qed

lemma subscription_crosses_link_witness:
  "\<exists>w s'. meshRun linkEnv [Local 0 EvGo, Carry 1 2, Local 1 (EvWork w)]
        (joint (askedBy (SubscribeP 7 [''a''] [0])) (length (onWire 0 (trace (askedBy (SubscribeP 7 [''a''] [0])))))) = Some s'
    \<and> (\<exists>r. ([''a''], subPtr r) \<in> mt_subs (topicsMgr (members s' ! 1))
         \<and> sheap (members s' ! 1) r = \<lparr>sclient = 2, stopic = ''a'', subQos = 0, share = False, groupName = []\<rparr>)"
proof -
  let ?b = "askedBy (SubscribeP 7 [''a''] [0])" and ?p = "SubscribeP 7 [''a''] [0]"
  let ?s = "joint ?b (length (onWire 0 (trace ?b)))"
  have s: "members ?s = [?b, joined]" "cables ?s = [((1, 2), (0, 0))]" "heard ?s = (\<lambda>_. length (onWire 0 (trace ?b)))"
    by (simp_all add: joint_def)
  have p: "validatePacketFields ?p" "splitShare ''a'' = Some (False, [], ''a'')" "topicLevels ''a'' = Inr [''a'']" "ValidQos 0"
    by code_simp+
  have "\<exists>w s'. meshRun linkEnv [Local 0 EvGo, Carry 1 2, Local 1 (EvWork w)] ?s = Some s'
    \<and> mt_subs (topicsMgr (members ?s ! 1)) \<subseteq> mt_subs (topicsMgr (members s' ! 1))
    \<and> (\<forall>n < length [''a'']. \<forall>sh grp topic fs.
         splitShare ([''a''] ! n) = Some (sh, grp, topic) \<and> topicLevels topic = Inr fs \<and> ValidQos ([0] ! n) \<longrightarrow>
         (\<exists>r. (fs, subPtr r) \<in> mt_subs (topicsMgr (members s' ! 1)) \<and> sheap (members s' ! 1) r
            = \<lparr>sclient = 2, stopic = topic, subQos = [0] ! n, share = sh, groupName = grp\<rparr>))"
    by (rule subscription_crosses_link [of 0 ?s 1 2 0 7 "[''a'']" "[0]" "[]" "''x''" 0 linkEnv])
      (simp_all add: s asked_facts joined_facts p tidings_facts(5))
  then show ?thesis using p by auto
qed

text \<open>
  C34. What a link ignores: an UNSUBSCRIBE that another broker sends over it and a QoS 2 message
  change nothing at the broker that reads them, except that they are counted, and nothing is answered.
  So the subscriptions of a link are never cancelled, and QoS 2 messages do not cross it.
\<close>

theorem link_ignores:
  assumes "j < length (members s)" "map_of (cables s) (j, m) = Some (i, k)" "idle (members s ! j)"
    and "listening ty (members s ! j) m" "validatePacketFields p"
    and "nthOpt (onWire k (trace (members s ! i))) (heard s (j, m)) = Some p"
    and "ty = REMOTE \<and> p = UnsubscribeP mid topics \<or> ty = ROUTER \<and> p = PublishP q \<and> Qos q = QosExactlyOnce"
  shows "\<exists>w. meshRun env [Carry j m, Local j (EvWork w)] s
    = Some (s\<lparr>members := (members s)[j := counting (Inc MetricNumberOfMessages) (members s ! j)],
              heard := (heard s)((j, m) := heard s (j, m) + 1)\<rparr>)"
proof -
  let ?b = "counting (Inc MetricNumberOfMessages) (members s ! j)"
  have "ctyp (cheap ?b m) = ty" using assms(4) by (simp add: listening_def)
  then have "processPacket env m p ?b = ?b"
    using assms(7) by (auto simp: processPacket_def ProcessUnSubscribe_def ProcessPublish_def processRouterPublish_def qos_defs)
  moreover have "ty \<noteq> CLUSTER" "\<not> isDisconnect p" using assms(7) by auto
  ultimately show ?thesis using carried [OF assms(1-4) _ _ assms(5,6), where env = env] by metis
qed

lemma link_ignores_witness:
  "\<exists>w. meshRun linkEnv [Carry 1 2, Local 1 (EvWork w)] (joint (askedBy (UnsubscribeP 3 [''a''])) 1)
    = Some ((joint (askedBy (UnsubscribeP 3 [''a''])) 1)\<lparr>members :=
        [askedBy (UnsubscribeP 3 [''a'']), counting (Inc MetricNumberOfMessages) joined], heard := (\<lambda>_. 1)((1, 2) := 2)\<rparr>)"
proof -
  let ?s = "joint (askedBy (UnsubscribeP 3 [''a''])) 1"
  have "nthOpt (onWire 0 (trace (askedBy (UnsubscribeP 3 [''a''])))) 1 = Some (UnsubscribeP 3 [''a''])"
    using left_run by (auto simp: askedBy_def split: option.splits)
  then have nx: "nthOpt (onWire 0 (trace (members ?s ! 0))) (heard ?s (1, 2)) = Some (UnsubscribeP 3 [''a''])"
    by (simp add: joint_def)
  have "validatePacketFields (UnsubscribeP 3 [''a''])" by code_simp
  from link_ignores [of 1 ?s 2 0 0 REMOTE _ _ _ _ linkEnv, OF _ _ _ _ this nx] show ?thesis
    by (simp add: joint_def joined_facts(1) joined_facts(2) [unfolded numeral_2_eq_2] numeral_2_eq_2)
qed

end
