(* ===== verification/Logging.thy ===== *)
theory Logging
  imports Hmq_Prelude
begin

text \<open>
  The loggers (\<^verbatim>\<open>logger/logger.go\<close>) and who takes which: the access control plugins and the
  bridge when their packages are initialised, the broker then and when the configuration asks for
  debug output (\<^verbatim>\<open>broker/config.go\<close>). The logging library is a parameter; what is printed is not
  modelled.
\<close>

section \<open>The library\<close>

datatype log_level = DebugLevel | InfoLevel | OtherLevel int

datatype timeEncoder = ISO8601TimeEncoder | OtherTimeEncoder nat

record encoderConfig =
  TimeKey :: string
  EncodeTime :: timeEncoder

record zapConfig =
  Level :: log_level
  DisableStacktrace :: bool
  EncoderConfig :: encoderConfig

text \<open>
  The two configurations the library starts from, what it builds of one (\<open>None\<close>: an error, with the
  nil logger) and a logger with a name added.
\<close>

record 'l zap =
  NewProductionConfig :: zapConfig
  NewProductionEncoderConfig :: encoderConfig
  Build :: "zapConfig \<Rightarrow> 'l option"
  Named :: "string \<Rightarrow> 'l \<Rightarrow> 'l"

section \<open>The package\<close>

definition encoderCfg :: "'l zap \<Rightarrow> encoderConfig" where
  "encoderCfg z = (NewProductionEncoderConfig z)\<lparr>TimeKey := ''timestamp'', EncodeTime := ISO8601TimeEncoder\<rparr>"

definition NewDevLogger :: "'l zap \<Rightarrow> 'l option" where
  "NewDevLogger z =
     (let logCfg = (NewProductionConfig z)\<lparr>Level := DebugLevel, EncoderConfig := encoderCfg z\<rparr> in Build z logCfg)"

definition NewProdLogger :: "'l zap \<Rightarrow> 'l option" where
  "NewProdLogger z =
     (let logCfg = (NewProductionConfig z)\<lparr>DisableStacktrace := True, Level := InfoLevel, EncoderConfig := encoderCfg z\<rparr>
      in Build z logCfg)"

text \<open>The state is the package's \<^verbatim>\<open>instance\<close>; the errors of the two constructors are dropped.\<close>

definition Prod :: "'l zap \<Rightarrow> 'l option \<Rightarrow> 'l option \<times> 'l option" where
  "Prod z inst = (let l = NewProdLogger z; inst1 = l in (inst1, inst1))"

definition Debug :: "'l zap \<Rightarrow> 'l option \<Rightarrow> 'l option \<times> 'l option" where
  "Debug z inst = (let l = NewDevLogger z; inst1 = l in (inst1, inst1))"

definition Get :: "'l zap \<Rightarrow> 'l option \<Rightarrow> 'l option \<times> 'l option" where
  "Get z inst =
     (let inst1 = (if inst = None then (let l = NewProdLogger z in l) else inst) in (inst1, inst1))"

section \<open>Who logs with what\<close>

text \<open>
  \<^verbatim>\<open>Named\<close> on the nil logger panics. The packages are initialised in the order of their imports,
  the broker last; \<open>None\<close> is a program that panics before \<^verbatim>\<open>main\<close>.
\<close>

record 'l logs =
  shared :: "'l option"
  authfileLog :: 'l
  authhttpLog :: 'l
  bridgeLog :: 'l
  brokerLog :: 'l

definition namedLog :: "'l zap \<Rightarrow> string \<Rightarrow> 'l option \<Rightarrow> 'l option" where
  "namedLog z name l = map_option (Named z name) l"

definition packageLogs :: "'l zap \<Rightarrow> 'l logs option" where
  "packageLogs z =
     (let (i1, a) = Get z None; (i2, h) = Get z i1; (i3, g) = Get z i2; (i4, b) = Prod z i3 in
      case (namedLog z ''authfile'' a, namedLog z ''authhttp'' h, namedLog z ''bridge'' g, namedLog z ''broker'' b) of
        (Some a1, Some h1, Some g1, Some b1) \<Rightarrow>
          Some \<lparr>shared = i4, authfileLog = a1, authhttpLog = h1, bridgeLog = g1, brokerLog = b1\<rparr>
      | _ \<Rightarrow> None)"

text \<open>\<^verbatim>\<open>ConfigureConfig\<close> with a configuration that has debug output on, or not.\<close>

definition configureLog :: "'l zap \<Rightarrow> bool \<Rightarrow> 'l logs \<Rightarrow> 'l logs option" where
  "configureLog z debug s =
     (if debug then
        (let (i, l) = Debug z (shared s)
         in map_option (\<lambda>b. s\<lparr>shared := i, brokerLog := b\<rparr>) (namedLog z ''broker'' l))
      else Some s)"

text \<open>Once there is an instance \<open>Get\<close> never builds another, and it never gives the nil logger after it gave one.\<close>

lemma Get_idem: "Get z (fst (Get z i)) = Get z i"
  by (cases i) (simp_all add: Get_def Let_def)

text \<open>
  The packages start exactly when the library builds the production logger. Debug output reaches the
  broker's own messages and later callers of \<open>Get\<close>; the plugins and the bridge, which took their
  loggers before the configuration was read, stay at the level of production.
\<close>

lemma packageLogs_Some:
  "packageLogs z = Some s \<longleftrightarrow>
     (\<exists>l. NewProdLogger z = Some l
        \<and> s = \<lparr>shared = Some l, authfileLog = Named z ''authfile'' l, authhttpLog = Named z ''authhttp'' l,
              bridgeLog = Named z ''bridge'' l, brokerLog = Named z ''broker'' l\<rparr>)"
  by (cases "NewProdLogger z") (auto simp: packageLogs_def Get_def Prod_def namedLog_def Let_def)

lemma debug_reaches:
  assumes "packageLogs z = Some s" "configureLog z True s = Some s'"
  obtains p d where "NewProdLogger z = Some p" "NewDevLogger z = Some d"
    "brokerLog s' = Named z ''broker'' d" "snd (Get z (shared s')) = Some d"
    "authfileLog s' = Named z ''authfile'' p" "authhttpLog s' = Named z ''authhttp'' p" "bridgeLog s' = Named z ''bridge'' p"
  using assms by (auto simp: packageLogs_Some configureLog_def Debug_def Get_def namedLog_def Let_def)

end
