(* ===== verification/Spec2Isabelle.thy ===== *)
theory Spec2Isabelle
  imports Topic_Properties Plugin_Properties Life_Properties Qos_Properties Message_Properties
    Subscription_Properties Cluster_Properties Config_Properties Metrics
    Reading_Order Write_Refines Subscribe_Race Link_Subscriptions Logging
begin

text \<open>
  A verification development for the MQTT broker hmq.

  The program. A broker accepts connections of clients and of other brokers (\<^verbatim>\<open>broker/broker.go\<close>). A
  connection is a \<^verbatim>\<open>client\<close> object (\<^verbatim>\<open>broker/client.go\<close>) with a reader, which hands each packet to
  one of the workers of a pool (\<^verbatim>\<open>pool/fixpool.go\<close>), chosen by the client's identifier; the worker
  runs \<^verbatim>\<open>ProcessMessage\<close>. The handlers keep the topic index (\<^verbatim>\<open>broker/lib/topics\<close>: a tree of
  subscriptions and a tree of retained messages), the sessions (\<^verbatim>\<open>broker/lib/sessions\<close>), and per
  client what the delivery guarantees need (\<^verbatim>\<open>broker/comm.go\<close>); they ask an access control plugin
  (\<^verbatim>\<open>plugins/auth\<close>, \<^verbatim>\<open>broker/auth.go\<close>) and report to a message bridge (\<^verbatim>\<open>plugins/bridge\<close>). A
  broker also connects to a hub and, as that announces them, to other brokers (\<^verbatim>\<open>broker/info.go\<close>).
  \<^verbatim>\<open>broker/config.go\<close>, \<^verbatim>\<open>main.go\<close> and \<^verbatim>\<open>metrics\<close> set all this up.

  The theories, from the bottom.
  \<^item> \<open>Hmq_Prelude\<close>: machine types, Go's functions on strings and bytes, lemmas on association
    lists, which model Go's maps (the order stands for the order of a \<^verbatim>\<open>range\<close>).
  \<^item> \<open>Topic_Levels\<close> (\<^verbatim>\<open>nextTopicLevel\<close>), \<open>Go_Values\<close> (\<^verbatim>\<open>equal\<close> on the values an interface
    can hold), \<open>Packets\<close> (the fields of the packet structs).
  \<^item> \<open>Sub_Tree\<close>, \<open>Sub_Tree_Laws\<close>, \<open>Sub_Match\<close> (\<^verbatim>\<open>snode\<close>), \<open>Ret_Tree\<close>, \<open>Ret_Match\<close>
    (\<^verbatim>\<open>rnode\<close>): the trees, each with an abstract view which every method is shown to implement.
    \<open>Topics_Interface\<close> has the contract of a provider as locales, with what its clients may
    conclude after any history of calls; \<open>Mem_Topics\<close> is \<^verbatim>\<open>memTopics\<close>, on which the locales are
    interpreted, with the provider registry.
  \<^item> \<open>Sessions\<close>: \<^verbatim>\<open>session.go\<close>, \<^verbatim>\<open>memprovider.go\<close>, \<^verbatim>\<open>sessions.go\<close>, with the contract of a
    session provider as a locale.
  \<^item> \<open>Auth_File\<close>, \<open>Auth_File_Laws\<close> (\<^verbatim>\<open>plugins/auth/authfile\<close>), \<open>Auth\<close> (\<^verbatim>\<open>authhttp\<close>,
    \<^verbatim>\<open>mock.go\<close>, \<^verbatim>\<open>auth.go\<close>, \<^verbatim>\<open>broker/auth.go\<close>), \<open>Bridge_Kafka\<close> (\<^verbatim>\<open>plugins/bridge\<close>),
    \<open>Worker_Pool\<close> (\<^verbatim>\<open>pool/fixpool.go\<close>): the parts the broker calls through an interface, each
    interface a locale interpreted on all its implementations.
  \<^item> \<open>Broker_State\<close> (the structs), \<open>Client_Qos\<close> (awaited releases, messages in flight, the
    retry timer, route counters, field checks), \<open>Broker_Core\<close> (writing, broadcasting, dialling,
    closing, publishing, retrying), \<open>Client_Handlers\<close> (every packet handler up to
    \<^verbatim>\<open>ProcessMessage\<close>), \<open>Connections\<close> (accepting, \<^verbatim>\<open>getSession\<close>, \<^verbatim>\<open>readLoop\<close>,
    \<^verbatim>\<open>SubmitWork\<close>, the ping ticker, the deletion over HTTP, and the steps).
  \<^item> \<open>Config\<close> (command line, configuration file, checks, TLS settings, \<^verbatim>\<open>NewBroker\<close>,
    \<^verbatim>\<open>Start\<close>, \<^verbatim>\<open>main\<close>, where each service listens, the accept loops), \<open>Metrics\<close>
    (\<^verbatim>\<open>metrics_manager.go\<close>), \<open>Logging\<close> (\<^verbatim>\<open>logger/logger.go\<close> and who takes which logger).
  \<^item> \<open>Write_Race\<close>: \<^verbatim>\<open>WriterPacket\<close> and \<^verbatim>\<open>Close\<close> of one client once more, statement by
    statement, run by any number of goroutines; \<open>Write_Refines\<close> shows that a goroutine left alone does
    there what the function of \<open>Broker_Core\<close> does in one step. \<open>Subscribe_Race\<close>: a worker with a
    SUBSCRIBE and a goroutine that closes the same client, likewise, on the broker's own state, with the
    lemmas that each of them undisturbed is \<open>clientSubscribeTopic\<close> and \<open>closeSelf\<close>. \<open>Cluster_Link\<close>,
    \<open>Link_Subscriptions\<close>: several brokers, with the connections between them.

  The state. \<open>broker\<close> is the struct \<^verbatim>\<open>Broker\<close> with the heap of clients and the heap of
  subscriptions (total functions from addresses, with the next free one), the goroutines started and
  not run yet, the list \<open>trace\<close> of everything done to the outside (writes with whether they
  succeeded, closed connections, reports, dialling, pauses), the list \<open>counted\<close> of what the exported
  counters were told, and the flag \<open>crashed\<close>, which says that a goroutine panicked. Each handler is a
  function from broker to broker; its early returns and its panics are branches. What is not under the
  source's control is the record \<open>env\<close>, a different one for each step: the clock, the outcome of each
  write and dial, random choices, the authorisation server and its cache, the packet library's verdict
  on a CONNECT, the parser of cluster messages.

  The steps. \<open>handleEvent\<close> is one turn of one goroutine: accepting a connection, a turn of a
  reader, of a worker, of the cluster loop or of the ping ticker, a goroutine started with \<^verbatim>\<open>go\<close>, a
  timer, the HTTP handler. \<open>reachable\<close> is what any sequence of such turns leads to. A turn runs to the
  point where the goroutine waits next, so interleavings inside a handler (which the source guards
  with locks only in part) are not modelled but for those of \<open>Write_Race\<close> and \<open>Subscribe_Race\<close>; those between turns
  are all.

  The finer and the larger model. In \<open>Write_Race\<close> a turn is one access to the fields \<^verbatim>\<open>status\<close>,
  \<^verbatim>\<open>conn\<close> and \<^verbatim>\<open>mu\<close> of a client or one piece of a packet on the wire, in \<open>Subscribe_Race\<close> one access
  to the status, the table \<^verbatim>\<open>subMap\<close> or the topic index, whose own lock is held within a call only. Go leaves the order in which
  unlocked accesses become visible open; the model takes them one after the other, so what it shows to
  go wrong can go wrong, and what it shows to hold rests on that order and, for the pieces of a packet,
  on the lock alone. A \<open>mesh\<close> is a list of brokers with a partial map from the end of a connection
  that reads to the broker and connection that write; \<open>Carry\<close> hands the next packet written there to the
  reader, so the network neither loses nor reorders. Each broker takes the steps of \<open>handleEvent\<close>.

  What the lemmas show.
  \<^item> The invariant. \<open>binv\<close> (\<open>Broker_Inv\<close>, \<open>Broker_Close\<close>) ties the registry of clients, the
    index of topics, the clients' own tables, the sessions and the pool together; \<open>Broker_Laws\<close>,
    \<open>Handler_Inv\<close>, \<open>Step_Inv\<close> and \<open>Broker_Steps\<close> show that every operation, handler and step keeps
    it, so it holds in every reachable state. \<open>program_starts\<close> says that these are the states of the
    program \<^verbatim>\<open>main\<close> starts.
  \<^item> Frames. \<open>Broker_Laws\<close> and \<open>Broker_Inv\<close> name what an operation leaves alone (\<open>only_trace\<close>,
    \<open>delivers\<close>, \<open>expands\<close>), \<open>Qos_Frame\<close> and \<open>Qos_Steps\<close> the same for the delivery guarantees
    (\<open>steady\<close>), \<open>Panics\<close> for the panic flag (\<open>level\<close>), \<open>Identity_Frame\<close> for what the handlers leave
    to the readers (\<open>tame\<close>: types, identifiers, readers, queues, counters). \<open>Qos_Inv\<close> and \<open>Runs\<close> lift
    them to reachable states and to runs; \<open>Reading_Order\<close> to the packets handed on and processed along
    a run, and to the counters.
  \<^item> Effects. \<open>Delivery_Laws\<close> and \<open>Routing\<close> give the exact list of packets a publication writes,
    \<open>Life_Laws\<close> what closing and accepting do in full, \<open>Subscribe_Laws\<close> what one topic of a SUBSCRIBE
    or UNSUBSCRIBE does.
  \<^item> The properties C1 to C40 are in the theories named \<open>_Properties\<close> and in \<open>Reading_Order\<close>,
    \<open>Write_Race\<close>, \<open>Subscribe_Race\<close>, \<open>Cluster_Link\<close> and \<open>Link_Subscriptions\<close>; they rest on the lemmas above and are few
    lines each. \<open>Broker_Examples\<close> has the small brokers they are
    instantiated on.

  Fuel and bounds. \<^verbatim>\<open>Close\<close> and \<^verbatim>\<open>WriterPacket\<close> call each other. \<open>CloseWith\<close> has fuel for it, and
  \<open>Close\<close> gives it one unit more than there are clients; the flag \<open>stuck\<close> would say that it ran out.
  \<open>close_terminates\<close> shows that in every reachable state one unit gives the same result as any more,
  and that the flag never goes up. \<^verbatim>\<open>connectRouter\<close> gives up after 52 attempts, which \<open>routerDial\<close>
  counts with a measure; the known nodes cannot change within a turn, so they are looked up once.
  \<^verbatim>\<open>ConnectToDiscovery\<close> dials until it succeeds: the environment says after how many failures; when
  it never does, the call does not return and there is no such turn. All other loops are structural. A run
  of fewer than \<open>2 ^ 52\<close> steps keeps the counters, which are floating point numbers, exact.

  Parameters, for code that is not in the repository: the packet library (what \<^verbatim>\<open>ReadPacket\<close> gives,
  \<^verbatim>\<open>Validate\<close>; whether a \<^verbatim>\<open>Write\<close> succeeds and in which pieces it writes), the JSON decoders, the
  expiring cache and the server behind the HTTP plugin, the Kafka client, the hash of the pool, TLS, the
  integer parser of the flag library, Prometheus, the logging library. Where a property relies on one
  of them it says so in a hypothesis.

  Not modelled: what is logged; the usage text; how the websocket and the HTTP library serve and route,
  of which only what they hand on is a step; \<^verbatim>\<open>pool/pool.go\<close>, which is commented out;
  \<^verbatim>\<open>newMessagePool\<close>, \<^verbatim>\<open>wrapPublishPacket\<close> and \<^verbatim>\<open>unWrapPublishPacket\<close> in
  \<^verbatim>\<open>broker/comm.go\<close>, which nothing calls. Time passes only as the clock the environment shows: that a
  timer fires when its interval is over is not stated. The metrics are there when the HTTP port is
  configured; in the program they appear when the goroutine that makes them has run.

  Next: the table of messages in flight under a publisher's worker, the subscriber's worker and the retry
  timer, in the manner of \<open>Subscribe_Race\<close>; three and more brokers, with the announcements of the hub.
\<close>

end
